(* ===== verification/Prelude.thy ===== *)
theory Prelude
  imports Main "HOL-Library.Word" "HOL-Library.Monad_Syntax" "HOL-Library.AList"
begin

section \<open>Shared types, lemma collections and interfaces\<close>

text \<open>
  What every component theory uses: the machine types, the C++ \<open>size_t\<close> arithmetic with its
  wrap-around written out, bounds-checked memory copies, and the locale of operations that keep an
  invariant without ever reaching undefined behaviour.

  Conventions of the whole development. A result of type \<open>'a option\<close> is \<open>None\<close> where the C++
  program has undefined behaviour or aborts: an access outside an allocation, a null dereference,
  a call of an empty function object, an exception that leaves a \<open>noexcept\<close> function or a C callback.
  The heap is a parameter \<open>al :: alloc\<close>: \<open>al n\<close> says whether growing a vector to \<open>n\<close> elements
  succeeds (a vector longer than \<open>vec_max\<close> never does). A byte is \<open>u8\<close>, a C \<open>uint32_t\<close> is \<open>u32\<close>; a \<open>size_t\<close> is a natural number below
  \<open>2 ^ 64\<close> whose additions and subtractions go through \<open>size_add\<close> and \<open>size_sub\<close>.
\<close>

type_synonym u8 = "8 word"
type_synonym u32 = "32 word"
type_synonym alloc = "nat \<Rightarrow> bool"

named_theorems code_defs \<open>definitions of the operations, unfolded to follow the code\<close>
named_theorems wf_intros \<open>rules that keep well-formedness invariants\<close>

subsection \<open>Values of errno\<close>

definition ENOENT :: int where "ENOENT = 2"
definition EINTR :: int where "EINTR = 4"
definition EIO :: int where "EIO = 5"
definition EAGAIN :: int where "EAGAIN = 11"
definition EWOULDBLOCK :: int where "EWOULDBLOCK = 11"
definition ENOMEM :: int where "ENOMEM = 12"
definition EEXIST :: int where "EEXIST = 17"
definition ENOTDIR :: int where "ENOTDIR = 20"
definition EISDIR :: int where "EISDIR = 21"
definition EINVAL :: int where "EINVAL = 22"
definition ENFILE :: int where "ENFILE = 23"
definition EMFILE :: int where "EMFILE = 24"
definition ENOTEMPTY :: int where "ENOTEMPTY = 39"
definition EMSGSIZE :: int where "EMSGSIZE = 90"
definition ENOTSUP :: int where "ENOTSUP = 95"
definition EINPROGRESS :: int where "EINPROGRESS = 115"

lemmas errno_defs =
  ENOENT_def EINTR_def EIO_def EAGAIN_def EWOULDBLOCK_def ENOMEM_def EEXIST_def ENOTDIR_def
  EISDIR_def EINVAL_def ENFILE_def EMFILE_def ENOTEMPTY_def EMSGSIZE_def ENOTSUP_def
  EINPROGRESS_def

subsection \<open>Arithmetic on size_t\<close>

definition size_add :: "nat \<Rightarrow> nat \<Rightarrow> nat" where
  "size_add a b = (a + b) mod 2 ^ 64"

definition size_sub :: "nat \<Rightarrow> nat \<Rightarrow> nat" where
  "size_sub a b = (if b \<le> a then a - b else a + 2 ^ 64 - b)"

lemma size_add_exact [simp]: "a + b < 18446744073709551616 \<Longrightarrow> size_add a b = a + b"
  by (simp add: size_add_def)

lemma size_sub_exact [simp]: "b \<le> a \<Longrightarrow> size_sub a b = a - b"
  by (simp add: size_sub_def)

lemma size_add_bound: "size_add a b < 2 ^ 64"
  by (simp add: size_add_def)

subsection \<open>Memory\<close>

text \<open>
  \<open>blit dst off src\<close> is \<open>memcpy(dst + off, src, |src|)\<close> on a vector \<open>dst\<close>, \<open>vec_slice xs off n\<close> reads
  \<open>n\<close> elements at \<open>off\<close>; both are \<open>None\<close> outside the vector. \<open>vec_resize\<close> is
  \<open>std::vector::resize\<close>.
\<close>

definition blit :: "'a list \<Rightarrow> nat \<Rightarrow> 'a list \<Rightarrow> 'a list option" where
  "blit dst off src =
     (if off + length src \<le> length dst
      then Some (take off dst @ src @ drop (off + length src) dst) else None)"

definition vec_slice :: "'a list \<Rightarrow> nat \<Rightarrow> nat \<Rightarrow> 'a list option" where
  "vec_slice xs off n = (if off + n \<le> length xs then Some (take n (drop off xs)) else None)"

definition vec_resize :: "'a list \<Rightarrow> nat \<Rightarrow> 'a \<Rightarrow> 'a list" where
  "vec_resize xs n x = take n xs @ replicate (n - length xs) x"

text \<open>
  \<open>std::vector<uint8_t>::max_size()\<close> is \<open>PTRDIFF_MAX\<close>: a longer vector is a \<open>length_error\<close>, whatever
  the heap says.
\<close>

definition vec_max :: nat where
  "vec_max = 2 ^ 63 - 1"

definition vec_can_grow :: "alloc \<Rightarrow> nat \<Rightarrow> bool" where
  "vec_can_grow al n \<longleftrightarrow> n \<le> vec_max \<and> al n"

lemma blit_in_bounds:
  "off + length src \<le> length dst \<Longrightarrow>
     blit dst off src = Some (take off dst @ src @ drop (off + length src) dst)"
  by (simp add: blit_def)

lemma blit_out_of_bounds: "length dst < off + length src \<Longrightarrow> blit dst off src = None"
  by (simp add: blit_def)

lemma blit_length: "blit dst off src = Some d \<Longrightarrow> length d = length dst"
  by (auto simp: blit_def split: if_splits)

lemma vec_slice_in_bounds:
  "off + n \<le> length xs \<Longrightarrow> vec_slice xs off n = Some (take n (drop off xs))"
  by (simp add: vec_slice_def)

lemma length_vec_resize [simp]: "length (vec_resize xs n x) = n"
  by (simp add: vec_resize_def)

lemma take_vec_resize: "k \<le> n \<Longrightarrow> k \<le> length xs \<Longrightarrow> take k (vec_resize xs n x) = take k xs"
  by (simp add: vec_resize_def min_def)

lemma take_drop_vec_resize:
  "a + k \<le> n \<Longrightarrow> a + k \<le> length xs \<Longrightarrow> take k (drop a (vec_resize xs n x)) = take k (drop a xs)"
  by (simp add: vec_resize_def take_drop min_def)

subsection \<open>Association lists\<close>

lemma update_new: "k \<notin> fst ` set xs \<Longrightarrow> AList.update k v xs = xs @ [(k, v)]"
  by (induction xs) auto

subsection \<open>Operations that keep an invariant and never fault\<close>

text \<open>
  \<open>run_ops step ops s\<close> performs a list of operations in order, collecting their results. The locale
  \<open>safe_ops\<close> is the contract of a set of operations on one state: from a state where the invariant
  holds with a budget of at least one operation, each operation returns and leaves the invariant with
  the budget reduced by one. The budget carries the bounds that hold only for so many operations
  (counters that would wrap); where there is none, the invariant ignores it.
\<close>

fun run_ops :: "('op \<Rightarrow> 's \<Rightarrow> ('r \<times> 's) option) \<Rightarrow> 'op list \<Rightarrow> 's \<Rightarrow> ('r list \<times> 's) option" where
  "run_ops step [] s = Some ([], s)"
| "run_ops step (x # xs) s =
     do { (r, s1) \<leftarrow> step x s; (rs, s2) \<leftarrow> run_ops step xs s1; Some (r # rs, s2) }"

locale safe_ops =
  fixes step :: "'op \<Rightarrow> 's \<Rightarrow> ('r \<times> 's) option"
    and ok :: "'op \<Rightarrow> bool"
    and inv :: "nat \<Rightarrow> 's \<Rightarrow> bool"
  assumes step_safe: "ok x \<Longrightarrow> inv (Suc n) s \<Longrightarrow> \<exists>r s1. step x s = Some (r, s1) \<and> inv n s1"
begin

lemma run_safe:
  "list_all ok xs \<Longrightarrow> inv (length xs + n) s \<Longrightarrow>
     \<exists>rs s1. run_ops step xs s = Some (rs, s1) \<and> length rs = length xs \<and> inv n s1"
proof (induction xs arbitrary: s)
  case Nil
  then show ?case by simp
next
  case (Cons x xs)
  then obtain r s1 where s1: "step x s = Some (r, s1)" "inv (length xs + n) s1"
    using step_safe [of x "length xs + n" s] by auto
  moreover have "list_all ok xs" using Cons.prems by simp
  ultimately obtain rs s2 where "run_ops step xs s1 = Some (rs, s2)" "length rs = length xs"
      "inv n s2"
    using Cons.IH [of s1] by blast
  with s1 show ?case by auto
qed

lemma run_invariant:
  "list_all ok xs \<Longrightarrow> inv (length xs + n) s \<Longrightarrow> run_ops step xs s = Some (rs, s1) \<Longrightarrow> inv n s1"
  using run_safe by fastforce

end

text \<open>
  \<open>spec_run spec\<close> are the runs of a specification, a relation between an operation, the abstract state
  before, the abstract result and the abstract state after. Operations that are safe and each follow
  the specification refine it in every run.
\<close>

inductive spec_run ::
  "('op \<Rightarrow> 'a \<Rightarrow> 'b \<Rightarrow> 'a \<Rightarrow> bool) \<Rightarrow> 'op list \<Rightarrow> 'a \<Rightarrow> 'b list \<Rightarrow> 'a \<Rightarrow> bool"
  for spec :: "'op \<Rightarrow> 'a \<Rightarrow> 'b \<Rightarrow> 'a \<Rightarrow> bool" where
  "spec_run spec [] a [] a"
| "spec x a r a1 \<Longrightarrow> spec_run spec xs a1 rs a2 \<Longrightarrow> spec_run spec (x # xs) a (r # rs) a2"

inductive_simps spec_run_Nil [simp]: "spec_run spec [] a rs a1"
inductive_simps spec_run_Cons [simp]: "spec_run spec (x # xs) a rs a2"

locale refined_ops = safe_ops step ok inv
  for step :: "'op \<Rightarrow> 's \<Rightarrow> ('r \<times> 's) option"
    and ok :: "'op \<Rightarrow> bool"
    and inv :: "nat \<Rightarrow> 's \<Rightarrow> bool" +
  fixes abs :: "'s \<Rightarrow> 'a"
    and rabs :: "'r \<Rightarrow> 'b"
    and spec :: "'op \<Rightarrow> 'a \<Rightarrow> 'b \<Rightarrow> 'a \<Rightarrow> bool"
  assumes step_refines: "ok x \<Longrightarrow> inv (Suc n) s \<Longrightarrow> step x s = Some (r, s1) \<Longrightarrow>
      spec x (abs s) (rabs r) (abs s1)"
begin

lemma run_refines:
  "list_all ok xs \<Longrightarrow> inv (length xs + n) s \<Longrightarrow> run_ops step xs s = Some (rs, s1) \<Longrightarrow>
     spec_run spec xs (abs s) (map rabs rs) (abs s1)"
proof (induction xs arbitrary: s rs)
  case Nil
  then show ?case by simp
next
  case (Cons x xs)
  then obtain r s2 rs' where st: "step x s = Some (r, s2)" "run_ops step xs s2 = Some (rs', s1)"
      "rs = r # rs'"
    by (auto split: Option.bind_splits)
  moreover have ok: "ok x" "inv (Suc (length xs + n)) s" using Cons.prems by simp_all
  moreover have "inv (length xs + n) s2" using step_safe [OF ok] st(1) by auto
  ultimately show ?case
    using Cons.IH [of s2 rs'] Cons.prems(1) step_refines [OF ok st(1)] by auto
qed

lemma run_safe_refines:
  "list_all ok xs \<Longrightarrow> inv (length xs + n) s \<Longrightarrow>
     \<exists>rs s1. run_ops step xs s = Some (rs, s1) \<and> inv n s1
       \<and> spec_run spec xs (abs s) (map rabs rs) (abs s1)"
  using run_safe run_refines by fastforce

end

lemma run_ops_append:
  "run_ops step (xs @ ys) s =
     do { (rs, s1) \<leftarrow> run_ops step xs s; (rs', s2) \<leftarrow> run_ops step ys s1; Some (rs @ rs', s2) }"
  by (induction xs arbitrary: s) (auto split: prod.splits Option.bind_splits)

end
