(* ===== verification/ByteBuf.thy ===== *)
theory ByteBuf
  imports Prelude
begin

section \<open>The stream buffer\<close>

text \<open>
  Models \<open>tasks/transport/byte_buffer.hpp\<close>: the class \<open>ByteBuf\<close> as the record \<open>bytebuf\<close> (read
  cursor, write cursor, vector) and one definition per member function. The invariant \<open>bb_wf\<close>, the
  abstraction \<open>bb_contents\<close> (the readable bytes, in order) and one lemma per operation that says
  what it does to the contents and that it never copies outside the vector.
\<close>

unbundle bit_operations_syntax

record bytebuf =
  bb_r :: nat
  bb_w :: nat
  bb_data :: "u8 list"

definition bb_empty :: bytebuf where
  "bb_empty = \<lparr>bb_r = 0, bb_w = 0, bb_data = []\<rparr>"

definition bb_moved_from :: "bytebuf \<Rightarrow> bytebuf" where
  \<comment> \<open>the implicit move constructor empties the vector and copies the two cursors\<close>
  "bb_moved_from b = b\<lparr>bb_data := []\<rparr>"

definition readableBytes :: "bytebuf \<Rightarrow> nat" where
  "readableBytes b = size_sub (bb_w b) (bb_r b)"

definition writableBytes :: "bytebuf \<Rightarrow> nat" where
  "writableBytes b = size_sub (length (bb_data b)) (bb_w b)"

definition bb_reserve :: "alloc \<Rightarrow> bytebuf \<Rightarrow> nat \<Rightarrow> bool \<times> bytebuf" where
  "bb_reserve al b n =
     (if n \<le> writableBytes b then (True, b)
      else let m = size_add (bb_w b) n in
        if vec_can_grow al m then (True, b\<lparr>bb_data := vec_resize (bb_data b) m 0\<rparr>) else (False, b))"

definition bb_advance :: "bytebuf \<Rightarrow> nat \<Rightarrow> nat \<times> bytebuf" where
  "bb_advance b n =
     (let m = min n (readableBytes b); r = size_add (bb_r b) m in
      (m, if r = bb_w b then b\<lparr>bb_r := 0, bb_w := 0\<rparr> else b\<lparr>bb_r := r\<rparr>))"

definition bb_commit :: "bytebuf \<Rightarrow> nat \<Rightarrow> nat \<times> bytebuf" where
  "bb_commit b n =
     (let m = min n (writableBytes b) in (m, b\<lparr>bb_w := size_add (bb_w b) m\<rparr>))"

definition bb_peek :: "bytebuf \<Rightarrow> nat \<Rightarrow> u8 list option" where
  \<comment> \<open>the bytes copied to the destination; their number is the result\<close>
  "bb_peek b n =
     (let m = min n (readableBytes b) in if m = 0 then Some [] else vec_slice (bb_data b) (bb_r b) m)"

definition bb_write :: "alloc \<Rightarrow> bytebuf \<Rightarrow> u8 list \<Rightarrow> (bool \<times> bytebuf) option" where
  "bb_write al b src =
     (if src = [] then Some (True, b)
      else case bb_reserve al b (length src) of
        (False, b1) \<Rightarrow> Some (False, b1)
      | (True, b1) \<Rightarrow> do {
          d \<leftarrow> blit (bb_data b1) (bb_w b1) src;
          Some (True, b1\<lparr>bb_data := d, bb_w := size_add (bb_w b1) (length src)\<rparr>) })"

definition bb_write_from :: "alloc \<Rightarrow> bytebuf \<Rightarrow> bytebuf \<Rightarrow> nat \<Rightarrow> (bytebuf \<times> bytebuf) option" where
  \<comment> \<open>\<open>write(ByteBuf\&\& src, size_t n)\<close>: this buffer and \<open>src\<close> afterwards\<close>
  "bb_write_from al b src n =
     (let m = min n (readableBytes src) in
      if m = 0 then Some (b, src)
      else case bb_reserve al b m of
        (False, b1) \<Rightarrow> Some (b1, src)
      | (True, b1) \<Rightarrow> do {
          bs \<leftarrow> vec_slice (bb_data src) (bb_r src) m;
          d \<leftarrow> blit (bb_data b1) (bb_w b1) bs;
          Some (b1\<lparr>bb_data := d, bb_w := size_add (bb_w b1) m\<rparr>, snd (bb_advance src m)) })"

definition bb_read :: "alloc \<Rightarrow> bytebuf \<Rightarrow> bytebuf \<Rightarrow> nat \<Rightarrow> (nat \<times> bytebuf \<times> bytebuf) option" where
  \<comment> \<open>\<open>src.read(dst, n)\<close> for two different buffers: the count, then \<open>src\<close> and \<open>dst\<close> afterwards\<close>
  "bb_read al src dst n =
     (let m = min n (readableBytes src) in
      if m = 0 then Some (0, src, dst)
      else case bb_reserve al dst m of
        (False, dst1) \<Rightarrow> Some (0, src, dst1)
      | (True, dst1) \<Rightarrow> do {
          bs \<leftarrow> vec_slice (bb_data src) (bb_r src) m;
          d \<leftarrow> blit (bb_data dst1) (bb_w dst1) bs;
          Some (m, snd (bb_advance src m),
                dst1\<lparr>bb_data := d, bb_w := size_add (bb_w dst1) m\<rparr>) })"

definition bb_read_self :: "bytebuf \<Rightarrow> nat \<Rightarrow> nat \<times> bytebuf" where
  \<comment> \<open>\<open>b.read(b, n)\<close>: the guard \<open>this == \&dst\<close>\<close>
  "bb_read_self b n = (0, b)"

definition readUI32 :: "bytebuf \<Rightarrow> (u32 option \<times> bytebuf) option" where
  "readUI32 b =
     (if readableBytes b < 4 then Some (None, b)
      else do {
        buf \<leftarrow> bb_peek b 4;
        let b1 = snd (bb_advance b 4);
        Some (Some (ucast (buf ! 0) OR push_bit 8 (ucast (buf ! 1)) OR
                    push_bit 16 (ucast (buf ! 2)) OR push_bit 24 (ucast (buf ! 3))), b1) })"

definition ui32_bytes :: "u32 \<Rightarrow> u8 list" where
  "ui32_bytes v = [ucast v, ucast (drop_bit 8 v), ucast (drop_bit 16 v), ucast (drop_bit 24 v)]"

definition writeUI32 :: "alloc \<Rightarrow> bytebuf \<Rightarrow> u32 \<Rightarrow> (bool \<times> bytebuf) option" where
  "writeUI32 al b v = bb_write al b (ui32_bytes v)"

text \<open>An \<open>iovec\<close> is an offset from \<open>data_.data()\<close> and a length.\<close>

definition bb_tailroom :: "bytebuf \<Rightarrow> (nat \<times> nat) list" where
  "bb_tailroom b = (if writableBytes b = 0 then [] else [(bb_w b, writableBytes b)])"

definition bb_headroom :: "bytebuf \<Rightarrow> (nat \<times> nat) list" where
  "bb_headroom b = (if readableBytes b = 0 then [] else [(bb_r b, readableBytes b)])"

subsection \<open>Well-formedness and contents\<close>

definition bb_wf :: "bytebuf \<Rightarrow> bool" where
  "bb_wf b \<longleftrightarrow> bb_r b \<le> bb_w b \<and> bb_w b \<le> length (bb_data b) \<and> length (bb_data b) \<le> vec_max"

definition bb_contents :: "bytebuf \<Rightarrow> u8 list" where
  "bb_contents b = take (bb_w b - bb_r b) (drop (bb_r b) (bb_data b))"

lemma vec_max_lt: "n \<le> vec_max \<longleftrightarrow> n < 9223372036854775808"
  by (auto simp: vec_max_def)

lemma bb_wf_empty [simp, wf_intros]: "bb_wf bb_empty"
  by (simp add: bb_wf_def bb_empty_def)

lemma bb_contents_empty [simp]: "bb_contents bb_empty = []"
  by (simp add: bb_contents_def bb_empty_def)

lemma bb_w_empty [simp]: "bb_w bb_empty = 0"
  by (simp add: bb_empty_def)

lemma length_bb_contents: "bb_wf b \<Longrightarrow> length (bb_contents b) = bb_w b - bb_r b"
  by (auto simp: bb_wf_def bb_contents_def)

lemma readableBytes_wf: "bb_wf b \<Longrightarrow> readableBytes b = length (bb_contents b)"
  by (simp add: length_bb_contents) (simp add: bb_wf_def readableBytes_def)

lemma readableBytes_diff: "bb_wf b \<Longrightarrow> readableBytes b = bb_w b - bb_r b"
  by (simp add: bb_wf_def readableBytes_def)

lemma writableBytes_diff: "bb_wf b \<Longrightarrow> writableBytes b = length (bb_data b) - bb_w b"
  by (simp add: bb_wf_def writableBytes_def)

lemma bb_contents_le_w: "bb_wf b \<Longrightarrow> length (bb_contents b) \<le> bb_w b"
  by (simp add: bb_wf_def bb_contents_def)

lemma bb_reserve_wf:
  assumes "bb_wf b" "n \<le> vec_max" "bb_reserve al b n = (ok, b1)"
  shows "bb_wf b1 \<and> bb_contents b1 = bb_contents b \<and> bb_w b1 = bb_w b \<and> bb_r b1 = bb_r b
    \<and> (ok \<longrightarrow> bb_w b + n \<le> length (bb_data b1)) \<and> (\<not> ok \<longrightarrow> b1 = b)"
  using assms
  by (auto simp: bb_reserve_def bb_wf_def bb_contents_def writableBytes_def take_drop_vec_resize
      vec_can_grow_def vec_max_lt Let_def split: if_splits)

lemma bb_reserve_ok:
  "al = (\<lambda>_. True) \<Longrightarrow> bb_w b + n \<le> vec_max \<Longrightarrow> fst (bb_reserve al b n)"
  by (simp add: bb_reserve_def Let_def vec_can_grow_def vec_max_lt)

lemma bb_advance_wf:
  assumes "bb_wf b"
  shows "fst (bb_advance b n) = min n (length (bb_contents b))"
    and "bb_wf (snd (bb_advance b n))"
    and "bb_contents (snd (bb_advance b n)) = drop n (bb_contents b)"
    and "bb_w (snd (bb_advance b n)) \<le> bb_w b"
proof -
  define m where "m = min n (bb_w b - bb_r b)"
  have le: "bb_r b + m \<le> bb_w b" "bb_w b \<le> length (bb_data b)" "length (bb_data b) \<le> vec_max"
    using assms by (auto simp: m_def bb_wf_def)
  then have s: "size_add (bb_r b) m = bb_r b + m" by (intro size_add_exact) (simp add: vec_max_lt)
  have adv: "bb_advance b n =
      (m, if bb_r b + m = bb_w b then b\<lparr>bb_r := 0, bb_w := 0\<rparr> else b\<lparr>bb_r := bb_r b + m\<rparr>)"
    using assms by (simp add: bb_advance_def readableBytes_diff s flip: m_def)
  show "fst (bb_advance b n) = min n (length (bb_contents b))"
    using assms by (simp add: adv m_def length_bb_contents)
  show "bb_wf (snd (bb_advance b n))"
    using le by (simp add: adv bb_wf_def)
  show "bb_w (snd (bb_advance b n)) \<le> bb_w b"
    by (simp add: adv)
  have "bb_contents (snd (bb_advance b n)) = drop m (bb_contents b)"
    using le by (auto simp: adv bb_contents_def drop_take add.commute)
  also have "\<dots> = drop n (bb_contents b)"
    using assms by (simp add: m_def length_bb_contents min_def)
  finally show "bb_contents (snd (bb_advance b n)) = drop n (bb_contents b)" .
qed

lemma vec_slice_contents:
  "bb_wf b \<Longrightarrow> m \<le> length (bb_contents b) \<Longrightarrow>
     vec_slice (bb_data b) (bb_r b) m = Some (take m (bb_contents b))"
  by (simp add: vec_slice_def length_bb_contents) (auto simp: bb_contents_def bb_wf_def)

lemma bb_peek_wf: "bb_wf b \<Longrightarrow> bb_peek b n = Some (take n (bb_contents b))"
  by (auto simp: bb_peek_def Let_def readableBytes_wf vec_slice_contents min_def)

lemma bb_commit_wf:
  assumes "bb_wf b"
  shows "bb_wf (snd (bb_commit b n))"
    and "fst (bb_commit b n) = min n (length (bb_data b) - bb_w b)"
    and "bb_contents (snd (bb_commit b n)) =
      bb_contents b @ take n (drop (bb_w b) (bb_data b))"
proof -
  define m where "m = min n (length (bb_data b) - bb_w b)"
  have le: "bb_r b \<le> bb_w b" "bb_w b + m \<le> length (bb_data b)" "length (bb_data b) \<le> vec_max"
    using assms by (auto simp: m_def bb_wf_def)
  then have s: "size_add (bb_w b) m = bb_w b + m" by (intro size_add_exact) (simp add: vec_max_lt)
  have com: "bb_commit b n = (m, b\<lparr>bb_w := bb_w b + m\<rparr>)"
    using assms by (simp add: bb_commit_def writableBytes_diff s flip: m_def)
  show "bb_wf (snd (bb_commit b n))"
    using le by (simp add: com bb_wf_def)
  show "fst (bb_commit b n) = min n (length (bb_data b) - bb_w b)"
    by (simp add: com m_def)
  have "bb_contents (snd (bb_commit b n)) = bb_contents b @ take m (drop (bb_w b) (bb_data b))"
    using le take_add [of "bb_w b - bb_r b" m "drop (bb_r b) (bb_data b)"]
    by (simp add: com bb_contents_def)
  also have "take m (drop (bb_w b) (bb_data b)) = take n (drop (bb_w b) (bb_data b))"
    by (simp add: m_def min_def)
  finally show "bb_contents (snd (bb_commit b n)) =
      bb_contents b @ take n (drop (bb_w b) (bb_data b))" .
qed

text \<open>
  Appending: a reserved, well-formed buffer takes the bytes at its write cursor.
\<close>

lemma bb_append:
  assumes wf: "bb_wf b" and room: "bb_w b + length bs \<le> length (bb_data b)"
  shows "\<exists>d. blit (bb_data b) (bb_w b) bs = Some d
    \<and> bb_wf (b\<lparr>bb_data := d, bb_w := size_add (bb_w b) (length bs)\<rparr>)
    \<and> bb_contents (b\<lparr>bb_data := d, bb_w := size_add (bb_w b) (length bs)\<rparr>) = bb_contents b @ bs
    \<and> size_add (bb_w b) (length bs) = bb_w b + length bs"
proof -
  let ?d = "take (bb_w b) (bb_data b) @ bs @ drop (bb_w b + length bs) (bb_data b)"
  have s: "size_add (bb_w b) (length bs) = bb_w b + length bs"
    using wf room by (intro size_add_exact) (simp add: bb_wf_def vec_max_lt)
  have "take (bb_w b + length bs - bb_r b) (drop (bb_r b) ?d) =
      take (bb_w b - bb_r b) (drop (bb_r b) (bb_data b)) @ bs"
    using wf room by (simp add: bb_wf_def drop_take)
  then show ?thesis
    using wf room by (simp add: blit_in_bounds s) (simp add: bb_wf_def bb_contents_def)
qed

lemma bb_write_wf:
  assumes wf: "bb_wf b" and lim: "length src \<le> vec_max"
  shows "\<exists>ok b1. bb_write al b src = Some (ok, b1) \<and> bb_wf b1
    \<and> bb_contents b1 = (if ok then bb_contents b @ src else bb_contents b)
    \<and> bb_w b1 = (if ok then bb_w b + length src else bb_w b)
    \<and> (\<not> ok \<longrightarrow> b1 = b) \<and> (al = (\<lambda>_. True) \<and> bb_w b + length src \<le> vec_max \<longrightarrow> ok)"
proof (cases "src = []")
  case True
  with wf show ?thesis by (intro exI [of _ True]) (simp add: bb_write_def)
next
  case False
  obtain ok b1 where r: "bb_reserve al b (length src) = (ok, b1)" by fastforce
  from bb_reserve_wf [OF wf lim r] have b1: "bb_wf b1" "bb_contents b1 = bb_contents b"
      "bb_w b1 = bb_w b" and len: "ok \<Longrightarrow> bb_w b1 + length src \<le> length (bb_data b1)"
      and no: "\<not> ok \<Longrightarrow> b1 = b" by auto
  have al: "al = (\<lambda>_. True) \<and> bb_w b + length src \<le> vec_max \<Longrightarrow> ok"
    using bb_reserve_ok [of al b "length src"] r by simp
  show ?thesis
  proof (cases ok)
    case True
    then obtain d where "blit (bb_data b1) (bb_w b1) src = Some d"
        "bb_wf (b1\<lparr>bb_data := d, bb_w := size_add (bb_w b1) (length src)\<rparr>)"
        "bb_contents (b1\<lparr>bb_data := d, bb_w := size_add (bb_w b1) (length src)\<rparr>) =
           bb_contents b1 @ src"
        "size_add (bb_w b1) (length src) = bb_w b1 + length src"
      using bb_append [OF b1(1) len] by blast
    with False True b1 r show ?thesis by (intro exI [of _ True]) (simp add: bb_write_def)
  next
    case f: False
    with no b1 r al wf False show ?thesis by (auto simp: bb_write_def)
  qed
qed

text \<open>
  Transferring: \<open>read\<close> and \<open>write(ByteBuf\&\&, n)\<close> move the same bytes; either all
  \<open>min n (readable)\<close> of them (the case \<open>k = n\<close>) or, when the destination cannot grow, none
  (\<open>k = 0\<close>).
\<close>

lemma bb_write_from_conv:
  "bb_write_from al dst src n = map_option (\<lambda>(c, s1, d1). (d1, s1)) (bb_read al src dst n)"
  by (auto simp: bb_write_from_def bb_read_def Let_def split: prod.splits bool.splits
      Option.bind_splits)

lemma bb_read_wf:
  assumes wf: "bb_wf dst" "bb_wf src"
  shows "\<exists>k dst1 src1. bb_read al src dst n = Some (min k (length (bb_contents src)), src1, dst1)
    \<and> bb_wf dst1 \<and> bb_wf src1 \<and> bb_w src1 \<le> bb_w src
    \<and> bb_contents dst1 = bb_contents dst @ take k (bb_contents src)
    \<and> bb_contents src1 = drop k (bb_contents src)
    \<and> bb_w dst1 = bb_w dst + min k (length (bb_contents src))
    \<and> (k = n \<or> k = 0)
    \<and> (al = (\<lambda>_. True) \<and> bb_w dst + min n (length (bb_contents src)) \<le> vec_max \<longrightarrow> k = n)"
proof -
  define m where "m = min n (length (bb_contents src))"
  have rd: "min n (readableBytes src) = m"
    using wf(2) by (simp add: readableBytes_wf m_def)
  show ?thesis
  proof (cases "m = 0")
    case True
    then have "bb_read al src dst n = Some (0, src, dst)"
      by (simp add: bb_read_def Let_def rd)
    with True wf show ?thesis
      by (intro exI [of _ n]) (auto simp: m_def min_def split: if_splits)
  next
    case False
    have lim': "m \<le> vec_max"
      using wf(2) by (auto simp: m_def length_bb_contents bb_wf_def)
    obtain ok b1 where r: "bb_reserve al dst m = (ok, b1)" by fastforce
    from bb_reserve_wf [OF wf(1) lim' r] have b1: "bb_wf b1" "bb_contents b1 = bb_contents dst"
        "bb_w b1 = bb_w dst" and len: "ok \<Longrightarrow> bb_w b1 + m \<le> length (bb_data b1)"
        and no: "\<not> ok \<Longrightarrow> b1 = dst" by auto
    have al: "al = (\<lambda>_. True) \<and> bb_w dst + m \<le> vec_max \<Longrightarrow> ok"
      using bb_reserve_ok [of al dst m] r by simp
    show ?thesis
    proof (cases ok)
      case True
      let ?bs = "take m (bb_contents src)"
      have bs: "vec_slice (bb_data src) (bb_r src) m = Some ?bs"
        using wf(2) by (rule vec_slice_contents) (simp add: m_def)
      have l: "length ?bs = m" by (simp add: m_def)
      obtain d where d: "blit (bb_data b1) (bb_w b1) ?bs = Some d"
          "bb_wf (b1\<lparr>bb_data := d, bb_w := size_add (bb_w b1) m\<rparr>)"
          "bb_contents (b1\<lparr>bb_data := d, bb_w := size_add (bb_w b1) m\<rparr>) = bb_contents b1 @ ?bs"
          "size_add (bb_w b1) m = bb_w b1 + m"
        using bb_append [OF b1(1), of ?bs] len [OF True] unfolding l by blast
      have cut: "drop m (bb_contents src) = drop n (bb_contents src)" "?bs = take n (bb_contents src)"
        by (simp_all add: m_def min_def)
      have "bb_read al src dst n = Some (m, snd (bb_advance src m),
          b1\<lparr>bb_data := d, bb_w := size_add (bb_w b1) m\<rparr>)"
        using False True r bs d(1) by (simp add: bb_read_def Let_def rd)
      with d b1 cut bb_advance_wf [OF wf(2), of m] show ?thesis
        by (intro exI [of _ n]) (simp add: m_def)
    next
      case f: False
      then have "bb_read al src dst n = Some (0, src, dst)"
        using False no r by (simp add: bb_read_def Let_def rd)
      with f al wf show ?thesis by (intro exI [of _ 0]) (auto simp: m_def)
    qed
  qed
qed

lemma bb_write_from_wf:
  assumes wf: "bb_wf b" "bb_wf src"
  shows "\<exists>k b1 src1. bb_write_from al b src n = Some (b1, src1) \<and> bb_wf b1 \<and> bb_wf src1
    \<and> bb_contents b1 = bb_contents b @ take k (bb_contents src)
    \<and> bb_contents src1 = drop k (bb_contents src)
    \<and> bb_w b1 = bb_w b + min k (length (bb_contents src))
    \<and> (k = n \<or> k = 0)
    \<and> (al = (\<lambda>_. True) \<and> bb_w b + min n (length (bb_contents src)) \<le> vec_max \<longrightarrow> k = n)"
  using bb_read_wf [OF assms, of al n] by (auto simp: bb_write_from_conv)

subsection \<open>Little-endian 32-bit words\<close>

definition le32 :: "u8 list \<Rightarrow> u32" where
  \<comment> \<open>the value four bytes stand for, least significant first\<close>
  "le32 bs = ucast (bs ! 0) OR push_bit 8 (ucast (bs ! 1)) OR
     push_bit 16 (ucast (bs ! 2)) OR push_bit 24 (ucast (bs ! 3))"

lemma length_ui32_bytes [simp]: "length (ui32_bytes v) = 4"
  by (simp add: ui32_bytes_def)

lemma le32_ui32_bytes [simp]: "le32 (ui32_bytes v) = v"
proof (rule bit_word_eqI)
  fix n assume "n < LENGTH(32)"
  then consider "n < 8" | "8 \<le> n" "n < 16" | "16 \<le> n" "n < 24" | "24 \<le> n" "n < 32"
    by fastforce
  then show "bit (le32 (ui32_bytes v)) n = bit v n"
    by cases (auto simp: le32_def ui32_bytes_def bit_or_iff bit_push_bit_iff bit_ucast_iff
        bit_drop_bit_eq)
qed

lemma readUI32_wf:
  assumes "bb_wf b"
  shows "readUI32 b = (if length (bb_contents b) < 4 then Some (None, b)
    else Some (Some (le32 (take 4 (bb_contents b))), snd (bb_advance b 4)))"
  using assms by (simp add: readUI32_def readableBytes_wf bb_peek_wf Let_def le32_def)

lemma writeUI32_wf:
  assumes "bb_wf b"
  shows "\<exists>ok b1. writeUI32 al b v = Some (ok, b1) \<and> bb_wf b1
    \<and> bb_contents b1 = (if ok then bb_contents b @ ui32_bytes v else bb_contents b)
    \<and> bb_w b1 = (if ok then bb_w b + 4 else bb_w b)
    \<and> (\<not> ok \<longrightarrow> b1 = b) \<and> (al = (\<lambda>_. True) \<and> bb_w b + 4 \<le> vec_max \<longrightarrow> ok)"
proof -
  have "length (ui32_bytes v) \<le> vec_max" by (simp add: vec_max_def)
  from bb_write_wf [OF assms(1) this, of al] show ?thesis
    by (simp only: writeUI32_def length_ui32_bytes)
qed

subsection \<open>Buffers built from a byte string\<close>

definition bb_of :: "u8 list \<Rightarrow> bytebuf" where
  \<comment> \<open>the buffer a fresh \<open>ByteBuf\<close> becomes when the bytes are appended to it\<close>
  "bb_of bs = \<lparr>bb_r = 0, bb_w = length bs, bb_data = bs\<rparr>"

lemma bb_of_simps [simp]:
  "bb_contents (bb_of bs) = bs" "bb_w (bb_of bs) = length bs" "bb_of [] = bb_empty"
  "bb_wf (bb_of bs) \<longleftrightarrow> length bs \<le> vec_max"
  by (simp_all add: bb_of_def bb_contents_def bb_wf_def bb_empty_def)

lemma length_bb_contents_le: "bb_wf b \<Longrightarrow> length (bb_contents b) \<le> vec_max"
  by (auto simp: length_bb_contents bb_wf_def)

lemma bb_write_of:
  assumes "length (bs @ cs) \<le> vec_max"
  shows "bb_write (\<lambda>_. True) (bb_of bs) cs = Some (True, bb_of (bs @ cs))"
proof -
  have "length bs + length cs < 2 ^ 64" using assms by (simp add: vec_max_lt)
  then show ?thesis
    using assms
    by (simp add: bb_write_def bb_reserve_def bb_of_def writableBytes_def vec_can_grow_def
        blit_def vec_resize_def)
qed

lemma bb_read_of:
  assumes "bb_wf src" "0 < m" "m \<le> length (bb_contents src)"
  shows "bb_read (\<lambda>_. True) src bb_empty m =
    Some (m, snd (bb_advance src m), bb_of (take m (bb_contents src)))"
proof -
  have m: "m \<le> vec_max" using assms length_bb_contents_le le_trans by blast
  then have "m < 2 ^ 64" by (simp add: vec_max_lt)
  then show ?thesis
    using assms m
    by (simp add: bb_read_def readableBytes_wf min_absorb1 bb_reserve_def bb_empty_def
        writableBytes_def vec_can_grow_def vec_slice_contents blit_def bb_of_def)
qed

lemma bb_moved_from_write:
  assumes "bb_wf b" "0 < bb_w b" "src \<noteq> []" "length src \<le> vec_max"
  shows "bb_write al (bb_moved_from b) src = None"
proof -
  have "length src \<le> 2 ^ 64 - bb_w b"
    using assms by (auto simp: bb_wf_def vec_max_lt)
  then show ?thesis
    using assms(2,3)
    by (simp add: bb_write_def bb_reserve_def bb_moved_from_def writableBytes_def size_sub_def
        blit_out_of_bounds)
qed

subsection \<open>Sequences of member functions\<close>

datatype bb_op =
    OpWrite "u8 list" | OpWriteFrom bytebuf nat | OpReadInto bytebuf nat | OpPeek nat
  | OpReserve nat | OpAdvance nat | OpCommit nat | OpReadUI32 | OpWriteUI32 u32

datatype bb_result = RBool bool | RCount nat | RBytes "u8 list" | RWord "u32 option" | RBuf bytebuf

fun bb_apply :: "alloc \<Rightarrow> bb_op \<Rightarrow> bytebuf \<Rightarrow> (bb_result \<times> bytebuf) option" where
  "bb_apply al (OpWrite bs) b = map_option (\<lambda>(ok, b1). (RBool ok, b1)) (bb_write al b bs)"
| "bb_apply al (OpWriteFrom src n) b =
     map_option (\<lambda>(b1, src1). (RBuf src1, b1)) (bb_write_from al b src n)"
| "bb_apply al (OpReadInto dst n) b =
     map_option (\<lambda>(k, b1, dst1). (RBuf dst1, b1)) (bb_read al b dst n)"
| "bb_apply al (OpPeek n) b = map_option (\<lambda>bs. (RBytes bs, b)) (bb_peek b n)"
| "bb_apply al (OpReserve n) b = (let (ok, b1) = bb_reserve al b n in Some (RBool ok, b1))"
| "bb_apply al (OpAdvance n) b = (let (k, b1) = bb_advance b n in Some (RCount k, b1))"
| "bb_apply al (OpCommit n) b = (let (k, b1) = bb_commit b n in Some (RCount k, b1))"
| "bb_apply al OpReadUI32 b = map_option (\<lambda>(v, b1). (RWord v, b1)) (readUI32 b)"
| "bb_apply al (OpWriteUI32 v) b = map_option (\<lambda>(ok, b1). (RBool ok, b1)) (writeUI32 al b v)"

fun bb_op_ok :: "bb_op \<Rightarrow> bool" where
  \<comment> \<open>what the caller owes: arguments that exist in memory\<close>
  "bb_op_ok (OpWrite bs) \<longleftrightarrow> length bs \<le> vec_max"
| "bb_op_ok (OpWriteFrom src n) \<longleftrightarrow> bb_wf src"
| "bb_op_ok (OpReadInto dst n) \<longleftrightarrow> bb_wf dst"
| "bb_op_ok (OpReserve n) \<longleftrightarrow> n \<le> vec_max"
| "bb_op_ok _ \<longleftrightarrow> True"

lemma bb_apply_safe:
  assumes "bb_op_ok x" "bb_wf b"
  shows "\<exists>r b1. bb_apply al x b = Some (r, b1) \<and> bb_wf b1"
proof (cases x)
  case (OpWrite bs)
  then obtain ok b1 where "bb_write al b bs = Some (ok, b1)" "bb_wf b1"
    using bb_write_wf [OF assms(2), of bs al] assms(1) by (simp, blast)
  then show ?thesis by (simp add: OpWrite)
next
  case (OpWriteFrom src n)
  then obtain b1 src1 where "bb_write_from al b src n = Some (b1, src1)" "bb_wf b1"
    using bb_write_from_wf [OF assms(2), of src al n] assms(1) by (simp, blast)
  then show ?thesis by (simp add: OpWriteFrom)
next
  case (OpReadInto dst n)
  then obtain k b1 dst1 where "bb_read al b dst n = Some (k, b1, dst1)" "bb_wf b1"
    using bb_read_wf [OF _ assms(2), of dst al n] assms(1) by (simp, blast)
  then show ?thesis by (simp add: OpReadInto)
next
  case (OpPeek n)
  then show ?thesis using assms(2) by (simp add: bb_peek_wf)
next
  case (OpReserve n)
  obtain ok b1 where r: "bb_reserve al b n = (ok, b1)" by fastforce
  with bb_reserve_wf [OF assms(2) _ r] assms(1) OpReserve show ?thesis by simp
next
  case (OpAdvance n)
  then show ?thesis using bb_advance_wf(2) [OF assms(2), of n] by (simp add: case_prod_beta)
next
  case (OpCommit n)
  then show ?thesis using bb_commit_wf(1) [OF assms(2), of n] by (simp add: case_prod_beta)
next
  case OpReadUI32
  then show ?thesis using bb_advance_wf(2) [OF assms(2), of 4] assms(2) by (simp add: readUI32_wf)
next
  case (OpWriteUI32 v)
  obtain ok b1 where "writeUI32 al b v = Some (ok, b1)" "bb_wf b1"
    using writeUI32_wf [OF assms(2), of al v] by blast
  then show ?thesis by (simp add: OpWriteUI32)
qed

interpretation bb: safe_ops "bb_apply al" bb_op_ok "\<lambda>n. bb_wf" for al
  by unfold_locales (rule bb_apply_safe)



subsection \<open>Words written are the words read\<close>

fun write_words :: "alloc \<Rightarrow> bytebuf \<Rightarrow> u32 list \<Rightarrow> bytebuf option" where
  "write_words al b [] = Some b"
| "write_words al b (v # vs) =
     do { (ok, b1) \<leftarrow> writeUI32 al b v; if ok then write_words al b1 vs else None }"

fun read_words :: "bytebuf \<Rightarrow> nat \<Rightarrow> (u32 list \<times> bytebuf) option" where
  "read_words b 0 = Some ([], b)"
| "read_words b (Suc n) =
     do { (v, b1) \<leftarrow> readUI32 b;
          case v of None \<Rightarrow> None
          | Some w \<Rightarrow> do { (ws, b2) \<leftarrow> read_words b1 n; Some (w # ws, b2) } }"

lemma write_words_contents:
  "bb_wf b \<Longrightarrow> write_words al b vs = Some b1 \<Longrightarrow>
     bb_wf b1 \<and> bb_contents b1 = bb_contents b @ concat (map ui32_bytes vs)"
proof (induction vs arbitrary: b)
  case Nil
  then show ?case by simp
next
  case (Cons v vs)
  then show ?case using writeUI32_wf [of b al v] by (fastforce split: if_splits)
qed

lemma read_words_contents:
  "bb_wf b \<Longrightarrow> bb_contents b = concat (map ui32_bytes vs) @ rest \<Longrightarrow>
     \<exists>b1. read_words b (length vs) = Some (vs, b1) \<and> bb_wf b1 \<and> bb_contents b1 = rest"
proof (induction vs arbitrary: b)
  case Nil
  then show ?case by simp
next
  case (Cons v vs)
  then have "readUI32 b = Some (Some v, snd (bb_advance b 4))"
    by (simp add: readUI32_wf)
  moreover have "bb_wf (snd (bb_advance b 4))"
      "bb_contents (snd (bb_advance b 4)) = concat (map ui32_bytes vs) @ rest"
    using Cons.prems bb_advance_wf [of b 4] by simp_all
  ultimately show ?case using Cons.IH by fastforce
qed

text \<open>32-bit words written to an empty buffer with writeUI32 are read back by readUI32 with the
  same values in the same order, and the buffer is empty again.\<close>

theorem bytebuf_words_roundtrip:
  assumes "bb_wf b" "bb_contents b = []" "write_words al b vs = Some b1"
  shows "\<exists>b2. read_words b1 (length vs) = Some (vs, b2) \<and> bb_wf b2 \<and> bb_contents b2 = []"
  using write_words_contents [OF assms(1,3)] read_words_contents [of b1 vs "[]"] assms(2) by simp

theorem bytebuf_words_roundtrip_witness:
  "\<exists>b2. read_words (bb_of (concat (map ui32_bytes [258, 4294967295]))) (length [258, 4294967295 :: u32]) =
     Some ([258, 4294967295], b2) \<and> bb_wf b2 \<and> bb_contents b2 = []"
proof (rule bytebuf_words_roundtrip [where b = bb_empty and al = "\<lambda>_. True"])
  show "write_words (\<lambda>_. True) bb_empty [258, 4294967295] =
      Some (bb_of (concat (map ui32_bytes [258, 4294967295])))"
    using bb_write_of [of "[]" "ui32_bytes 258"] bb_write_of [of "ui32_bytes 258" "ui32_bytes 4294967295"]
    by (simp add: writeUI32_def vec_max_def)
qed simp_all

subsection \<open>A moved-from buffer\<close>

text \<open>The implicit move constructor leaves the cursors of the moved-from buffer behind on an
  empty vector: unless the buffer was empty at its start, the next write of any bytes to the
  moved-from object copies outside its vector, whatever the allocator does.\<close>

theorem bytebuf_moved_from_write_faults:
  assumes "bb_wf b" "0 < bb_w b" "src \<noteq> []" "length src \<le> vec_max"
  shows "bb_write al (bb_moved_from b) src = None"
  using assms by (rule bb_moved_from_write)

theorem bytebuf_moved_from_write_faults_witness:
  "bb_write (\<lambda>_. True) (bb_moved_from (bb_of [1, 2])) [7] = None"
  by (rule bytebuf_moved_from_write_faults) (simp_all add: vec_max_def)

end
