(* ===== verification/Conveyor.thy ===== *)
theory Conveyor
  imports ByteBuf
begin

section \<open>Events and the conveyor\<close>

text \<open>
  Models \<open>tasks/transport/event.hpp\<close> and \<open>tasks/transport/conveyor.hpp\<close>. A stage is its state and
  the handlers its class has, one per kind of event (a missing handler is \<open>None\<close>, as the
  \<open>HasOnInbound\<close> and \<open>HasOnOutbound\<close> concepts decide). A handler returns the new state and the calls
  it makes on its \<open>StageContext\<close>, in order. A call is performed before the handler's next one, so the
  conveyor keeps a stack of calls still to perform; \<open>conv_exec\<close> runs it and returns the calls
  performed, in order, with the conveyor afterwards. Stages may bounce events for ever:
  \<open>conv_exec\<close> is then \<open>None\<close>.
\<close>

subsection \<open>Events\<close>

datatype event =
    InboundTransportActive
  | InboundTransportInactive
  | InboundTransportError int
  | InboundBytes bytebuf
  | InboundSuspend
  | InboundResume
  | OutboundBytes bytebuf
  | OutboundClose int
  | OutboundSuspend
  | OutboundResume

datatype event_kind =
    KInboundTransportActive | KInboundTransportInactive | KInboundTransportError
  | KInboundBytes | KInboundSuspend | KInboundResume | KOutboundBytes | KOutboundClose
  | KOutboundSuspend | KOutboundResume

fun kind_of :: "event \<Rightarrow> event_kind" where
  "kind_of InboundTransportActive = KInboundTransportActive"
| "kind_of InboundTransportInactive = KInboundTransportInactive"
| "kind_of (InboundTransportError _) = KInboundTransportError"
| "kind_of (InboundBytes _) = KInboundBytes"
| "kind_of InboundSuspend = KInboundSuspend"
| "kind_of InboundResume = KInboundResume"
| "kind_of (OutboundBytes _) = KOutboundBytes"
| "kind_of (OutboundClose _) = KOutboundClose"
| "kind_of OutboundSuspend = KOutboundSuspend"
| "kind_of OutboundResume = KOutboundResume"

subsection \<open>Stages and their contexts\<close>

datatype ctx_call = FireInbound event | FireOutbound event | Failure int

type_synonym 's handler = "nat \<Rightarrow> 's \<Rightarrow> event \<Rightarrow> ('s \<times> ctx_call list) option"
type_synonym 's hook = "nat \<Rightarrow> 's \<Rightarrow> ('s \<times> ctx_call list) option"

record 's stage =
  stage_impl :: 's
  on_added :: "'s hook option"
  on_removed :: "'s hook option"
  on_inbound :: "event_kind \<Rightarrow> 's handler option"
  on_outbound :: "event_kind \<Rightarrow> 's handler option"

definition adapter_added :: "nat \<Rightarrow> 's stage \<Rightarrow> ('s \<times> ctx_call list) option" where
  "adapter_added i st =
     (case on_added st of None \<Rightarrow> Some (stage_impl st, []) | Some h \<Rightarrow> h i (stage_impl st))"

definition adapter_removed :: "nat \<Rightarrow> 's stage \<Rightarrow> ('s \<times> ctx_call list) option" where
  "adapter_removed i st =
     (case on_removed st of None \<Rightarrow> Some (stage_impl st, []) | Some h \<Rightarrow> h i (stage_impl st))"

definition adapter_inbound :: "nat \<Rightarrow> 's stage \<Rightarrow> event \<Rightarrow> ('s \<times> ctx_call list) option" where
  "adapter_inbound i st e =
     (case on_inbound st (kind_of e) of
        None \<Rightarrow> Some (stage_impl st, [FireInbound e])
      | Some h \<Rightarrow> h i (stage_impl st) e)"

definition adapter_outbound :: "nat \<Rightarrow> 's stage \<Rightarrow> event \<Rightarrow> ('s \<times> ctx_call list) option" where
  "adapter_outbound i st e =
     (case on_outbound st (kind_of e) of
        None \<Rightarrow> Some (stage_impl st, [FireOutbound e])
      | Some h \<Rightarrow> h i (stage_impl st) e)"

subsection \<open>The conveyor\<close>

text \<open>
  The transport a conveyor points to is seen through the \<open>shutdown\<close> calls it receives.
\<close>

record 's conveyor =
  cv_stages :: "'s stage list"
  cv_shutdowns :: "int list"

datatype task = RunIn nat event | RunOut nat event | RunShutdown int

fun ctx_task :: "nat \<Rightarrow> ctx_call \<Rightarrow> task list" where
  "ctx_task i (FireInbound e) = [RunIn (i + 1) e]"
| "ctx_task i (FireOutbound e) = (if 0 < i then [RunOut (i - 1) e] else [])"
| "ctx_task i (Failure what) = [RunShutdown what]"

abbreviation ctx_tasks :: "nat \<Rightarrow> ctx_call list \<Rightarrow> task list" where
  "ctx_tasks i calls \<equiv> concat (map (ctx_task i) calls)"

definition set_impl :: "'s conveyor \<Rightarrow> nat \<Rightarrow> 's \<Rightarrow> 's conveyor" where
  "set_impl cv i s = cv\<lparr>cv_stages := (cv_stages cv)[i := (cv_stages cv ! i)\<lparr>stage_impl := s\<rparr>]\<rparr>"

fun conv_step :: "'s conveyor \<Rightarrow> task \<Rightarrow> ('s conveyor \<times> task list) option" where
  "conv_step cv (RunIn i e) =
     (if i < length (cv_stages cv)
      then do { (s, calls) \<leftarrow> adapter_inbound i (cv_stages cv ! i) e;
                Some (set_impl cv i s, ctx_tasks i calls) }
      else Some (cv, []))"
| "conv_step cv (RunOut i e) =
     (if i < length (cv_stages cv)
      then do { (s, calls) \<leftarrow> adapter_outbound i (cv_stages cv ! i) e;
                Some (set_impl cv i s, ctx_tasks i calls) }
      else Some (cv, []))"
| "conv_step cv (RunShutdown what) = Some (cv\<lparr>cv_shutdowns := cv_shutdowns cv @ [what]\<rparr>, [])"

partial_function (option) conv_exec ::
  "'s conveyor \<Rightarrow> task list \<Rightarrow> (task list \<times> 's conveyor) option" where
  "conv_exec cv ts =
     (case ts of
        [] \<Rightarrow> Some ([], cv)
      | t # rest \<Rightarrow> do {
          (cv1, new) \<leftarrow> conv_step cv t;
          (done, cv2) \<leftarrow> conv_exec cv1 (new @ rest);
          Some (t # done, cv2) })"

definition conv_fireInbound :: "'s conveyor \<Rightarrow> event \<Rightarrow> (task list \<times> 's conveyor) option" where
  "conv_fireInbound cv e = (if cv_stages cv = [] then Some ([], cv) else conv_exec cv [RunIn 0 e])"

definition conv_fireOutbound :: "'s conveyor \<Rightarrow> event \<Rightarrow> (task list \<times> 's conveyor) option" where
  "conv_fireOutbound cv e =
     (if cv_stages cv = [] then Some ([], cv)
      else conv_exec cv [RunOut (length (cv_stages cv) - 1) e])"

definition conv_empty :: "'s conveyor" where
  "conv_empty = \<lparr>cv_stages = [], cv_shutdowns = []\<rparr>"

definition conv_addLast :: "'s conveyor \<Rightarrow> 's stage \<Rightarrow> (task list \<times> 's conveyor) option" where
  \<comment> \<open>\<open>onAdded\<close> runs before the stage is appended, so its inbound events find no stage\<close>
  "conv_addLast cv st =
     do { (s, calls) \<leftarrow> adapter_added (length (cv_stages cv)) st;
          (done, cv1) \<leftarrow> conv_exec cv (ctx_tasks (length (cv_stages cv)) calls);
          Some (done, cv1\<lparr>cv_stages := cv_stages cv1 @ [st\<lparr>stage_impl := s\<rparr>]\<rparr>) }"

fun conv_remove_from :: "nat \<Rightarrow> nat \<Rightarrow> 's conveyor \<Rightarrow> (task list \<times> 's conveyor) option" where
  "conv_remove_from 0 i cv = Some ([], cv)"
| "conv_remove_from (Suc k) i cv =
     do { (s, calls) \<leftarrow> adapter_removed i (cv_stages cv ! i);
          (d1, cv1) \<leftarrow> conv_exec (set_impl cv i s) (ctx_tasks i calls);
          (d2, cv2) \<leftarrow> conv_remove_from k (i + 1) cv1;
          Some (d1 @ d2, cv2) }"

definition conv_destroy :: "'s conveyor \<Rightarrow> (task list \<times> 's conveyor) option" where
  "conv_destroy cv = conv_remove_from (length (cv_stages cv)) 0 cv"

subsection \<open>Running the stack of calls\<close>

lemma conv_exec_Nil [simp]: "conv_exec cv [] = Some ([], cv)"
  by (simp add: conv_exec.simps)

lemma conv_exec_Cons:
  "conv_exec cv (t # ts) =
     do { (cv1, new) \<leftarrow> conv_step cv t;
          (done, cv2) \<leftarrow> conv_exec cv1 (new @ ts);
          Some (t # done, cv2) }"
  by (subst conv_exec.simps) simp

lemma conv_exec_step:
  "conv_step cv t = Some (cv1, new) \<Longrightarrow>
     conv_exec cv (t # ts) = map_option (\<lambda>(d, cv2). (t # d, cv2)) (conv_exec cv1 (new @ ts))"
  by (simp add: conv_exec_Cons) (auto split: Option.bind_splits prod.splits)

lemma conv_exec_append:
  assumes "conv_exec cv ts = Some r"
  shows "conv_exec cv (ts @ us) =
    map_option (\<lambda>(d, cv2). (fst r @ d, cv2)) (conv_exec (snd r) us)"
proof (rule conv_exec.raw_induct [where P = "\<lambda>cv ts r. conv_exec cv (ts @ us) =
    map_option (\<lambda>(d, cv2). (fst r @ d, cv2)) (conv_exec (snd r) us)", OF _ assms])
  fix f :: "'a conveyor \<Rightarrow> task list \<Rightarrow> (task list \<times> 'a conveyor) option" and cv ts r
  assume IH: "\<And>cv ts r. f cv ts = Some r \<Longrightarrow> conv_exec cv (ts @ us) =
      map_option (\<lambda>(d, cv2). (fst r @ d, cv2)) (conv_exec (snd r) us)"
    and eq: "(case ts of [] \<Rightarrow> Some ([], cv)
      | t # rest \<Rightarrow> do { (cv1, new) \<leftarrow> conv_step cv t; (done, cv2) \<leftarrow> f cv1 (new @ rest);
          Some (t # done, cv2) }) = Some r"
  show "conv_exec cv (ts @ us) =
      map_option (\<lambda>(d, cv2). (fst r @ d, cv2)) (conv_exec (snd r) us)"
  proof (cases ts)
    case Nil
    with eq show ?thesis by (auto simp: option.map_ident_strong)
  next
    case (Cons t rest)
    with eq obtain cv1 new d cv2 where st: "conv_step cv t = Some (cv1, new)"
        and f: "f cv1 (new @ rest) = Some (d, cv2)" and r: "r = (t # d, cv2)"
      by (auto split: Option.bind_splits prod.splits)
    from IH [OF f] show ?thesis
      by (cases "conv_exec cv2 us") (auto simp: Cons conv_exec_step [OF st] r)
  qed
qed

lemma conv_exec_appendE:
  assumes "conv_exec cv ts = Some (d1, cv1)" "conv_exec cv1 us = Some (d2, cv2)"
  shows "conv_exec cv (ts @ us) = Some (d1 @ d2, cv2)"
  using conv_exec_append [OF assms(1), of us] assms(2) by simp

lemma set_impl_stages:
  "cv_stages (set_impl cv i s) = (cv_stages cv)[i := (cv_stages cv ! i)\<lparr>stage_impl := s\<rparr>]"
  "cv_shutdowns (set_impl cv i s) = cv_shutdowns cv"
  by (simp_all add: set_impl_def)

lemma conv_step_length:
  "conv_step cv t = Some (cv1, new) \<Longrightarrow> length (cv_stages cv1) = length (cv_stages cv)"
  by (cases "(cv, t)" rule: conv_step.cases)
    (auto simp: set_impl_stages split: if_splits Option.bind_splits)

lemma conv_exec_length:
  assumes "conv_exec cv ts = Some r"
  shows "length (cv_stages (snd r)) = length (cv_stages cv)"
proof (rule conv_exec.raw_induct [where P = "\<lambda>cv ts r. length (cv_stages (snd r)) =
    length (cv_stages cv)", OF _ assms])
  fix f :: "'a conveyor \<Rightarrow> task list \<Rightarrow> (task list \<times> 'a conveyor) option" and cv ts r
  assume IH: "\<And>cv ts r. f cv ts = Some r \<Longrightarrow>
      length (cv_stages (snd r)) = length (cv_stages cv)"
    and eq: "(case ts of [] \<Rightarrow> Some ([], cv)
      | t # rest \<Rightarrow> do { (cv1, new) \<leftarrow> conv_step cv t; (done, cv2) \<leftarrow> f cv1 (new @ rest);
          Some (t # done, cv2) }) = Some r"
  then show "length (cv_stages (snd r)) = length (cv_stages cv)"
    by (fastforce split: list.splits Option.bind_splits dest: conv_step_length)
qed

subsection \<open>The contract of a stage, and termination\<close>

text \<open>
  A pipeline whose outbound handlers only fire outbound events (an inbound handler may reply) cannot
  bounce events for ever. The locale states what a stage must promise for that: from a good state its
  handlers return, stay good, and fire events that satisfy \<open>ev_ok\<close> only.
\<close>

fun call_ok :: "(event \<Rightarrow> bool) \<Rightarrow> ctx_call \<Rightarrow> bool" where
  "call_ok ev_ok (FireInbound e) \<longleftrightarrow> ev_ok e"
| "call_ok ev_ok (FireOutbound e) \<longleftrightarrow> ev_ok e"
| "call_ok ev_ok (Failure what) \<longleftrightarrow> True"

fun call_down :: "ctx_call \<Rightarrow> bool" where
  "call_down (FireInbound e) \<longleftrightarrow> False"
| "call_down (FireOutbound e) \<longleftrightarrow> True"
| "call_down (Failure what) \<longleftrightarrow> True"

fun task_ok :: "(event \<Rightarrow> bool) \<Rightarrow> task \<Rightarrow> bool" where
  "task_ok ev_ok (RunIn i e) \<longleftrightarrow> ev_ok e"
| "task_ok ev_ok (RunOut i e) \<longleftrightarrow> ev_ok e"
| "task_ok ev_ok (RunShutdown what) \<longleftrightarrow> True"

fun task_rank :: "nat \<Rightarrow> task \<Rightarrow> nat" where
  "task_rank n (RunIn i e) = n + 1 + (n - i)"
| "task_rank n (RunOut i e) = Suc i"
| "task_rank n (RunShutdown what) = 0"

locale stage_contract =
  fixes good :: "'s stage \<Rightarrow> bool"
    and ev_ok :: "event \<Rightarrow> bool"
  assumes inbound_good: "good st \<Longrightarrow> ev_ok e \<Longrightarrow>
      \<exists>s calls. adapter_inbound i st e = Some (s, calls) \<and> good (st\<lparr>stage_impl := s\<rparr>)
        \<and> list_all (call_ok ev_ok) calls"
    and outbound_good: "good st \<Longrightarrow> ev_ok e \<Longrightarrow>
      \<exists>s calls. adapter_outbound i st e = Some (s, calls) \<and> good (st\<lparr>stage_impl := s\<rparr>)
        \<and> list_all (call_ok ev_ok) calls \<and> list_all call_down calls"
begin

lemma ctx_tasks_in:
  assumes "list_all (call_ok ev_ok) calls" "i < n" "t \<in> set (ctx_tasks i calls)"
  shows "task_ok ev_ok t \<and> task_rank n t < n + 1 + (n - i)"
proof -
  from assms(3) obtain c where c: "c \<in> set calls" "t \<in> set (ctx_task i c)" by auto
  with assms(1) have "call_ok ev_ok c" by (auto simp: list_all_iff)
  with c(2) assms(2) show ?thesis by (cases c) (auto split: if_splits)
qed

lemma ctx_tasks_out:
  assumes "list_all (call_ok ev_ok) calls" "list_all call_down calls" "t \<in> set (ctx_tasks i calls)"
  shows "task_ok ev_ok t \<and> task_rank n t < Suc i"
proof -
  from assms(3) obtain c where c: "c \<in> set calls" "t \<in> set (ctx_task i c)" by auto
  with assms(1,2) have "call_ok ev_ok c" "call_down c" by (auto simp: list_all_iff)
  with c(2) show ?thesis by (cases c) (auto split: if_splits)
qed

lemma set_impl_good:
  "list_all good (cv_stages cv) \<Longrightarrow> good ((cv_stages cv ! i)\<lparr>stage_impl := s\<rparr>) \<Longrightarrow>
     list_all good (cv_stages (set_impl cv i s))"
  by (auto simp: set_impl_stages list_all_iff dest!: subsetD [OF set_update_subset_insert])

lemma step_good:
  assumes "list_all good (cv_stages cv)" "task_ok ev_ok t"
  shows "\<exists>cv1 new. conv_step cv t = Some (cv1, new) \<and> list_all good (cv_stages cv1)
    \<and> (\<forall>u \<in> set new. task_ok ev_ok u
         \<and> task_rank (length (cv_stages cv)) u < task_rank (length (cv_stages cv)) t)"
proof (cases t)
  case (RunIn i e)
  show ?thesis
  proof (cases "i < length (cv_stages cv)")
    case True
    then have "good (cv_stages cv ! i)" using assms(1) by (simp add: list_all_length)
    then obtain s calls where h: "adapter_inbound i (cv_stages cv ! i) e = Some (s, calls)"
        "good ((cv_stages cv ! i)\<lparr>stage_impl := s\<rparr>)" "list_all (call_ok ev_ok) calls"
      using inbound_good assms(2) RunIn by fastforce
    with True RunIn assms(1) show ?thesis
      using ctx_tasks_in [OF h(3) True] by (simp add: set_impl_good)
  qed (simp add: RunIn assms(1))
next
  case (RunOut i e)
  show ?thesis
  proof (cases "i < length (cv_stages cv)")
    case True
    then have "good (cv_stages cv ! i)" using assms(1) by (simp add: list_all_length)
    then obtain s calls where h: "adapter_outbound i (cv_stages cv ! i) e = Some (s, calls)"
        "good ((cv_stages cv ! i)\<lparr>stage_impl := s\<rparr>)" "list_all (call_ok ev_ok) calls"
        "list_all call_down calls"
      using outbound_good assms(2) RunOut by fastforce
    with True RunOut assms(1) show ?thesis
      using ctx_tasks_out [OF h(3,4), of _ i "length (cv_stages cv)"] by (simp add: set_impl_good)
  qed (simp add: RunOut assms(1))
next
  case (RunShutdown what)
  with assms(1) show ?thesis by simp
qed

lemma exec_returns:
  "list_all good (cv_stages cv) \<Longrightarrow> \<forall>t \<in> set ts. task_ok ev_ok t \<and>
     task_rank (length (cv_stages cv)) t < k \<Longrightarrow>
   \<exists>d cv1. conv_exec cv ts = Some (d, cv1) \<and> list_all good (cv_stages cv1)"
proof (induction k arbitrary: cv ts)
  case 0
  then have "ts = []" by (cases ts) auto
  with 0 show ?case by simp
next
  case (Suc k)
  from Suc.prems show ?case
  proof (induction ts arbitrary: cv)
    case Nil
    then show ?case by simp
  next
    case (Cons t ts)
    let ?n = "length (cv_stages cv)"
    obtain cv1 new where st: "conv_step cv t = Some (cv1, new)" "list_all good (cv_stages cv1)"
        and new: "\<forall>u \<in> set new. task_ok ev_ok u \<and> task_rank ?n u < task_rank ?n t"
      using step_good [of cv t] Cons.prems by auto
    have n1: "length (cv_stages cv1) = ?n" using st(1) by (rule conv_step_length)
    have "\<forall>u \<in> set new. task_ok ev_ok u \<and> task_rank (length (cv_stages cv1)) u < k"
      unfolding n1 using new Cons.prems(2) by fastforce
    then obtain d cv2 where x: "conv_exec cv1 new = Some (d, cv2)" "list_all good (cv_stages cv2)"
      using Suc.IH [OF st(2)] by blast
    have n2: "length (cv_stages cv2) = ?n" using conv_exec_length [OF x(1)] n1 by simp
    have "\<forall>u \<in> set ts. task_ok ev_ok u \<and> task_rank (length (cv_stages cv2)) u < Suc k"
      unfolding n2 using Cons.prems(2) by simp
    then obtain d' cv3 where "conv_exec cv2 ts = Some (d', cv3)" "list_all good (cv_stages cv3)"
      using Cons.IH [OF x(2)] by blast
    with conv_exec_appendE [OF x(1)] show ?case
      by (simp add: conv_exec_step [OF st(1)])
  qed
qed

lemma fireInbound_returns:
  "list_all good (cv_stages cv) \<Longrightarrow> ev_ok e \<Longrightarrow>
     \<exists>d cv1. conv_fireInbound cv e = Some (d, cv1) \<and> list_all good (cv_stages cv1)"
  using exec_returns [of cv "[RunIn 0 e]" "task_rank (length (cv_stages cv)) (RunIn 0 e) + 1"]
  by (auto simp: conv_fireInbound_def)

lemma fireOutbound_returns:
  "list_all good (cv_stages cv) \<Longrightarrow> ev_ok e \<Longrightarrow>
     \<exists>d cv1. conv_fireOutbound cv e = Some (d, cv1) \<and> list_all good (cv_stages cv1)"
  using exec_returns [of cv "[RunOut (length (cv_stages cv) - 1) e]"
      "Suc (task_rank (length (cv_stages cv)) (RunOut (length (cv_stages cv) - 1) e))"]
  by (auto simp: conv_fireOutbound_def)

end

subsection \<open>Order of dispatch\<close>

text \<open>
  A stage without a handler for the kind of the event passes it on unchanged: inbound to the next
  stage, outbound to the previous one.
\<close>

lemma set_impl_same [simp]: "set_impl cv i (stage_impl (cv_stages cv ! i)) = cv"
  by (simp add: set_impl_def)

lemma conv_step_in_skip:
  "i < length (cv_stages cv) \<Longrightarrow> on_inbound (cv_stages cv ! i) (kind_of e) = None \<Longrightarrow>
     conv_step cv (RunIn i e) = Some (cv, [RunIn (i + 1) e])"
  by (simp add: adapter_inbound_def)

lemma conv_step_out_skip:
  "i < length (cv_stages cv) \<Longrightarrow> on_outbound (cv_stages cv ! i) (kind_of e) = None \<Longrightarrow>
     conv_step cv (RunOut i e) = Some (cv, if 0 < i then [RunOut (i - 1) e] else [])"
  by (simp add: adapter_outbound_def)

lemma conv_exec_in_skip:
  assumes "i \<le> k" "k \<le> length (cv_stages cv)"
    and "\<forall>j. i \<le> j \<and> j < k \<longrightarrow> on_inbound (cv_stages cv ! j) (kind_of e) = None"
  shows "conv_exec cv (RunIn i e # ts) =
    map_option (\<lambda>(d, cv2). (map (\<lambda>j. RunIn j e) [i..<k] @ d, cv2)) (conv_exec cv (RunIn k e # ts))"
  using assms
proof (induction "k - i" arbitrary: i)
  case 0
  then show ?case by (simp add: option.map_ident_strong)
next
  case (Suc m)
  then have i: "i < k" "m = k - Suc i" by auto
  have "conv_step cv (RunIn i e) = Some (cv, [RunIn (i + 1) e])"
    using Suc.prems i by (intro conv_step_in_skip) auto
  moreover have "conv_exec cv (RunIn (Suc i) e # ts) =
      map_option (\<lambda>(d, cv2). (map (\<lambda>j. RunIn j e) [Suc i..<k] @ d, cv2))
        (conv_exec cv (RunIn k e # ts))"
    using Suc.hyps(1) [OF i(2)] Suc.prems i by simp
  ultimately show ?case
    using i(1) by (cases "conv_exec cv (RunIn k e # ts)")
      (auto simp: conv_exec_step upt_conv_Cons)
qed

lemma conv_exec_out_skip:
  assumes "i < length (cv_stages cv)"
    and "\<forall>j \<le> i. on_outbound (cv_stages cv ! j) (kind_of e) = None"
  shows "conv_exec cv [RunOut i e] = Some (map (\<lambda>j. RunOut j e) (rev [0..<Suc i]), cv)"
  using assms
proof (induction i)
  case 0
  then show ?case by (simp add: conv_exec_step [OF conv_step_out_skip])
next
  case (Suc i)
  then have "conv_exec cv [RunOut i e] = Some (map (\<lambda>j. RunOut j e) (rev [0..<Suc i]), cv)"
    by simp
  with Suc.prems show ?case
    by (subst conv_exec_step [OF conv_step_out_skip]) auto
qed

lemma conv_exec_in_end:
  assumes "i \<le> length (cv_stages cv)"
    and "\<forall>j. i \<le> j \<and> j < length (cv_stages cv) \<longrightarrow> on_inbound (cv_stages cv ! j) (kind_of e) = None"
  shows "conv_exec cv (RunIn i e # ts) =
    map_option (\<lambda>(d, cv2). (map (\<lambda>j. RunIn j e) [i..<Suc (length (cv_stages cv))] @ d, cv2))
      (conv_exec cv ts)"
proof -
  have "conv_step cv (RunIn (length (cv_stages cv)) e) = Some (cv, [])" by simp
  then show ?thesis
    using assms by (cases "conv_exec cv ts")
      (auto simp: conv_exec_in_skip [OF assms(1) order_refl] conv_exec_step)
qed

lemma conv_exec_out_down:
  assumes "k \<le> i" "i < length (cv_stages cv)"
    and "\<forall>j. k < j \<and> j \<le> i \<longrightarrow> on_outbound (cv_stages cv ! j) (kind_of e) = None"
  shows "conv_exec cv (RunOut i e # ts) =
    map_option (\<lambda>(d, cv2). (map (\<lambda>j. RunOut j e) (rev [Suc k..<Suc i]) @ d, cv2))
      (conv_exec cv (RunOut k e # ts))"
  using assms
proof (induction i)
  case 0
  then show ?case by (simp add: option.map_ident_strong)
next
  case (Suc i)
  show ?case
  proof (cases "k = Suc i")
    case True
    then show ?thesis by (simp add: option.map_ident_strong)
  next
    case False
    then have k: "k \<le> i" using Suc.prems(1) by simp
    have "conv_step cv (RunOut (Suc i) e) = Some (cv, [RunOut i e])"
      using Suc.prems k by (subst conv_step_out_skip) auto
    moreover have "conv_exec cv (RunOut i e # ts) =
        map_option (\<lambda>(d, cv2). (map (\<lambda>j. RunOut j e) (rev [Suc k..<Suc i]) @ d, cv2))
          (conv_exec cv (RunOut k e # ts))"
      using Suc k by simp
    ultimately show ?thesis
      using k by (cases "conv_exec cv (RunOut k e # ts)") (auto simp: conv_exec_step)
  qed
qed

end
