(* ===== verification/Chunker.thy ===== *)
theory Chunker
  imports Conveyor
begin

section \<open>The chunker stage\<close>

text \<open>
  Models \<open>tasks/transport/chunker.hpp\<close> and \<open>tasks/transport/chunker.cpp\<close>: the stage that cuts the
  inbound byte stream into length-prefixed chunks and frames outbound messages. \<open>drain\<close> is its
  specification on plain byte strings; the loop is shown to implement it, and the specification to
  be independent of how the stream is fragmented and to invert the framing.
\<close>

unbundle bit_operations_syntax

definition kChunkLimit :: nat where
  "kChunkLimit = 1048576"

record chunker =
  ck_in :: bytebuf
  ck_pending :: u32

definition chunker_init :: chunker where
  "chunker_init = \<lparr>ck_in = bb_empty, ck_pending = 0\<rparr>"

datatype header = HdrMore chunker | HdrTooBig chunker | HdrReady chunker

definition chunk_header :: "chunker \<Rightarrow> header option" where
  \<comment> \<open>the branch \<open>pending_ == 0\<close> of the loop's body\<close>
  "chunk_header c =
     (if ck_pending c = 0
      then do {
        (v, b1) \<leftarrow> readUI32 (ck_in c);
        Some (case v of
            None \<Rightarrow> HdrMore (c\<lparr>ck_in := b1\<rparr>)
          | Some p \<Rightarrow> if kChunkLimit < unat p
                      then HdrTooBig (c\<lparr>ck_in := bb_empty, ck_pending := 0\<rparr>)
                      else HdrReady (c\<lparr>ck_in := b1, ck_pending := p\<rparr>)) }
      else Some (HdrReady c))"

partial_function (option) chunk_loop ::
  "alloc \<Rightarrow> chunker \<Rightarrow> ctx_call list \<Rightarrow> (chunker \<times> ctx_call list) option" where
  "chunk_loop al c calls =
     do { h \<leftarrow> chunk_header c;
          case h of
            HdrMore c1 \<Rightarrow> Some (c1, calls)
          | HdrTooBig c1 \<Rightarrow> Some (c1, calls @ [Failure (- EMSGSIZE)])
          | HdrReady c1 \<Rightarrow>
              if readableBytes (ck_in c1) < unat (ck_pending c1) then Some (c1, calls)
              else do {
                (in1, payload) \<leftarrow>
                  (if 0 < ck_pending c1
                   then map_option snd (bb_read al (ck_in c1) bb_empty (unat (ck_pending c1)))
                   else Some (ck_in c1, bb_empty));
                chunk_loop al (c1\<lparr>ck_in := in1, ck_pending := 0\<rparr>)
                  (calls @ [FireInbound (InboundBytes payload)]) } }"

definition chunker_onInbound :: "alloc \<Rightarrow> chunker \<Rightarrow> bytebuf \<Rightarrow> (chunker \<times> ctx_call list) option" where
  "chunker_onInbound al c buf =
     do { (in1, buf1) \<leftarrow> bb_write_from al (ck_in c) buf (readableBytes buf);
          chunk_loop al (c\<lparr>ck_in := in1\<rparr>) [] }"

definition chunker_onOutbound :: "alloc \<Rightarrow> chunker \<Rightarrow> bytebuf \<Rightarrow> (chunker \<times> ctx_call list) option" where
  "chunker_onOutbound al c buf =
     (let len = readableBytes buf in
      if kChunkLimit < len then Some (c, [Failure (- EMSGSIZE)])
      else do {
        (ok, out) \<leftarrow> writeUI32 al bb_empty (word_of_nat len);
        if \<not> ok then Some (c, [Failure (- ENOMEM)])
        else do {
          (out1, buf1) \<leftarrow> bb_write_from al out buf len;
          Some (c, [FireOutbound (OutboundBytes out1)]) } })"

text \<open>The class as a stage of a conveyor: it has one inbound and one outbound overload.\<close>

definition chunker_stage :: "alloc \<Rightarrow> chunker \<Rightarrow> chunker stage" where
  "chunker_stage al c =
     \<lparr>stage_impl = c, on_added = None, on_removed = None,
      on_inbound = (\<lambda>k. if k = KInboundBytes
        then Some (\<lambda>i s e. case e of InboundBytes b \<Rightarrow> chunker_onInbound al s b | _ \<Rightarrow> None)
        else None),
      on_outbound = (\<lambda>k. if k = KOutboundBytes
        then Some (\<lambda>i s e. case e of OutboundBytes b \<Rightarrow> chunker_onOutbound al s b | _ \<Rightarrow> None)
        else None)\<rparr>"

subsection \<open>Specification: draining a byte string\<close>

text \<open>
  \<open>drain p bs\<close>: with a chunk of \<open>p\<close> bytes announced (0: none), the chunks that \<open>bs\<close> completes, and
  the announced length and bytes that are left, or \<open>None\<close> once a header exceeds the limit.
\<close>

definition cons_chunk :: "'a \<Rightarrow> 'a list \<times> 'b \<Rightarrow> 'a list \<times> 'b" where
  "cons_chunk f r = (f # fst r, snd r)"

function drain :: "nat \<Rightarrow> u8 list \<Rightarrow> u8 list list \<times> (nat \<times> u8 list) option" where
  "drain p bs =
     (if p = 0 then
        if length bs < 4 then ([], Some (0, bs))
        else if kChunkLimit < unat (le32 (take 4 bs)) then ([], None)
        else if length bs - 4 < unat (le32 (take 4 bs))
          then ([], Some (unat (le32 (take 4 bs)), drop 4 bs))
        else cons_chunk (take (unat (le32 (take 4 bs))) (drop 4 bs))
               (drain 0 (drop (4 + unat (le32 (take 4 bs))) bs))
      else if length bs < p then ([], Some (p, bs))
      else cons_chunk (take p bs) (drain 0 (drop p bs)))"
  by pat_completeness auto
termination
  by (relation "measure (\<lambda>(p, bs). length bs)") auto

declare drain.simps [simp del]

definition frame :: "u8 list \<Rightarrow> u8 list" where
  \<comment> \<open>a chunk on the wire\<close>
  "frame bs = ui32_bytes (word_of_nat (length bs)) @ bs"

subsection \<open>The loop implements the specification\<close>

definition deliver :: "u8 list list \<Rightarrow> ctx_call list" where
  "deliver fs = map (\<lambda>f. FireInbound (InboundBytes (bb_of f))) fs"

definition limit_failure :: "'a option \<Rightarrow> ctx_call list" where
  "limit_failure st = (if st = None then [Failure (- EMSGSIZE)] else [])"

definition chunker_abs :: "chunker \<Rightarrow> nat \<times> u8 list" where
  "chunker_abs c = (unat (ck_pending c), bb_contents (ck_in c))"

definition chunker_wf :: "chunker \<Rightarrow> bool" where
  "chunker_wf c \<longleftrightarrow> bb_wf (ck_in c)"

lemma chunk_header_wf:
  assumes "bb_wf (ck_in c)"
  shows "chunk_header c = Some
    (if ck_pending c \<noteq> 0 then HdrReady c
     else if length (bb_contents (ck_in c)) < 4 then HdrMore c
     else if kChunkLimit < unat (le32 (take 4 (bb_contents (ck_in c))))
       then HdrTooBig (c\<lparr>ck_in := bb_empty, ck_pending := 0\<rparr>)
     else HdrReady (c\<lparr>ck_in := snd (bb_advance (ck_in c) 4),
                     ck_pending := le32 (take 4 (bb_contents (ck_in c)))\<rparr>))"
  using assms by (simp add: chunk_header_def readUI32_wf)

lemma chunk_loop_body:
  assumes h: "chunk_header c = Some (HdrReady c1)" and wf: "bb_wf (ck_in c1)"
  shows "length (bb_contents (ck_in c1)) < unat (ck_pending c1) \<Longrightarrow>
      chunk_loop (\<lambda>_. True) c calls = Some (c1, calls)"
    and "unat (ck_pending c1) \<le> length (bb_contents (ck_in c1)) \<Longrightarrow>
      \<exists>in1. chunk_loop (\<lambda>_. True) c calls =
          chunk_loop (\<lambda>_. True) (c1\<lparr>ck_in := in1, ck_pending := 0\<rparr>)
            (calls @ deliver [take (unat (ck_pending c1)) (bb_contents (ck_in c1))])
        \<and> bb_wf in1 \<and> bb_contents in1 = drop (unat (ck_pending c1)) (bb_contents (ck_in c1))
        \<and> bb_w in1 \<le> bb_w (ck_in c1)"
proof -
  assume "length (bb_contents (ck_in c1)) < unat (ck_pending c1)"
  then show "chunk_loop (\<lambda>_. True) c calls = Some (c1, calls)"
    using h wf by (subst chunk_loop.simps) (simp add: readableBytes_wf)
next
  assume le: "unat (ck_pending c1) \<le> length (bb_contents (ck_in c1))"
  show "\<exists>in1. chunk_loop (\<lambda>_. True) c calls =
          chunk_loop (\<lambda>_. True) (c1\<lparr>ck_in := in1, ck_pending := 0\<rparr>)
            (calls @ deliver [take (unat (ck_pending c1)) (bb_contents (ck_in c1))])
        \<and> bb_wf in1 \<and> bb_contents in1 = drop (unat (ck_pending c1)) (bb_contents (ck_in c1))
        \<and> bb_w in1 \<le> bb_w (ck_in c1)"
  proof (cases "ck_pending c1 = 0")
    case True
    with h wf le show ?thesis
      by (intro exI [of _ "ck_in c1"], subst chunk_loop.simps)
        (auto simp: readableBytes_wf deliver_def)
  next
    case False
    then have pos: "0 < ck_pending c1" "0 < unat (ck_pending c1)"
      by (simp_all add: word_neq_0_conv unat_gt_0)
    with h wf le bb_read_of [OF wf pos(2) le]
      bb_advance_wf [OF wf, of "unat (ck_pending c1)"]
    show ?thesis
      by (subst chunk_loop.simps) (auto simp: readableBytes_wf deliver_def)
  qed
qed

lemma chunk_loop_drain:
  assumes "bb_wf (ck_in c)" "drain (unat (ck_pending c)) (bb_contents (ck_in c)) = (fs, st)"
  shows "\<exists>c1. chunk_loop (\<lambda>_. True) c calls = Some (c1, calls @ deliver fs @ limit_failure st)
    \<and> bb_wf (ck_in c1) \<and> bb_w (ck_in c1) \<le> bb_w (ck_in c)
    \<and> chunker_abs c1 = (case st of None \<Rightarrow> (0, []) | Some x \<Rightarrow> x)"
  using assms
proof (induction "length (bb_contents (ck_in c))" arbitrary: c calls fs st rule: less_induct)
  case less
  let ?bs = "bb_contents (ck_in c)"
  note wf = less.prems(1) and dr = less.prems(2) and hd = chunk_header_wf [OF less.prems(1)]
  have rec: "\<exists>c2. chunk_loop (\<lambda>_. True) c calls = Some (c2, calls @ deliver fs @ limit_failure st)
      \<and> bb_wf (ck_in c2) \<and> bb_w (ck_in c2) \<le> bb_w (ck_in c)
      \<and> chunker_abs c2 = (case st of None \<Rightarrow> (0, []) | Some x \<Rightarrow> x)"
    if ready: "chunk_header c = Some (HdrReady c1)" and wf1: "bb_wf (ck_in c1)"
      and w1: "bb_w (ck_in c1) \<le> bb_w (ck_in c)"
      and p: "unat (ck_pending c1) \<le> length (bb_contents (ck_in c1))"
      and dec: "length (bb_contents (ck_in c1)) - unat (ck_pending c1) < length ?bs"
      and eq: "(fs, st) = cons_chunk (take (unat (ck_pending c1)) (bb_contents (ck_in c1)))
        (drain 0 (drop (unat (ck_pending c1)) (bb_contents (ck_in c1))))" for c1
  proof -
    obtain in1 where in1: "chunk_loop (\<lambda>_. True) c calls =
          chunk_loop (\<lambda>_. True) (c1\<lparr>ck_in := in1, ck_pending := 0\<rparr>)
            (calls @ deliver [take (unat (ck_pending c1)) (bb_contents (ck_in c1))])"
        "bb_wf in1" "bb_contents in1 = drop (unat (ck_pending c1)) (bb_contents (ck_in c1))"
        "bb_w in1 \<le> bb_w (ck_in c1)"
      using chunk_loop_body(2) [OF ready wf1 p] by blast
    obtain fs' st' where d: "drain 0 (bb_contents in1) = (fs', st')" by fastforce
    with eq in1(3) have fs: "fs = take (unat (ck_pending c1)) (bb_contents (ck_in c1)) # fs'"
        "st = st'" by (auto simp: cons_chunk_def)
    have "length (bb_contents (ck_in (c1\<lparr>ck_in := in1, ck_pending := 0\<rparr>))) < length ?bs"
      using dec in1(3) by simp
    from less.hyps [OF this, of fs' st'
        "calls @ deliver [take (unat (ck_pending c1)) (bb_contents (ck_in c1))]"] in1(2) d
    obtain c2 where c2: "chunk_loop (\<lambda>_. True) c calls = Some (c2, (calls @ deliver
          [take (unat (ck_pending c1)) (bb_contents (ck_in c1))]) @ deliver fs' @ limit_failure st')"
        "bb_wf (ck_in c2)" "bb_w (ck_in c2) \<le> bb_w in1"
        "chunker_abs c2 = (case st' of None \<Rightarrow> (0, []) | Some x \<Rightarrow> x)"
      by (auto simp: in1(1))
    moreover have "bb_w (ck_in c2) \<le> bb_w (ck_in c)" using c2(3) in1(4) w1 by linarith
    ultimately show ?thesis by (intro exI [of _ c2]) (simp add: fs deliver_def)
  qed
  show ?case
  proof (cases "ck_pending c = 0")
    case False
    then have pos: "0 < unat (ck_pending c)" by (simp add: unat_gt_0)
    have ready: "chunk_header c = Some (HdrReady c)" using False hd by simp
    show ?thesis
    proof (cases "length ?bs < unat (ck_pending c)")
      case True
      with dr pos have "fs = []" "st = Some (unat (ck_pending c), ?bs)"
        by (auto simp: drain.simps [of "unat (ck_pending c)"])
      with chunk_loop_body(1) [OF ready wf True] wf show ?thesis
        by (simp add: deliver_def limit_failure_def chunker_abs_def)
    next
      case le: False
      show ?thesis
        by (rule rec [OF ready wf]) (use le pos dr in
          \<open>auto simp: drain.simps [of "unat (ck_pending c)"]\<close>)
    qed
  next
    case zero: True
    let ?v = "le32 (take 4 ?bs)"
    consider "length ?bs < 4" | "4 \<le> length ?bs" "kChunkLimit < unat ?v"
      | "4 \<le> length ?bs" "unat ?v \<le> kChunkLimit" "length ?bs - 4 < unat ?v"
      | "4 \<le> length ?bs" "unat ?v \<le> kChunkLimit" "unat ?v \<le> length ?bs - 4"
      by linarith
    then show ?thesis
    proof cases
      case 1
      then have "chunk_header c = Some (HdrMore c)" using hd zero by simp
      then have "chunk_loop (\<lambda>_. True) c calls = Some (c, calls)"
        by (subst chunk_loop.simps) simp
      with 1 dr zero wf show ?thesis
        by (auto simp: drain.simps [of 0] deliver_def limit_failure_def chunker_abs_def)
    next
      case 2
      then have "chunk_header c = Some (HdrTooBig (c\<lparr>ck_in := bb_empty, ck_pending := 0\<rparr>))"
        using hd zero by simp
      then have "chunk_loop (\<lambda>_. True) c calls =
          Some (c\<lparr>ck_in := bb_empty, ck_pending := 0\<rparr>, calls @ [Failure (- EMSGSIZE)])"
        by (subst chunk_loop.simps) simp
      with 2 dr zero show ?thesis
        by (auto simp: drain.simps [of 0] deliver_def limit_failure_def chunker_abs_def)
    next
      case 3
      let ?c1 = "c\<lparr>ck_in := snd (bb_advance (ck_in c) 4), ck_pending := ?v\<rparr>"
      have ready: "chunk_header c = Some (HdrReady ?c1)" using 3 hd zero by simp
      from chunk_loop_body(1) [OF ready] 3 dr zero bb_advance_wf [OF wf, of 4] show ?thesis
        by (auto simp: drain.simps [of 0] deliver_def limit_failure_def chunker_abs_def)
    next
      case 4
      let ?c1 = "c\<lparr>ck_in := snd (bb_advance (ck_in c) 4), ck_pending := ?v\<rparr>"
      have ready: "chunk_header c = Some (HdrReady ?c1)" using 4 hd zero by simp
      show ?thesis
        by (rule rec [OF ready]) (use 4 dr zero bb_advance_wf [OF wf, of 4] in
          \<open>auto simp: drain.simps [of 0] add.commute\<close>)
    qed
  qed
qed

lemma chunker_onInbound_drain:
  assumes "chunker_wf c" "bb_wf buf"
    and "bb_w (ck_in c) + length (bb_contents buf) \<le> vec_max"
    and "drain (unat (ck_pending c)) (bb_contents (ck_in c) @ bb_contents buf) = (fs, st)"
  shows "\<exists>c1. chunker_onInbound (\<lambda>_. True) c buf = Some (c1, deliver fs @ limit_failure st)
    \<and> chunker_wf c1 \<and> bb_w (ck_in c1) \<le> bb_w (ck_in c) + length (bb_contents buf)
    \<and> chunker_abs c1 = (case st of None \<Rightarrow> (0, []) | Some x \<Rightarrow> x)"
proof -
  have n: "readableBytes buf = length (bb_contents buf)" using assms(2) by (rule readableBytes_wf)
  obtain in1 buf1 where w: "bb_write_from (\<lambda>_. True) (ck_in c) buf (readableBytes buf) =
        Some (in1, buf1)" "bb_wf in1" "bb_contents in1 = bb_contents (ck_in c) @ bb_contents buf"
      "bb_w in1 = bb_w (ck_in c) + length (bb_contents buf)"
    using bb_write_from_wf [of "ck_in c" buf "\<lambda>_. True" "readableBytes buf"] assms(1-3)
    by (auto simp: n chunker_wf_def)
  from w chunk_loop_drain [of "c\<lparr>ck_in := in1\<rparr>" fs st "[]"] assms(4) show ?thesis
    by (auto simp: chunker_onInbound_def chunker_wf_def)
qed

subsection \<open>Properties of the specification\<close>

lemma cons_chunk_simps [simp]:
  "fst (cons_chunk f r) = f # fst r" "snd (cons_chunk f r) = snd r"
  by (simp_all add: cons_chunk_def)

lemma drain_none: "length bs < 4 \<Longrightarrow> drain 0 bs = ([], Some (0, bs))"
  by (simp add: drain.simps)

lemma drain_big: "4 \<le> length bs \<Longrightarrow> kChunkLimit < unat (le32 (take 4 bs)) \<Longrightarrow> drain 0 bs = ([], None)"
  by (simp add: drain.simps)

lemma drain_wait:
  "4 \<le> length bs \<Longrightarrow> unat (le32 (take 4 bs)) \<le> kChunkLimit \<Longrightarrow>
     length bs < 4 + unat (le32 (take 4 bs)) \<Longrightarrow>
     drain 0 bs = ([], Some (unat (le32 (take 4 bs)), drop 4 bs))"
  using less_diff_conv2 [of 4 "length bs" "unat (le32 (take 4 bs))"]
  by (simp add: drain.simps add.commute)

lemma drain_chunk:
  "4 + unat (le32 (take 4 bs)) \<le> length bs \<Longrightarrow> unat (le32 (take 4 bs)) \<le> kChunkLimit \<Longrightarrow>
     drain 0 bs = cons_chunk (take (unat (le32 (take 4 bs))) (drop 4 bs))
       (drain 0 (drop (4 + unat (le32 (take 4 bs))) bs))"
  using le_diff_conv2 [of 4 "length bs" "unat (le32 (take 4 bs))"]
  by (subst drain.simps) (simp add: add.commute)

lemma drain_pending_wait: "length bs < p \<Longrightarrow> drain p bs = ([], Some (p, bs))"
  by (simp add: drain.simps)

lemma drain_pending_chunk:
  "0 < p \<Longrightarrow> p \<le> length bs \<Longrightarrow> drain p bs = cons_chunk (take p bs) (drain 0 (drop p bs))"
  by (subst drain.simps) simp

lemmas drain_cases = drain_none drain_big drain_wait drain_chunk drain_pending_wait
  drain_pending_chunk

text \<open>The six branches as an induction rule.\<close>

lemma drain_induct [case_names none big wait chunk pending_wait pending_chunk]:
  fixes P :: "nat \<Rightarrow> u8 list \<Rightarrow> bool"
  assumes "\<And>bs. length bs < 4 \<Longrightarrow> P 0 bs"
    and "\<And>bs. 4 \<le> length bs \<Longrightarrow> kChunkLimit < unat (le32 (take 4 bs)) \<Longrightarrow> P 0 bs"
    and "\<And>bs. 4 \<le> length bs \<Longrightarrow> unat (le32 (take 4 bs)) \<le> kChunkLimit \<Longrightarrow>
      length bs < 4 + unat (le32 (take 4 bs)) \<Longrightarrow> P 0 bs"
    and "\<And>bs. 4 + unat (le32 (take 4 bs)) \<le> length bs \<Longrightarrow> unat (le32 (take 4 bs)) \<le> kChunkLimit \<Longrightarrow>
      P 0 (drop (4 + unat (le32 (take 4 bs))) bs) \<Longrightarrow> P 0 bs"
    and "\<And>p bs. length bs < p \<Longrightarrow> P p bs"
    and "\<And>p bs. 0 < p \<Longrightarrow> p \<le> length bs \<Longrightarrow> P 0 (drop p bs) \<Longrightarrow> P p bs"
  shows "P p bs"
proof (induction p bs rule: drain.induct)
  case (1 p bs)
  let ?v = "unat (le32 (take 4 bs))"
  consider "length bs < p" | "0 < p" "p \<le> length bs" | "p = 0" "length bs < 4"
    | "p = 0" "4 \<le> length bs" "kChunkLimit < ?v"
    | "p = 0" "4 \<le> length bs" "?v \<le> kChunkLimit" "length bs < 4 + ?v"
    | "p = 0" "4 + ?v \<le> length bs" "?v \<le> kChunkLimit"
    by linarith
  then show ?case
  proof cases
    case 2
    then have "P 0 (drop p bs)" using "1.IH"(2) by linarith
    with 2 show ?thesis by (rule assms(6))
  next
    case 6
    then have "P 0 (drop (4 + ?v) bs)" using "1.IH"(1) by linarith
    with 6 show ?thesis using assms(4) by blast
  qed (use assms in blast)+
qed

lemma drain_append_None: "snd (drain p bs) = None \<Longrightarrow> drain p (bs @ cs) = drain p bs"
  by (induction p bs rule: drain_induct) (simp_all add: drain_cases)

lemma drain_append:
  "snd (drain p bs) = Some (q, r) \<Longrightarrow>
     drain p (bs @ cs) = (fst (drain p bs) @ fst (drain q (r @ cs)), snd (drain q (r @ cs)))"
proof (induction p bs rule: drain_induct)
  case (wait bs)
  then have qr: "q = unat (le32 (take 4 bs))" "r = drop 4 bs" "0 < q"
    by (auto simp: drain_wait)
  have "drain 0 (bs @ cs) = drain q (r @ cs)"
    using wait qr(3) unfolding qr
    by (cases "length bs + length cs < 4 + unat (le32 (take 4 bs))")
      (simp_all add: drain_cases less_diff_conv2 add.commute)
  with wait qr show ?case by (simp add: drain_wait)
qed (auto simp: drain_cases prod_eq_iff)

lemma unat_frame_len: "length bs \<le> kChunkLimit \<Longrightarrow> unat (word_of_nat (length bs) :: u32) = length bs"
  by (simp add: unat_of_nat kChunkLimit_def)

lemma drain_frame:
  "length f \<le> kChunkLimit \<Longrightarrow> drain 0 (frame f @ cs) = cons_chunk f (drain 0 cs)"
  using drain_chunk [of "frame f @ cs"] by (simp add: frame_def unat_frame_len)

lemma drain_frames:
  "\<forall>f \<in> set fs. length f \<le> kChunkLimit \<Longrightarrow>
     drain 0 (concat (map frame fs) @ cs) = (fs @ fst (drain 0 cs), snd (drain 0 cs))"
  by (induction fs) (simp_all add: drain_frame cons_chunk_def)

lemma drain_Nil [simp]: "drain 0 [] = ([], Some (0, []))"
  by (simp add: drain.simps)

subsection \<open>Outbound framing\<close>

lemma chunker_onOutbound_frame:
  assumes "bb_wf buf" "length (bb_contents buf) \<le> kChunkLimit"
  shows "chunker_onOutbound (\<lambda>_. True) c buf =
    Some (c, [FireOutbound (OutboundBytes (bb_of (frame (bb_contents buf))))])"
proof -
  let ?bs = "bb_contents buf"
  let ?h = "ui32_bytes (word_of_nat (length ?bs))"
  have n: "readableBytes buf = length ?bs" using assms(1) by (rule readableBytes_wf)
  have lim: "length ?bs + 4 \<le> vec_max" using assms(2) by (simp add: kChunkLimit_def vec_max_def)
  then have h: "writeUI32 (\<lambda>_. True) bb_empty (word_of_nat (length ?bs)) = Some (True, bb_of ?h)"
    using bb_write_of [of "[]" ?h] by (simp add: writeUI32_def vec_max_def)
  have "bb_write_from (\<lambda>_. True) (bb_of ?h) buf (length ?bs) =
      Some (bb_of (?h @ ?bs), snd (bb_advance buf (length ?bs)))
      \<or> ?bs = [] \<and> bb_write_from (\<lambda>_. True) (bb_of ?h) buf (length ?bs) = Some (bb_of ?h, buf)"
  proof (cases "?bs = []")
    case True
    then show ?thesis by (simp add: bb_write_from_def n)
  next
    case False
    have "length ?bs + 4 < 2 ^ 64" using lim by (simp add: vec_max_lt)
    with False lim assms(1) show ?thesis
      by (simp add: bb_write_from_def n bb_reserve_def bb_of_def writableBytes_def
          vec_can_grow_def vec_slice_contents blit_def vec_resize_def add.commute Let_def)
  qed
  then show ?thesis
    using assms(2) h by (auto simp: chunker_onOutbound_def n frame_def)
qed

lemma chunker_onOutbound_limit:
  "bb_wf buf \<Longrightarrow> kChunkLimit < length (bb_contents buf) \<Longrightarrow>
     chunker_onOutbound al c buf = Some (c, [Failure (- EMSGSIZE)])"
  by (simp add: chunker_onOutbound_def readableBytes_wf)

subsection \<open>A stream in fragments\<close>

fun chunker_feed :: "alloc \<Rightarrow> chunker \<Rightarrow> bytebuf list \<Rightarrow> (chunker \<times> ctx_call list) option" where
  \<comment> \<open>one \<open>InboundBytes\<close> event after the other\<close>
  "chunker_feed al c [] = Some (c, [])"
| "chunker_feed al c (b # bs) =
     do { (c1, k1) \<leftarrow> chunker_onInbound al c b;
          (c2, k2) \<leftarrow> chunker_feed al c1 bs;
          Some (c2, k1 @ k2) }"

definition stream_of :: "bytebuf list \<Rightarrow> u8 list" where
  "stream_of bufs = concat (map bb_contents bufs)"

lemma stream_of_simps [simp]:
  "stream_of [] = []" "stream_of (b # bufs) = bb_contents b @ stream_of bufs"
  by (simp_all add: stream_of_def)

lemma chunker_feed_drain:
  assumes "chunker_wf c" "list_all bb_wf bufs"
    and "bb_w (ck_in c) + length (stream_of bufs) \<le> vec_max"
    and "drain (unat (ck_pending c)) (bb_contents (ck_in c)) = ([], Some (chunker_abs c))"
    and "drain (unat (ck_pending c)) (bb_contents (ck_in c) @ stream_of bufs) = (fs, Some x)"
  shows "\<exists>c1. chunker_feed (\<lambda>_. True) c bufs = Some (c1, deliver fs)
    \<and> chunker_wf c1 \<and> chunker_abs c1 = x"
  using assms
proof (induction bufs arbitrary: c fs)
  case Nil
  then show ?case by (simp add: deliver_def)
next
  case (Cons b bufs)
  let ?p = "unat (ck_pending c)"
  let ?d = "drain ?p (bb_contents (ck_in c) @ bb_contents b)"
  obtain st where st: "snd ?d = Some st"
    using drain_append_None [of ?p "bb_contents (ck_in c) @ bb_contents b" "stream_of bufs"] Cons.prems(5)
    by (cases "snd ?d") auto
  have lim: "bb_w (ck_in c) + length (bb_contents b) \<le> vec_max" using Cons.prems(3) by simp
  have wfb: "bb_wf b" using Cons.prems(2) by simp
  obtain c1 where c1: "chunker_onInbound (\<lambda>_. True) c b = Some (c1, deliver (fst ?d))"
      "chunker_wf c1" "bb_w (ck_in c1) \<le> bb_w (ck_in c) + length (bb_contents b)"
      "chunker_abs c1 = st"
    using chunker_onInbound_drain [OF Cons.prems(1) wfb lim, of "fst ?d" "Some st"] st
    by (auto simp: limit_failure_def prod_eq_iff)
  then have st': "st = (unat (ck_pending c1), bb_contents (ck_in c1))"
    by (simp add: chunker_abs_def)
  have idle: "drain (unat (ck_pending c1)) (bb_contents (ck_in c1)) = ([], Some (chunker_abs c1))"
    using drain_append [of ?p "bb_contents (ck_in c) @ bb_contents b" _ _ "[]"] st
    by (auto simp: st' chunker_abs_def prod_eq_iff)
  have fs: "fs = fst ?d @ fst (drain (unat (ck_pending c1)) (bb_contents (ck_in c1) @ stream_of bufs))"
      "Some x = snd (drain (unat (ck_pending c1)) (bb_contents (ck_in c1) @ stream_of bufs))"
    using drain_append [of ?p "bb_contents (ck_in c) @ bb_contents b" _ _ "stream_of bufs"] st
      Cons.prems(5) by (auto simp: st')
  have lim1: "bb_w (ck_in c1) + length (stream_of bufs) \<le> vec_max"
    using c1(3) Cons.prems(3) by simp
  have "\<exists>c2. chunker_feed (\<lambda>_. True) c1 bufs = Some (c2, deliver (fst (drain (unat (ck_pending c1))
      (bb_contents (ck_in c1) @ stream_of bufs)))) \<and> chunker_wf c2 \<and> chunker_abs c2 = x"
    using Cons.prems(2) fs(2)
    by (intro Cons.IH [OF c1(2) _ lim1 idle]) (auto simp: prod_eq_iff)
  with c1(1) fs(1) show ?case by (auto simp: deliver_def)
qed

subsection \<open>No undefined behaviour, whatever the heap does\<close>

lemma chunk_loop_safe:
  assumes "chunker_wf c" "list_all (call_ok ev_ok) calls"
    and ev: "\<And>b. bb_wf b \<Longrightarrow> ev_ok (InboundBytes b)"
  shows "\<exists>c1 calls1. chunk_loop al c calls = Some (c1, calls1) \<and> chunker_wf c1
    \<and> list_all (call_ok ev_ok) calls1"
  using assms(1,2)
proof (induction "2 * length (bb_contents (ck_in c)) + (if ck_pending c = 0 then 0 else 1)"
    arbitrary: c calls rule: less_induct)
  case less
  have wf: "bb_wf (ck_in c)" using less.prems(1) by (simp add: chunker_wf_def)
  note adv = bb_advance_wf [OF wf, of 4]
  consider (more) "chunk_header c = Some (HdrMore c)"
    | (big) "chunk_header c = Some (HdrTooBig (c\<lparr>ck_in := bb_empty, ck_pending := 0\<rparr>))"
    | (ready) c1 where "chunk_header c = Some (HdrReady c1)" "bb_wf (ck_in c1)"
        "2 * length (bb_contents (ck_in c1)) <
           2 * length (bb_contents (ck_in c)) + (if ck_pending c = 0 then 0 else 1)"
    using chunk_header_wf [OF wf] adv wf by (fastforce split: if_splits)
  then show ?case
  proof cases
    case more
    with less.prems show ?thesis by (subst chunk_loop.simps) simp
  next
    case big
    with less.prems show ?thesis by (subst chunk_loop.simps) (simp add: chunker_wf_def)
  next
    case (ready c1)
    show ?thesis
    proof (cases "readableBytes (ck_in c1) < unat (ck_pending c1)")
      case True
      with ready less.prems show ?thesis by (subst chunk_loop.simps) (simp add: chunker_wf_def)
    next
      case False
      obtain in1 payload where p: "(if 0 < ck_pending c1
          then map_option snd (bb_read al (ck_in c1) bb_empty (unat (ck_pending c1)))
          else Some (ck_in c1, bb_empty)) = Some (in1, payload)"
          "bb_wf in1" "bb_wf payload" "length (bb_contents in1) \<le> length (bb_contents (ck_in c1))"
        using bb_read_wf [OF bb_wf_empty ready(2), of al "unat (ck_pending c1)"] ready(2)
        by (cases "0 < ck_pending c1") auto
      have "\<exists>c2 calls2. chunk_loop al (c1\<lparr>ck_in := in1, ck_pending := 0\<rparr>)
            (calls @ [FireInbound (InboundBytes payload)]) = Some (c2, calls2)
          \<and> chunker_wf c2 \<and> list_all (call_ok ev_ok) calls2"
        using ready(3) p less.prems ev
        by (intro less.hyps) (auto simp: chunker_wf_def)
      with ready(1) False p(1) show ?thesis by (subst chunk_loop.simps) simp
    qed
  qed
qed

lemma chunker_onInbound_safe:
  assumes "chunker_wf c" "bb_wf buf" and "\<And>b. bb_wf b \<Longrightarrow> ev_ok (InboundBytes b)"
  shows "\<exists>c1 calls. chunker_onInbound al c buf = Some (c1, calls) \<and> chunker_wf c1
    \<and> list_all (call_ok ev_ok) calls"
proof -
  obtain in1 buf1 where w: "bb_write_from al (ck_in c) buf (readableBytes buf) = Some (in1, buf1)"
      "bb_wf in1"
    using bb_write_from_wf [of "ck_in c" buf al "readableBytes buf"] assms(1,2)
    by (auto simp: chunker_wf_def)
  then show ?thesis
    using chunk_loop_safe [of "c\<lparr>ck_in := in1\<rparr>" ev_ok "[]" al] assms(3)
    by (auto simp: chunker_onInbound_def chunker_wf_def)
qed

lemma chunker_onOutbound_safe:
  assumes "chunker_wf c" "bb_wf buf" and "\<And>b. bb_wf b \<Longrightarrow> ev_ok (OutboundBytes b)"
  shows "\<exists>calls. chunker_onOutbound al c buf = Some (c, calls)
    \<and> list_all (call_ok ev_ok) calls \<and> list_all call_down calls"
proof (cases "kChunkLimit < readableBytes buf")
  case True
  then show ?thesis by (simp add: chunker_onOutbound_def)
next
  case False
  obtain ok out where h: "writeUI32 al bb_empty (word_of_nat (readableBytes buf)) = Some (ok, out)"
      "bb_wf out"
    using writeUI32_wf [of bb_empty al "word_of_nat (readableBytes buf)"] by auto
  obtain out1 buf1 where w: "bb_write_from al out buf (readableBytes buf) = Some (out1, buf1)"
      "bb_wf out1"
    using bb_write_from_wf [OF h(2) assms(2), of al "readableBytes buf"] by auto
  from False h(1) w assms(3) show ?thesis by (cases ok) (simp_all add: chunker_onOutbound_def)
qed

subsection \<open>The chunker's guarantees\<close>

lemma chunker_init_simps [simp]:
  "chunker_wf chunker_init" "ck_in chunker_init = bb_empty" "ck_pending chunker_init = 0"
  by (simp_all add: chunker_init_def chunker_wf_def)

lemma chunker_feed_init:
  assumes "list_all bb_wf bufs" "length (stream_of bufs) \<le> vec_max"
    and "drain 0 (stream_of bufs) = (fs, Some x)"
  shows "\<exists>c1. chunker_feed (\<lambda>_. True) chunker_init bufs = Some (c1, deliver fs)
    \<and> chunker_wf c1 \<and> chunker_abs c1 = x"
  using chunker_feed_drain [of chunker_init bufs fs x] assms by (simp add: chunker_abs_def)



text \<open>C15: Of a stream that is any prefix of framed messages, in any fragmentation, the chunker
  delivers a prefix of the messages: never a part of one, never one twice or out of order.\<close>

theorem chunker_delivers_prefix:
  assumes "list_all bb_wf bufs" "\<forall>m \<in> set ms. length m \<le> kChunkLimit"
    and "stream_of bufs @ rest = concat (map frame ms)" "length (stream_of bufs) \<le> vec_max"
  shows "\<exists>c k. chunker_feed (\<lambda>_. True) chunker_init bufs = Some (c, deliver (take k ms))"
proof -
  let ?d = "drain 0 (stream_of bufs)"
  have all: "drain 0 (stream_of bufs @ rest) = (ms, Some (0, []))"
    using drain_frames [OF assms(2), of "[]"] assms(3) by simp
  then obtain x where x: "snd ?d = Some x"
    using drain_append_None [of 0 "stream_of bufs" rest] by (cases "snd ?d") auto
  then have "ms = fst ?d @ fst (drain (fst x) (snd x @ rest))"
    using drain_append [of 0 "stream_of bufs" "fst x" "snd x" rest] all by simp
  then have "fst ?d = take (length (fst ?d)) ms" by (metis append_eq_conv_conj)
  with chunker_feed_init [OF assms(1,4), of "fst ?d" x] x show ?thesis
    by (metis prod.collapse)
qed

theorem chunker_delivers_prefix_witness:
  "\<exists>c k. chunker_feed (\<lambda>_. True) chunker_init (map bb_of [take 7 (frame [1, 2] @ frame [3])]) =
     Some (c, deliver (take k [[1, 2], [3]]))"
  by (rule chunker_delivers_prefix [where rest = "drop 7 (frame [1, 2] @ frame [3])"])
    (simp_all add: vec_max_def kChunkLimit_def frame_def ui32_bytes_def)

text \<open>A header above the limit makes the chunker report EMSGSIZE once, after the chunks that
  precede it, deliver nothing that follows it, and forget the rest of its input.\<close>

theorem chunker_rejects_oversized:
  assumes "chunker_wf c" "bb_wf buf" "bb_w (ck_in c) + length (bb_contents buf) \<le> vec_max"
    and "chunker_abs c = (0, [])" "\<forall>m \<in> set ms. length m \<le> kChunkLimit"
    and "bb_contents buf = concat (map frame ms) @ ui32_bytes v @ rest" "kChunkLimit < unat v"
  shows "\<exists>c1. chunker_onInbound (\<lambda>_. True) c buf = Some (c1, deliver ms @ [Failure (- EMSGSIZE)])
    \<and> chunker_abs c1 = (0, [])"
proof -
  have "drain 0 (ui32_bytes v @ rest) = ([], None)"
    using assms(7) by (intro drain_big) simp_all
  then have "drain 0 (bb_contents buf) = (ms, None)"
    using drain_frames [OF assms(5), of "ui32_bytes v @ rest"] assms(6) by simp
  with chunker_onInbound_drain [OF assms(1-3), of ms None] assms(4) show ?thesis
    by (auto simp: chunker_abs_def limit_failure_def)
qed

theorem chunker_rejects_oversized_witness:
  "\<exists>c1. chunker_onInbound (\<lambda>_. True) chunker_init (bb_of (frame [7] @ ui32_bytes 1048577 @ [1])) =
     Some (c1, deliver [[7]] @ [Failure (- EMSGSIZE)]) \<and> chunker_abs c1 = (0, [])"
  by (rule chunker_rejects_oversized [where v = 1048577 and rest = "[1]"])
    (simp_all add: chunker_abs_def vec_max_def kChunkLimit_def frame_def)

text \<open>C33: The chunker's inbound loop always ends, and neither handler has undefined behaviour,
  whatever bytes arrive and whichever reservations of its buffers fail; its buffer stays well formed.\<close>

theorem chunker_total:
  assumes "chunker_wf c" "bb_wf buf"
  shows "(\<exists>c1 calls. chunker_onInbound al c buf = Some (c1, calls) \<and> chunker_wf c1)
    \<and> (\<exists>calls. chunker_onOutbound al c buf = Some (c, calls))"
  using chunker_onInbound_safe [OF assms, of "\<lambda>_. True" al]
    chunker_onOutbound_safe [OF assms, of "\<lambda>_. True" al] by auto

theorem chunker_total_witness:
  "(\<exists>c1 calls. chunker_onInbound (\<lambda>n. n < 5) chunker_init (bb_of [255, 1, 2, 3, 4, 5]) = Some (c1, calls)
      \<and> chunker_wf c1)
    \<and> (\<exists>calls. chunker_onOutbound (\<lambda>n. n < 5) chunker_init (bb_of [255, 1, 2, 3, 4, 5]) =
      Some (chunker_init, calls))"
  by (rule chunker_total) (simp_all add: vec_max_def)

end
