(* ===== verification/Pipeline.thy ===== *)
theory Pipeline
  imports Chunker
begin

section \<open>Conveyors with a chunker\<close>

text \<open>
  The chunker meets the stage contract of the conveyor, so pipelines of it return. A pipeline with
  a chunker between stages that leave byte events alone turns messages into frames on the way out
  (towards stage 0, the transport's side) and any fragmentation of those frames back into the same
  messages on the way in.
\<close>

fun wf_event :: "event \<Rightarrow> bool" where
  "wf_event (InboundBytes b) \<longleftrightarrow> bb_wf b"
| "wf_event (OutboundBytes b) \<longleftrightarrow> bb_wf b"
| "wf_event _ \<longleftrightarrow> True"

definition passive_stage :: "'s \<Rightarrow> 's stage" where
  \<comment> \<open>a stage class without any handler\<close>
  "passive_stage s = \<lparr>stage_impl = s, on_added = None, on_removed = None,
     on_inbound = (\<lambda>_. None), on_outbound = (\<lambda>_. None)\<rparr>"

definition library_stage :: "alloc \<Rightarrow> chunker stage \<Rightarrow> bool" where
  "library_stage al st \<longleftrightarrow>
     (\<exists>c. st = chunker_stage al c \<and> chunker_wf c) \<or> (\<exists>c. st = passive_stage c)"

lemma chunker_stage_simps [simp]:
  "stage_impl (chunker_stage al c) = c"
  "(chunker_stage al c)\<lparr>stage_impl := c'\<rparr> = chunker_stage al c'"
  by (simp_all add: chunker_stage_def)

lemma chunker_stage_inbound:
  "adapter_inbound i (chunker_stage al c) e =
     (case e of InboundBytes b \<Rightarrow> chunker_onInbound al c b | _ \<Rightarrow> Some (c, [FireInbound e]))"
  by (cases e) (simp_all add: adapter_inbound_def chunker_stage_def)

lemma chunker_stage_outbound:
  "adapter_outbound i (chunker_stage al c) e =
     (case e of OutboundBytes b \<Rightarrow> chunker_onOutbound al c b | _ \<Rightarrow> Some (c, [FireOutbound e]))"
  by (cases e) (simp_all add: adapter_outbound_def chunker_stage_def)

lemma library_stage_chunker: "chunker_wf c \<Longrightarrow> library_stage al (chunker_stage al c)"
  by (auto simp: library_stage_def)

lemma library_stage_passive: "library_stage al (passive_stage c)"
  by (auto simp: library_stage_def)

lemma passive_stage_adapter:
  "adapter_inbound i (passive_stage c) e = Some (c, [FireInbound e])"
  "adapter_outbound i (passive_stage c) e = Some (c, [FireOutbound e])"
  "(passive_stage c)\<lparr>stage_impl := c'\<rparr> = passive_stage c'"
  by (simp_all add: passive_stage_def adapter_inbound_def adapter_outbound_def)

lemma chunker_stage_inbound_good:
  assumes "chunker_wf c" "wf_event e"
  shows "\<exists>c1 calls. adapter_inbound i (chunker_stage al c) e = Some (c1, calls)
    \<and> library_stage al (chunker_stage al c1) \<and> list_all (call_ok wf_event) calls"
  using assms chunker_onInbound_safe [of c _ wf_event al]
  by (cases e) (fastforce simp: chunker_stage_inbound intro: library_stage_chunker)+

lemma chunker_stage_outbound_good:
  assumes "chunker_wf c" "wf_event e"
  shows "\<exists>c1 calls. adapter_outbound i (chunker_stage al c) e = Some (c1, calls)
    \<and> library_stage al (chunker_stage al c1) \<and> list_all (call_ok wf_event) calls
    \<and> list_all call_down calls"
  using assms chunker_onOutbound_safe [of c _ wf_event al]
  by (cases e) (fastforce simp: chunker_stage_outbound intro: library_stage_chunker)+

interpretation lib: stage_contract "library_stage al" wf_event for al
proof
  fix st i e
  assume g: "library_stage al st" and e: "wf_event e"
  show "\<exists>s calls. adapter_inbound i st e = Some (s, calls) \<and> library_stage al (st\<lparr>stage_impl := s\<rparr>)
      \<and> list_all (call_ok wf_event) calls"
    using g e chunker_stage_inbound_good [of _ e i al]
    by (auto simp: library_stage_def passive_stage_adapter)
  show "\<exists>s calls. adapter_outbound i st e = Some (s, calls) \<and> library_stage al (st\<lparr>stage_impl := s\<rparr>)
      \<and> list_all (call_ok wf_event) calls \<and> list_all call_down calls"
    using g e chunker_stage_outbound_good [of _ e i al]
    by (auto simp: library_stage_def passive_stage_adapter)
qed

subsection \<open>Messages and frames\<close>

fun fire_all ::
  "('s conveyor \<Rightarrow> event \<Rightarrow> (task list \<times> 's conveyor) option) \<Rightarrow> 's conveyor \<Rightarrow> event list \<Rightarrow>
     (task list \<times> 's conveyor) option" where
  "fire_all fire cv [] = Some ([], cv)"
| "fire_all fire cv (e # es) =
     do { (d1, cv1) \<leftarrow> fire cv e; (d2, cv2) \<leftarrow> fire_all fire cv1 es; Some (d1 @ d2, cv2) }"

definition framed_pipeline ::
  "chunker stage list \<Rightarrow> chunker stage list \<Rightarrow> chunker \<Rightarrow> chunker conveyor" where
  "framed_pipeline pre post c =
     \<lparr>cv_stages = pre @ chunker_stage (\<lambda>_. True) c # post, cv_shutdowns = []\<rparr>"

definition byte_passive :: "'s stage \<Rightarrow> bool" where
  "byte_passive st \<longleftrightarrow> on_inbound st KInboundBytes = None \<and> on_outbound st KOutboundBytes = None"

fun bytes_in_at :: "nat \<Rightarrow> task list \<Rightarrow> u8 list list" where
  \<comment> \<open>the byte strings that reach stage \<open>k\<close> inbound\<close>
  "bytes_in_at k [] = []"
| "bytes_in_at k (RunIn i (InboundBytes b) # ts) =
     (if i = k then bb_contents b # bytes_in_at k ts else bytes_in_at k ts)"
| "bytes_in_at k (t # ts) = bytes_in_at k ts"

fun bytes_out_at :: "nat \<Rightarrow> task list \<Rightarrow> u8 list list" where
  "bytes_out_at k [] = []"
| "bytes_out_at k (RunOut i (OutboundBytes b) # ts) =
     (if i = k then bb_contents b # bytes_out_at k ts else bytes_out_at k ts)"
| "bytes_out_at k (t # ts) = bytes_out_at k ts"

lemma bytes_in_at_append [simp]: "bytes_in_at k (ts @ us) = bytes_in_at k ts @ bytes_in_at k us"
  by (induction k ts rule: bytes_in_at.induct) simp_all

lemma bytes_out_at_append [simp]: "bytes_out_at k (ts @ us) = bytes_out_at k ts @ bytes_out_at k us"
  by (induction k ts rule: bytes_out_at.induct) simp_all

lemma bytes_in_at_walk:
  "bytes_in_at k (map (\<lambda>j. RunIn j (InboundBytes b)) js) = replicate (count_list js k) (bb_contents b)"
  by (induction js) auto

lemma bytes_out_at_walk:
  "bytes_out_at k (map (\<lambda>j. RunOut j (OutboundBytes b)) js) = replicate (count_list js k) (bb_contents b)"
  by (induction js) auto

lemma count_list_upt: "count_list [i..<j] k = (if i \<le> k \<and> k < j then 1 else 0)"
  by (induction j) auto

lemma framed_pipeline_simps:
  "cv_stages (framed_pipeline pre post c) = pre @ chunker_stage (\<lambda>_. True) c # post"
  "set_impl (framed_pipeline pre post c) (length pre) c' = framed_pipeline pre post c'"
  by (simp_all add: framed_pipeline_def set_impl_def)

lemma framed_pipeline_passive:
  assumes "list_all byte_passive pre" "list_all byte_passive post"
    and "j < length pre \<or> length pre < j \<and> j < Suc (length pre + length post)"
  shows "byte_passive (cv_stages (framed_pipeline pre post c) ! j)"
proof (cases "j < length pre")
  case True
  with assms(1) show ?thesis by (simp add: framed_pipeline_simps nth_append list_all_length)
next
  case False
  with assms(2,3) show ?thesis
    by (auto simp: framed_pipeline_simps nth_append nth_Cons list_all_length split: nat.split)
qed

lemma pipeline_deliver:
  assumes "list_all byte_passive pre" "list_all byte_passive post"
  shows "\<exists>d. conv_exec (framed_pipeline pre post c) (ctx_tasks (length pre) (deliver fs)) =
      Some (d, framed_pipeline pre post c) \<and> bytes_in_at (Suc (length pre)) d = fs"
proof (induction fs)
  case Nil
  then show ?case by (simp add: deliver_def)
next
  case (Cons f fs)
  let ?cv = "framed_pipeline pre post c"
  let ?e = "InboundBytes (bb_of f)"
  have skip: "conv_exec ?cv (RunIn (Suc (length pre)) ?e # ts) =
      map_option (\<lambda>(d, cv2). (map (\<lambda>j. RunIn j ?e)
        [Suc (length pre)..<Suc (length (cv_stages ?cv))] @ d, cv2)) (conv_exec ?cv ts)" for ts
    using framed_pipeline_passive [OF assms] 
    by (intro conv_exec_in_end) (auto simp: framed_pipeline_simps byte_passive_def)
  from Cons obtain d where d: "conv_exec ?cv (ctx_tasks (length pre) (deliver fs)) = Some (d, ?cv)"
      "bytes_in_at (Suc (length pre)) d = fs" by blast
  have "ctx_tasks (length pre) (deliver (f # fs)) =
      RunIn (Suc (length pre)) ?e # ctx_tasks (length pre) (deliver fs)"
    by (simp add: deliver_def)
  then show ?case
    using d by (auto simp: skip bytes_in_at_walk count_list_upt framed_pipeline_simps
        simp del: upt_Suc)
qed

lemma pipeline_in:
  assumes "list_all byte_passive pre" "list_all byte_passive post"
    and "chunker_onInbound (\<lambda>_. True) c b = Some (c1, deliver fs)"
  shows "\<exists>d. conv_fireInbound (framed_pipeline pre post c) (InboundBytes b) =
      Some (d, framed_pipeline pre post c1) \<and> bytes_in_at (Suc (length pre)) d = fs"
proof -
  let ?cv = "framed_pipeline pre post c"
  let ?e = "InboundBytes b"
  obtain d where d: "conv_exec (framed_pipeline pre post c1) (ctx_tasks (length pre) (deliver fs)) =
      Some (d, framed_pipeline pre post c1)" "bytes_in_at (Suc (length pre)) d = fs"
    using pipeline_deliver [OF assms(1,2)] by blast
  have "conv_step ?cv (RunIn (length pre) ?e) =
      Some (framed_pipeline pre post c1, ctx_tasks (length pre) (deliver fs))"
    using assms(3) by (simp add: framed_pipeline_simps chunker_stage_inbound)
  from conv_exec_step [OF this, of "[]"] d(1)
  have "conv_exec ?cv [RunIn (length pre) ?e] =
      Some (RunIn (length pre) ?e # d, framed_pipeline pre post c1)" by simp
  moreover have "conv_exec ?cv [RunIn 0 ?e] = map_option (\<lambda>(d, cv2).
      (map (\<lambda>j. RunIn j ?e) [0..<length pre] @ d, cv2)) (conv_exec ?cv [RunIn (length pre) ?e])"
    using framed_pipeline_passive [OF assms(1,2)]
    by (intro conv_exec_in_skip) (auto simp: framed_pipeline_simps byte_passive_def)
  ultimately show ?thesis
    using d(2) by (simp add: conv_fireInbound_def framed_pipeline_simps bytes_in_at_walk
        count_list_upt)
qed

lemma pipeline_in_all:
  assumes "list_all byte_passive pre" "list_all byte_passive post"
    and "chunker_feed (\<lambda>_. True) c bufs = Some (c1, deliver fs)"
  shows "\<exists>d. fire_all conv_fireInbound (framed_pipeline pre post c) (map InboundBytes bufs) =
      Some (d, framed_pipeline pre post c1) \<and> bytes_in_at (Suc (length pre)) d = fs"
  using assms(3)
proof (induction bufs arbitrary: c fs)
  case Nil
  then show ?case by (simp add: deliver_def)
next
  case (Cons b bufs)
  from Cons.prems obtain c2 k1 k2 where 1: "chunker_onInbound (\<lambda>_. True) c b = Some (c2, k1)"
      "chunker_feed (\<lambda>_. True) c2 bufs = Some (c1, k2)" "deliver fs = k1 @ k2"
    by (auto split: Option.bind_splits prod.splits)
  from 1(3) obtain f1 f2 where f: "k1 = deliver f1" "k2 = deliver f2" "fs = f1 @ f2"
    by (auto simp: deliver_def map_eq_append_conv)
  obtain d1 where d1: "conv_fireInbound (framed_pipeline pre post c) (InboundBytes b) =
      Some (d1, framed_pipeline pre post c2)" "bytes_in_at (Suc (length pre)) d1 = f1"
    using pipeline_in [OF assms(1,2)] 1(1) f(1) by blast
  obtain d2 where d2: "fire_all conv_fireInbound (framed_pipeline pre post c2)
        (map InboundBytes bufs) = Some (d2, framed_pipeline pre post c1)"
      "bytes_in_at (Suc (length pre)) d2 = f2"
    using Cons.IH 1(2) f(2) by blast
  from d1 d2 f(3) show ?case by simp
qed

lemma pipeline_out:
  assumes "list_all byte_passive pre" "list_all byte_passive post" "pre \<noteq> []"
    and "chunker_onOutbound (\<lambda>_. True) c b = Some (c, [FireOutbound (OutboundBytes (bb_of f))])"
  shows "\<exists>d. conv_fireOutbound (framed_pipeline pre post c) (OutboundBytes b) =
      Some (d, framed_pipeline pre post c) \<and> bytes_out_at 0 d = [f]"
proof -
  let ?cv = "framed_pipeline pre post c"
  let ?e = "OutboundBytes b" and ?f = "OutboundBytes (bb_of f)"
  let ?n = "length pre" and ?l = "length pre + length post"
  have n: "0 < ?n" "Suc (?n - 1) = ?n" using assms(3) by simp_all
  have "on_outbound (cv_stages ?cv ! j) KOutboundBytes = None" if "j \<le> ?n - 1" for j
  proof -
    have "j < ?n" using that n by linarith
    then show ?thesis
      using framed_pipeline_passive [OF assms(1,2), of j c] by (simp add: byte_passive_def)
  qed
  then have "conv_exec ?cv [RunOut (?n - 1) ?f] =
      Some (map (\<lambda>j. RunOut j ?f) (rev [0..<Suc (?n - 1)]), ?cv)"
    using n by (intro conv_exec_out_skip) (auto simp: framed_pipeline_simps)
  moreover have "conv_step ?cv (RunOut ?n ?e) = Some (?cv, [RunOut (?n - 1) ?f])"
    using assms(4) n by (simp add: framed_pipeline_simps chunker_stage_outbound)
  ultimately have "conv_exec ?cv [RunOut ?n ?e] =
      Some (RunOut ?n ?e # map (\<lambda>j. RunOut j ?f) (rev [0..<Suc (?n - 1)]), ?cv)"
    by (simp add: conv_exec_step del: upt_Suc conv_step.simps)
  moreover have "conv_exec ?cv [RunOut ?l ?e] = map_option (\<lambda>(d, cv2).
      (map (\<lambda>j. RunOut j ?e) (rev [Suc ?n..<Suc ?l]) @ d, cv2)) (conv_exec ?cv [RunOut ?n ?e])"
    using framed_pipeline_passive [OF assms(1,2)]
    by (intro conv_exec_out_down) (auto simp: framed_pipeline_simps byte_passive_def)
  ultimately show ?thesis
    using n by (simp add: conv_fireOutbound_def framed_pipeline_simps bytes_out_at_walk
        count_list_upt del: upt_Suc)
qed

lemma pipeline_out_all:
  assumes "list_all byte_passive pre" "list_all byte_passive post" "pre \<noteq> []"
    and "\<forall>m \<in> set ms. length m \<le> kChunkLimit"
  shows "\<exists>d. fire_all conv_fireOutbound (framed_pipeline pre post c)
        (map (\<lambda>m. OutboundBytes (bb_of m)) ms) = Some (d, framed_pipeline pre post c)
      \<and> bytes_out_at 0 d = map frame ms"
  using assms(4)
proof (induction ms)
  case Nil
  then show ?case by simp
next
  case (Cons m ms)
  have "length m \<le> vec_max" "length m \<le> kChunkLimit"
    using Cons.prems by (auto simp: kChunkLimit_def vec_max_def)
  then have "chunker_onOutbound (\<lambda>_. True) c (bb_of m) =
      Some (c, [FireOutbound (OutboundBytes (bb_of (frame m)))])"
    using chunker_onOutbound_frame [of "bb_of m" c] by simp
  from pipeline_out [OF assms(1-3) this] Cons show ?case by fastforce
qed

subsection \<open>The pipeline's guarantees\<close>

text \<open>C1: Messages sent through a framed pipeline, however the network cuts their bytes up, come out of
  a framed pipeline on the other side as the same messages, in the same order, and neither side shuts
  its transport down.\<close>

theorem framed_roundtrip:
  assumes "list_all byte_passive pre" "list_all byte_passive post" "pre \<noteq> []"
    and "list_all byte_passive pre'" "list_all byte_passive post'"
    and "\<forall>m \<in> set ms. length m \<le> kChunkLimit"
  shows "\<exists>d. fire_all conv_fireOutbound (framed_pipeline pre post c)
      (map (\<lambda>m. OutboundBytes (bb_of m)) ms) = Some (d, framed_pipeline pre post c)
    \<and> (\<forall>bufs. list_all bb_wf bufs \<and> stream_of bufs = concat (bytes_out_at 0 d)
        \<and> length (stream_of bufs) \<le> vec_max \<longrightarrow>
      (\<exists>d' c'. fire_all conv_fireInbound (framed_pipeline pre' post' chunker_init)
          (map InboundBytes bufs) = Some (d', framed_pipeline pre' post' c')
        \<and> bytes_in_at (Suc (length pre')) d' = ms))"
proof -
  obtain d where d: "fire_all conv_fireOutbound (framed_pipeline pre post c)
        (map (\<lambda>m. OutboundBytes (bb_of m)) ms) = Some (d, framed_pipeline pre post c)"
      "bytes_out_at 0 d = map frame ms"
    using pipeline_out_all [OF assms(1-3,6)] by blast
  have "\<exists>d' c'. fire_all conv_fireInbound (framed_pipeline pre' post' chunker_init)
        (map InboundBytes bufs) = Some (d', framed_pipeline pre' post' c')
      \<and> bytes_in_at (Suc (length pre')) d' = ms"
    if b: "list_all bb_wf bufs" "length (stream_of bufs) \<le> vec_max"
      and wire: "stream_of bufs = concat (map frame ms)" for bufs
  proof -
    have "drain 0 (stream_of bufs) = (ms, Some (0, []))"
      using drain_frames [OF assms(6), of "[]"] wire by simp
    from chunker_feed_init [OF b this] pipeline_in_all [OF assms(4,5)] show ?thesis by blast
  qed
  with d show ?thesis by auto
qed

theorem framed_roundtrip_witness:
  "\<exists>d. fire_all conv_fireOutbound (framed_pipeline [passive_stage chunker_init] [] chunker_init)
      (map (\<lambda>m. OutboundBytes (bb_of m)) [[1, 2], [3]]) =
        Some (d, framed_pipeline [passive_stage chunker_init] [] chunker_init)
    \<and> (\<forall>bufs. list_all bb_wf bufs \<and> stream_of bufs = concat (bytes_out_at 0 d)
        \<and> length (stream_of bufs) \<le> vec_max \<longrightarrow>
      (\<exists>d' c'. fire_all conv_fireInbound (framed_pipeline [] [passive_stage chunker_init] chunker_init)
          (map InboundBytes bufs) = Some (d', framed_pipeline [] [passive_stage chunker_init] c')
        \<and> bytes_in_at (Suc (length ([] :: chunker stage list))) d' = [[1, 2], [3]]))"
  by (rule framed_roundtrip) (simp_all add: byte_passive_def passive_stage_def kChunkLimit_def)

text \<open>C34: Firing an event into a pipeline of chunkers and handler-free stages always ends, without
  undefined behaviour, whichever reservations of the chunkers fail, and leaves such a pipeline.\<close>

theorem pipeline_returns:
  assumes "list_all (library_stage al) (cv_stages cv)" "wf_event e"
  shows "\<exists>d cv1 d' cv2. conv_fireInbound cv e = Some (d, cv1)
    \<and> conv_fireOutbound cv e = Some (d', cv2)
    \<and> list_all (library_stage al) (cv_stages cv1) \<and> list_all (library_stage al) (cv_stages cv2)"
  using lib.fireInbound_returns [OF assms] lib.fireOutbound_returns [OF assms] by blast

theorem pipeline_returns_witness:
  "\<exists>d cv1 d' cv2.
    conv_fireInbound (framed_pipeline [passive_stage chunker_init] [] chunker_init)
      (InboundBytes (bb_of [0, 0, 0, 0, 1])) = Some (d, cv1)
    \<and> conv_fireOutbound (framed_pipeline [passive_stage chunker_init] [] chunker_init)
      (InboundBytes (bb_of [0, 0, 0, 0, 1])) = Some (d', cv2)
    \<and> list_all (library_stage (\<lambda>_. True)) (cv_stages cv1)
    \<and> list_all (library_stage (\<lambda>_. True)) (cv_stages cv2)"
  by (rule pipeline_returns)
    (simp_all add: framed_pipeline_simps library_stage_chunker library_stage_passive vec_max_def)

text \<open>C35: An inbound event visits the stages in the order they were added, starting from the first, as
  long as they have no handler for it; an outbound event visits them in the opposite order.\<close>

theorem dispatch_order:
  assumes "cv_stages cv \<noteq> []"
    and "\<forall>j < length (cv_stages cv). on_inbound (cv_stages cv ! j) (kind_of e) = None"
    and "\<forall>j < length (cv_stages cv). on_outbound (cv_stages cv ! j) (kind_of e) = None"
  shows "conv_fireInbound cv e =
      Some (map (\<lambda>j. RunIn j e) [0..<Suc (length (cv_stages cv))], cv)
    \<and> conv_fireOutbound cv e = Some (map (\<lambda>j. RunOut j e) (rev [0..<length (cv_stages cv)]), cv)"
proof -
  let ?n = "length (cv_stages cv)"
  have n: "?n - 1 < ?n" "Suc (?n - 1) = ?n" using assms(1) by (auto simp: Suc_pred)
  have "conv_exec cv [RunIn 0 e] = Some (map (\<lambda>j. RunIn j e) [0..<Suc ?n], cv)"
    using conv_exec_in_end [of 0 cv e "[]"] assms(2) by (simp del: upt_Suc)
  moreover have "conv_exec cv [RunOut (?n - 1) e] = Some (map (\<lambda>j. RunOut j e) (rev [0..<?n]), cv)"
    using conv_exec_out_skip [OF n(1), of e] assms(3) n(1) unfolding n(2)
    by (simp add: order.strict_trans1)
  ultimately show ?thesis using assms(1) by (simp add: conv_fireInbound_def conv_fireOutbound_def)
qed

theorem dispatch_order_witness:
  "let cv = \<lparr>cv_stages = [passive_stage 1, passive_stage (2 :: nat)], cv_shutdowns = []\<rparr> in
     conv_fireInbound cv InboundSuspend =
       Some (map (\<lambda>j. RunIn j InboundSuspend) [0..<Suc (length (cv_stages cv))], cv)
     \<and> conv_fireOutbound cv InboundSuspend =
       Some (map (\<lambda>j. RunOut j InboundSuspend) (rev [0..<length (cv_stages cv)]), cv)"
  unfolding Let_def by (rule dispatch_order) (auto simp: passive_stage_def nth_Cons' less_Suc_eq)

end
