(* ===== verification/Myfs.thy ===== *)
theory Myfs
  imports Prelude
begin

section \<open>The in-memory FUSE server\<close>

text \<open>
  Models \<open>tasks/myfs/myfs_server.hpp\<close> and \<open>tasks/myfs/myfs_server.cpp\<close>: the class \<open>Server\<close> as the
  record \<open>server\<close> (the inode table and the two counters of \<open>allocateInode\<close>), one definition per
  handler, \<open>fs_dispatch\<close> for the table of lambdas of \<open>run\<close> and \<open>fs_run\<close> for \<open>run\<close> itself. A handler
  returns its FUSE reply and the server afterwards; \<open>None\<close> is a null dereference, an access outside a
  vector, a failed assertion or an exception that leaves the C callback. An \<open>unordered_map\<close> is an
  association list with distinct keys; where the code iterates over one, the order is a parameter.
  libfuse is a parameter: \<open>fuse_add_direntry\<close> through the size \<open>ent\<close> of an entry, the session calls
  through their results. \<open>fs_inv\<close> is the shape of the tree, \<open>fs_spec\<close> the file system the handlers
  implement.
\<close>

unbundle bit_operations_syntax

subsection \<open>State\<close>

type_synonym ino = nat

record fnode =
  fn_dir :: bool
  fn_parent :: ino
  fn_data :: "u8 list"
  fn_children :: "(string \<times> ino) list"

record server =
  sv_inodes :: "(ino \<times> fnode) list"
  sv_next_file :: ino
  sv_next_dir :: ino

definition new_node :: "bool \<Rightarrow> ino \<Rightarrow> fnode" where
  "new_node is_dir parent = \<lparr>fn_dir = is_dir, fn_parent = parent, fn_data = [], fn_children = []\<rparr>"

definition server_init :: server where
  "server_init = \<lparr>sv_inodes = [(1, new_node True 1)], sv_next_file = 2, sv_next_dir = 3\<rparr>"

definition findInode :: "server \<Rightarrow> ino \<Rightarrow> fnode option" where
  "findInode s i = map_of (sv_inodes s) i"

definition set_node :: "server \<Rightarrow> ino \<Rightarrow> (fnode \<Rightarrow> fnode) \<Rightarrow> server" where
  \<comment> \<open>a change through a shared pointer to a node; lost when the table no longer holds the node\<close>
  "set_node s i f = s\<lparr>sv_inodes := AList.map_entry i f (sv_inodes s)\<rparr>"

definition allocateInode :: "server \<Rightarrow> ino \<Rightarrow> bool \<Rightarrow> string \<Rightarrow> (ino \<times> server) option" where
  "allocateInode s parent is_dir name =
     (let (ino, s1) =
        (if is_dir then (sv_next_dir s, s\<lparr>sv_next_dir := size_add (sv_next_dir s) 2\<rparr>)
         else (sv_next_file s, s\<lparr>sv_next_file := size_add (sv_next_file s) 2\<rparr>))
      in case findInode s1 parent of
          None \<Rightarrow> None
        | Some p \<Rightarrow>
            if \<not> fn_dir p then None
            else let s2 = s1\<lparr>sv_inodes := AList.update ino (new_node is_dir parent) (sv_inodes s1)\<rparr>
              in Some (ino, set_node s2 parent
                   (\<lambda>nd. nd\<lparr>fn_children := AList.update name ino (fn_children nd)\<rparr>)))"

fun erase_child :: "ino \<Rightarrow> (string \<times> ino) list \<Rightarrow> (string \<times> ino) list" where
  "erase_child i [] = []"
| "erase_child i ((name, c) # rest) = (if c = i then rest else (name, c) # erase_child i rest)"

definition forgetInode :: "server \<Rightarrow> ino \<Rightarrow> server" where
  "forgetInode s i =
     (case findInode s i of
        None \<Rightarrow> s
      | Some nd \<Rightarrow>
          let s1 = (if fn_parent nd \<noteq> 0
                    then set_node s (fn_parent nd)
                      (\<lambda>p. p\<lparr>fn_children := erase_child i (fn_children p)\<rparr>)
                    else s)
          in s1\<lparr>sv_inodes := AList.delete i (sv_inodes s1)\<rparr>)"

subsection \<open>Requests and replies\<close>

definition S_IFDIR :: u32 where "S_IFDIR = 0x4000"
definition S_IFREG :: u32 where "S_IFREG = 0x8000"

definition FUSE_SET_ATTR_MODE :: u32 where "FUSE_SET_ATTR_MODE = 1"
definition FUSE_SET_ATTR_SIZE :: u32 where "FUSE_SET_ATTR_SIZE = 8"

record stat_buf =
  st_ino :: ino
  st_mode :: u32
  st_nlink :: nat
  st_size :: nat

record entry_param =
  e_ino :: ino
  e_mode :: u32
  e_nlink :: nat
  e_size :: nat

record statvfs =
  f_bsize :: nat
  f_frsize :: nat
  f_blocks :: nat
  f_bfree :: nat
  f_bavail :: nat
  f_files :: nat
  f_ffree :: nat
  f_namemax :: nat

record dirent =
  de_name :: string
  de_ino :: ino
  de_mode :: u32
  de_off :: int

record attr_arg =
  \<comment> \<open>the fields of the request's \<open>struct stat\<close> that \<open>setattr\<close> uses\<close>
  at_mode :: u32
  at_size :: int

datatype reply =
    ReplyErr int
  | ReplyEntry entry_param
  | ReplyCreate entry_param
  | ReplyOpen
  | ReplyBuf "u8 list"
  | ReplyDirents "dirent list"
  | ReplyWrite nat
  | ReplyAttr stat_buf
  | ReplyStatfs statvfs

subsection \<open>Handlers\<close>

definition BLOCK_SIZE :: nat where "BLOCK_SIZE = 4096"
definition TOTAL_SPACE :: nat where "TOTAL_SPACE = 8 * 1024 * 1024"
definition NAME_MAX :: nat where "NAME_MAX = 255"

definition node_mode :: "fnode \<Rightarrow> u32" where
  "node_mode nd = (if fn_dir nd then S_IFDIR OR 0x1ED else S_IFREG OR 0x1A4)"

definition node_nlink :: "fnode \<Rightarrow> nat" where
  "node_nlink nd = (if fn_dir nd then 2 + length (fn_children nd) else 1)"

definition node_stat :: "ino \<Rightarrow> fnode \<Rightarrow> stat_buf" where
  "node_stat i nd = \<lparr>st_ino = i, st_mode = node_mode nd, st_nlink = node_nlink nd,
     st_size = length (fn_data nd)\<rparr>"

definition fs_lookup :: "server \<Rightarrow> ino \<Rightarrow> string \<Rightarrow> (reply \<times> server) option" where
  "fs_lookup s parent name =
     (case findInode s parent of
        None \<Rightarrow> Some (ReplyErr ENOTDIR, s)
      | Some p \<Rightarrow>
          if \<not> fn_dir p then Some (ReplyErr ENOTDIR, s)
          else case map_of (fn_children p) name of
              None \<Rightarrow> Some (ReplyErr ENOENT, s)
            | Some c \<Rightarrow> do {
                nd \<leftarrow> findInode s c;
                Some (ReplyEntry \<lparr>e_ino = c, e_mode = node_mode nd, e_nlink = node_nlink nd,
                  e_size = length (fn_data nd)\<rparr>, s) })"

definition fs_create :: "server \<Rightarrow> ino \<Rightarrow> string \<Rightarrow> u32 \<Rightarrow> (reply \<times> server) option" where
  "fs_create s parent name mode =
     (case findInode s parent of
        None \<Rightarrow> Some (ReplyErr ENOTDIR, s)
      | Some p \<Rightarrow>
          if \<not> fn_dir p then Some (ReplyErr ENOTDIR, s)
          else if map_of (fn_children p) name \<noteq> None then Some (ReplyErr EEXIST, s)
          else do {
            (i, s1) \<leftarrow> allocateInode s parent False name;
            Some (ReplyCreate \<lparr>e_ino = i, e_mode = S_IFREG OR (mode AND 0x1FF), e_nlink = 1,
              e_size = 0\<rparr>, s1) })"

definition fs_unlink :: "server \<Rightarrow> ino \<Rightarrow> string \<Rightarrow> (reply \<times> server) option" where
  "fs_unlink s parent name =
     (case findInode s parent of
        None \<Rightarrow> Some (ReplyErr ENOTDIR, s)
      | Some p \<Rightarrow>
          if \<not> fn_dir p then Some (ReplyErr ENOTDIR, s)
          else case map_of (fn_children p) name of
              None \<Rightarrow> Some (ReplyErr ENOENT, s)
            | Some c \<Rightarrow>
                let s1 = s\<lparr>sv_inodes := AList.delete c (sv_inodes s)\<rparr> in
                Some (ReplyErr 0, set_node s1 parent
                  (\<lambda>nd. nd\<lparr>fn_children := AList.delete name (fn_children nd)\<rparr>)))"

definition fs_open :: "server \<Rightarrow> ino \<Rightarrow> (reply \<times> server) option" where
  "fs_open s i =
     (case findInode s i of
        None \<Rightarrow> Some (ReplyErr ENOENT, s)
      | Some nd \<Rightarrow> Some (if fn_dir nd then ReplyErr EISDIR else ReplyOpen, s))"

text \<open>
  \<open>fuse_add_direntry\<close> returns the size of the entry and stores it only when it fits into the space
  it is told. \<open>add_dirent\<close> is one call with \<open>size - pos\<close> as that space; a store beyond the \<open>size\<close>
  bytes that were reserved is \<open>None\<close>.
\<close>

definition add_dirent ::
  "(string \<Rightarrow> nat) \<Rightarrow> nat \<Rightarrow> nat \<times> dirent list \<Rightarrow> dirent \<Rightarrow> (nat \<times> dirent list) option" where
  "add_dirent ent sz acc e =
     (let (pos, out) = acc; n = ent (de_name e) in
      if n \<le> size_sub sz pos
      then if pos + n \<le> sz then Some (pos + n, out @ [e]) else None
      else Some (size_add pos n, out))"

fun readdir_loop ::
  "(string \<Rightarrow> nat) \<Rightarrow> server \<Rightarrow> nat \<Rightarrow> int \<Rightarrow> (string \<times> ino) list \<Rightarrow> int \<Rightarrow> nat \<times> dirent list \<Rightarrow>
     (nat \<times> dirent list) option" where
  "readdir_loop ent s sz off [] cur acc = Some acc"
| "readdir_loop ent s sz off ((name, c) # rest) cur acc =
     (if cur = 2 ^ 31 - 1 then None
      else if off \<le> cur then do {
        nd \<leftarrow> findInode s c;
        acc1 \<leftarrow> add_dirent ent sz acc \<lparr>de_name = name, de_ino = c,
          de_mode = (if fn_dir nd then S_IFDIR else S_IFREG), de_off = cur + 1\<rparr>;
        if sz \<le> fst acc1 then Some acc1 else readdir_loop ent s sz off rest (cur + 1) acc1 }
      else readdir_loop ent s sz off rest (cur + 1) acc)"

definition fs_readdir ::
  "(string \<Rightarrow> nat) \<Rightarrow> ((string \<times> ino) list \<Rightarrow> (string \<times> ino) list) \<Rightarrow> server \<Rightarrow> ino \<Rightarrow> nat \<Rightarrow> int \<Rightarrow>
     (reply \<times> server) option" where
  "fs_readdir ent iter s i sz off =
     (case findInode s i of
        None \<Rightarrow> Some (ReplyErr ENOTDIR, s)
      | Some nd \<Rightarrow>
          if \<not> fn_dir nd then Some (ReplyErr ENOTDIR, s)
          else do {
            a0 \<leftarrow> (if off = 0
              then add_dirent ent sz (0, []) \<lparr>de_name = ''.'', de_ino = i,
                     de_mode = S_IFDIR OR 0x1ED, de_off = 1\<rparr>
              else Some (0, []));
            a1 \<leftarrow> (if off \<le> 1
              then add_dirent ent sz a0 \<lparr>de_name = ''..'', de_ino = fn_parent nd,
                     de_mode = S_IFDIR OR 0x1ED, de_off = 2\<rparr>
              else Some a0);
            (pos, out) \<leftarrow> readdir_loop ent s sz off (iter (fn_children nd)) 2 a1;
            if pos \<le> sz then Some (ReplyDirents out, s) else None })"

definition fs_write :: "alloc \<Rightarrow> server \<Rightarrow> ino \<Rightarrow> u8 list \<Rightarrow> int \<Rightarrow> (reply \<times> server) option" where
  "fs_write al s i buf off =
     (case findInode s i of
        None \<Rightarrow> Some (ReplyErr ENOENT, s)
      | Some nd \<Rightarrow>
          if fn_dir nd then Some (ReplyErr EISDIR, s)
          else let write_end = size_add (nat (off mod 2 ^ 64)) (length buf) in do {
            d \<leftarrow> (if length (fn_data nd) < write_end
              then if vec_can_grow al write_end then Some (vec_resize (fn_data nd) write_end 0) else None
              else Some (fn_data nd));
            d1 \<leftarrow> (if off < 0 then None else blit d (nat off) buf);
            Some (ReplyWrite (length buf), set_node s i (\<lambda>n. n\<lparr>fn_data := d1\<rparr>)) })"

definition fs_statfs :: "server \<Rightarrow> (reply \<times> server) option" where
  "fs_statfs s =
     (let used = foldl size_add 0
            (map (\<lambda>(i, nd). if fn_dir nd then 0 else length (fn_data nd)) (sv_inodes s));
          free = (if used < TOTAL_SPACE then TOTAL_SPACE - used else 0) in
      Some (ReplyStatfs \<lparr>f_bsize = BLOCK_SIZE, f_frsize = BLOCK_SIZE,
        f_blocks = TOTAL_SPACE div BLOCK_SIZE, f_bfree = free div BLOCK_SIZE,
        f_bavail = free div BLOCK_SIZE, f_files = length (sv_inodes s),
        f_ffree = size_sub (TOTAL_SPACE div BLOCK_SIZE) (length (sv_inodes s)),
        f_namemax = NAME_MAX\<rparr>, s))"

definition fs_getattr :: "server \<Rightarrow> ino \<Rightarrow> (reply \<times> server) option" where
  "fs_getattr s i =
     (case findInode s i of
        None \<Rightarrow> Some (ReplyErr ENOENT, s)
      | Some nd \<Rightarrow> Some (ReplyAttr (node_stat i nd), s))"

definition fs_read :: "server \<Rightarrow> ino \<Rightarrow> nat \<Rightarrow> int \<Rightarrow> (reply \<times> server) option" where
  "fs_read s i sz off =
     (case findInode s i of
        None \<Rightarrow> Some (ReplyErr ENOENT, s)
      | Some nd \<Rightarrow>
          if fn_dir nd then Some (ReplyErr EISDIR, s)
          else if int (length (fn_data nd)) \<le> off then Some (ReplyBuf [], s)
          else let n = min sz (size_sub (length (fn_data nd)) (nat (off mod 2 ^ 64))) in do {
            bs \<leftarrow> (if off < 0 then None else vec_slice (fn_data nd) (nat off) n);
            Some (ReplyBuf bs, s) })"

definition fs_mkdir :: "server \<Rightarrow> ino \<Rightarrow> string \<Rightarrow> u32 \<Rightarrow> (reply \<times> server) option" where
  "fs_mkdir s parent name mode =
     (case findInode s parent of
        None \<Rightarrow> Some (ReplyErr ENOTDIR, s)
      | Some p \<Rightarrow>
          if \<not> fn_dir p then Some (ReplyErr ENOTDIR, s)
          else if map_of (fn_children p) name \<noteq> None then Some (ReplyErr EEXIST, s)
          else do {
            (i, s1) \<leftarrow> allocateInode s parent True name;
            Some (ReplyEntry \<lparr>e_ino = i, e_mode = S_IFDIR OR (mode AND 0x1FF), e_nlink = 2,
              e_size = 0\<rparr>, s1) })"

definition fs_rmdir :: "server \<Rightarrow> ino \<Rightarrow> string \<Rightarrow> (reply \<times> server) option" where
  "fs_rmdir s parent name =
     (case findInode s parent of
        None \<Rightarrow> Some (ReplyErr ENOTDIR, s)
      | Some p \<Rightarrow>
          if \<not> fn_dir p then Some (ReplyErr ENOTDIR, s)
          else case map_of (fn_children p) name of
              None \<Rightarrow> Some (ReplyErr ENOENT, s)
            | Some c \<Rightarrow>
                (case findInode s c of
                   None \<Rightarrow> Some (ReplyErr ENOTDIR, s)
                 | Some nd \<Rightarrow>
                     if \<not> fn_dir nd then Some (ReplyErr ENOTDIR, s)
                     else if fn_children nd \<noteq> [] then Some (ReplyErr ENOTEMPTY, s)
                     else Some (ReplyErr 0, forgetInode s c)))"

definition fs_setattr ::
  "alloc \<Rightarrow> server \<Rightarrow> ino \<Rightarrow> attr_arg \<Rightarrow> u32 \<Rightarrow> (reply \<times> attr_arg \<times> server) option" where
  \<comment> \<open>the request's \<open>attr\<close> is changed in place\<close>
  "fs_setattr al s i attr to_set =
     (case findInode s i of
        None \<Rightarrow> Some (ReplyErr ENOENT, attr, s)
      | Some nd \<Rightarrow>
          if to_set AND FUSE_SET_ATTR_SIZE \<noteq> 0 \<and> fn_dir nd then Some (ReplyErr EISDIR, attr, s)
          else if to_set AND FUSE_SET_ATTR_SIZE \<noteq> 0 \<and> at_size attr < 0
            then Some (ReplyErr EINVAL, attr, s)
          else do {
            d \<leftarrow> (if to_set AND FUSE_SET_ATTR_SIZE \<noteq> 0
              then let m = nat (at_size attr) in
                if m \<le> length (fn_data nd) \<or> vec_can_grow al m
                then Some (vec_resize (fn_data nd) m 0) else None
              else Some (fn_data nd));
            let nd1 = nd\<lparr>fn_data := d\<rparr>;
            let attr1 = (if to_set AND FUSE_SET_ATTR_MODE \<noteq> 0
              then attr\<lparr>at_mode := (if fn_dir nd1 then S_IFDIR else S_IFREG) OR (at_mode attr AND 0x1FF)\<rparr>
              else attr);
            Some (ReplyAttr (node_stat i nd1), attr1, set_node s i (\<lambda>n. n\<lparr>fn_data := d\<rparr>)) })"

definition fs_getxattr :: "server \<Rightarrow> (reply \<times> server) option" where
  "fs_getxattr s = Some (ReplyErr ENOTSUP, s)"

subsection \<open>Dispatch\<close>

datatype fuse_call =
    Getattr ino
  | Lookup ino string
  | Readdir ino nat int
  | Create ino string u32
  | Unlink ino string
  | Open ino
  | Read ino nat int
  | Write ino "u8 list" int
  | Statfs ino
  | Setattr ino attr_arg u32
  | Mkdir ino string u32
  | Rmdir ino string
  | Getxattr ino string nat

record fuse_env =
  \<comment> \<open>the heap, the size of a directory entry, the order of iteration over \<open>children_\<close>\<close>
  fe_alloc :: alloc
  fe_entsize :: "string \<Rightarrow> nat"
  fe_iter :: "(string \<times> ino) list \<Rightarrow> (string \<times> ino) list"

fun fs_apply :: "fuse_env \<Rightarrow> fuse_call \<Rightarrow> server \<Rightarrow> (reply \<times> server) option" where
  "fs_apply ev (Getattr i) s = fs_getattr s i"
| "fs_apply ev (Lookup p name) s = fs_lookup s p name"
| "fs_apply ev (Readdir i sz off) s = fs_readdir (fe_entsize ev) (fe_iter ev) s i sz off"
| "fs_apply ev (Create p name mode) s = fs_create s p name mode"
| "fs_apply ev (Unlink p name) s = fs_unlink s p name"
| "fs_apply ev (Open i) s = fs_open s i"
| "fs_apply ev (Read i sz off) s = fs_read s i sz off"
| "fs_apply ev (Write i buf off) s = fs_write (fe_alloc ev) s i buf off"
| "fs_apply ev (Statfs i) s = fs_statfs s"
| "fs_apply ev (Setattr i attr to_set) s =
     map_option (\<lambda>(r, attr1, s1). (r, s1)) (fs_setattr (fe_alloc ev) s i attr to_set)"
| "fs_apply ev (Mkdir p name mode) s = fs_mkdir s p name mode"
| "fs_apply ev (Rmdir p name) s = fs_rmdir s p name"
| "fs_apply ev (Getxattr i name sz) s = fs_getxattr s"

definition fs_dispatch ::
  "fuse_env \<Rightarrow> fuse_call \<Rightarrow> server option \<Rightarrow> (reply \<times> server option) option" where
  \<comment> \<open>the lambdas of \<open>run\<close>, with the session's user data\<close>
  "fs_dispatch ev x self =
     (case self of
        None \<Rightarrow> Some (ReplyErr EIO, None)
      | Some s \<Rightarrow> map_option (\<lambda>(r, s1). (r, Some s1)) (fs_apply ev x s))"

subsection \<open>The session\<close>

datatype session_call =
    ParseCmdline "string list" | SessionNew | SessionMount string | SessionLoop | SessionUnmount
  | SessionDestroy

datatype run_error =
    InvalidMountPoint | ParseFailed | SessionNewFailed | SessionMountFailed | SessionLoopFailed

definition fs_run :: "(session_call \<Rightarrow> bool) \<Rightarrow> string \<Rightarrow> session_call list \<times> (run_error + unit)" where
  \<comment> \<open>the calls made to libfuse, in order, and the exception or the normal return; \<open>ok\<close> is the
    success of a call\<close>
  "fs_run ok mount =
     (let parse = ParseCmdline [''myfs'', ''-d'', mount] in
      if mount \<noteq> '''' \<and> hd mount \<noteq> CHR ''/'' then ([], Inl InvalidMountPoint)
      else if \<not> ok parse then ([parse], Inl ParseFailed)
      else if \<not> ok SessionNew then ([parse, SessionNew], Inl SessionNewFailed)
      else if \<not> ok (SessionMount mount)
        then ([parse, SessionNew, SessionMount mount, SessionDestroy], Inl SessionMountFailed)
      else if \<not> ok SessionLoop
        then ([parse, SessionNew, SessionMount mount, SessionLoop], Inl SessionLoopFailed)
      else ([parse, SessionNew, SessionMount mount, SessionLoop, SessionUnmount, SessionDestroy],
            Inr ()))"

subsection \<open>The shape of the tree\<close>

definition node_ok :: "server \<Rightarrow> ino \<Rightarrow> fnode \<Rightarrow> bool" where
  "node_ok s i nd \<longleftrightarrow>
     distinct (map fst (fn_children nd)) \<and> distinct (map snd (fn_children nd))
     \<and> (\<forall>name c. (name, c) \<in> set (fn_children nd) \<longrightarrow>
          c \<noteq> 1 \<and> (\<exists>cn. findInode s c = Some cn \<and> fn_parent cn = i))
     \<and> (\<not> fn_dir nd \<longrightarrow> fn_children nd = []) \<and> (fn_dir nd \<longrightarrow> fn_data nd = [])
     \<and> length (fn_data nd) \<le> vec_max"

definition fresh_ok :: "nat \<Rightarrow> server \<Rightarrow> bool" where
  \<comment> \<open>every inode in use is below its counter, and the counters are \<open>n\<close> allocations from wrapping\<close>
  "fresh_ok n s \<longleftrightarrow>
     (\<forall>i nd. findInode s i = Some nd \<longrightarrow>
        0 < i \<and> (even i \<longrightarrow> i < sv_next_file s) \<and> (odd i \<longrightarrow> i < sv_next_dir s))
     \<and> even (sv_next_file s) \<and> odd (sv_next_dir s) \<and> 2 \<le> sv_next_file s \<and> 3 \<le> sv_next_dir s
     \<and> sv_next_file s + 2 * n < 2 ^ 64 \<and> sv_next_dir s + 2 * n < 2 ^ 64"

definition fs_inv :: "nat \<Rightarrow> server \<Rightarrow> bool" where
  "fs_inv n s \<longleftrightarrow>
     distinct (map fst (sv_inodes s)) \<and> (\<exists>r. findInode s 1 = Some r \<and> fn_dir r)
     \<and> (\<forall>i nd. findInode s i = Some nd \<longrightarrow> node_ok s i nd) \<and> fresh_ok n s"

lemma findInode_simps [simp]:
  "findInode (set_node s i f) j = (if j = i then map_option f (findInode s i) else findInode s j)"
  "findInode (s\<lparr>sv_inodes := AList.update i nd (sv_inodes s)\<rparr>) j =
     (if j = i then Some nd else findInode s j)"
  "findInode (s\<lparr>sv_next_file := m\<rparr>) j = findInode s j"
  "findInode (s\<lparr>sv_next_dir := m\<rparr>) j = findInode s j"
  "sv_next_file (set_node s i f) = sv_next_file s" "sv_next_dir (set_node s i f) = sv_next_dir s"
  by (auto simp: findInode_def set_node_def map_of_map_entry AList.update_conv' split: option.splits)

lemma findInode_delete [simp]:
  "findInode (s\<lparr>sv_inodes := AList.delete i (sv_inodes s)\<rparr>) j =
     (if j = i then None else findInode s j)"
  by (simp add: findInode_def AList.delete_conv')

lemma distinct_set_node [simp]:
  "distinct (map fst (sv_inodes (set_node s i f))) = distinct (map fst (sv_inodes s))"
proof -
  have "map fst (AList.map_entry i f xs) = map fst xs" for xs :: "(ino \<times> fnode) list"
    by (induction xs) auto
  then show ?thesis by (simp add: set_node_def)
qed

lemma fs_inv_init: "n < 2 ^ 62 \<Longrightarrow> fs_inv n server_init"
  by (auto simp: fs_inv_def server_init_def findInode_def new_node_def node_ok_def fresh_ok_def
      split: if_splits)

lemma fs_inv_less: "fs_inv (Suc n) s \<Longrightarrow> fs_inv n s"
  by (auto simp: fs_inv_def fresh_ok_def)

lemma fs_inv_node: "fs_inv n s \<Longrightarrow> findInode s i = Some nd \<Longrightarrow> node_ok s i nd"
  by (simp add: fs_inv_def)

lemma fs_inv_child:
  assumes "fs_inv n s" "findInode s p = Some pn" "(name, c) \<in> set (fn_children pn)"
  shows "c \<noteq> 1 \<and> (\<exists>cn. findInode s c = Some cn \<and> fn_parent cn = p)"
  using fs_inv_node [OF assms(1,2)] assms(3) by (auto simp: node_ok_def)

lemma node_ok_cong:
  "node_ok s i nd \<Longrightarrow>
     (\<And>name c cn. (name, c) \<in> set (fn_children nd) \<Longrightarrow> findInode s c = Some cn \<Longrightarrow> fn_parent cn = i \<Longrightarrow>
        \<exists>cn'. findInode s' c = Some cn' \<and> fn_parent cn' = i) \<Longrightarrow>
     node_ok s' i nd"
  unfolding node_ok_def by blast

text \<open>Changing the contents of a file.\<close>

lemma fs_inv_set_data:
  assumes "fs_inv n s" "findInode s i = Some nd" "\<not> fn_dir nd" "length d \<le> vec_max"
  shows "fs_inv n (set_node s i (\<lambda>n. n\<lparr>fn_data := d\<rparr>))"
proof -
  let ?s = "set_node s i (\<lambda>n. n\<lparr>fn_data := d\<rparr>)"
  have "node_ok ?s j nd'" if j: "findInode ?s j = Some nd'" for j nd'
  proof -
    obtain nd0 where nd0: "findInode s j = Some nd0"
        "nd' = (if j = i then nd0\<lparr>fn_data := d\<rparr> else nd0)"
      using j by (auto split: if_splits)
    have "node_ok ?s j nd0"
      using fs_inv_node [OF assms(1) nd0(1)] by (rule node_ok_cong) auto
    then show ?thesis
      using nd0 assms(2-4) by (auto simp: node_ok_def)
  qed
  with assms show ?thesis
    by (fastforce simp: fs_inv_def fresh_ok_def split: if_splits)
qed

text \<open>Allocation.\<close>

lemma allocateInode_ok:
  assumes inv: "fs_inv (Suc n) s" and p: "findInode s parent = Some p" "fn_dir p"
    and new: "map_of (fn_children p) name = None"
  obtains i s1 where "allocateInode s parent is_dir name = Some (i, s1)" "fs_inv n s1"
    "findInode s i = None" "i \<noteq> 0" "i \<noteq> 1" "i = (if is_dir then sv_next_dir s else sv_next_file s)"
    "\<And>j. findInode s1 j = (if j = i then Some (new_node is_dir parent)
       else if j = parent then Some (p\<lparr>fn_children := AList.update name i (fn_children p)\<rparr>)
       else findInode s j)"
proof -
  define i where "i = (if is_dir then sv_next_dir s else sv_next_file s)"
  define s0 where "s0 = (if is_dir then s\<lparr>sv_next_dir := sv_next_dir s + 2\<rparr>
     else s\<lparr>sv_next_file := sv_next_file s + 2\<rparr>)"
  define s1 where "s1 = set_node (s0\<lparr>sv_inodes := AList.update i (new_node is_dir parent) (sv_inodes s0)\<rparr>)
     parent (\<lambda>nd. nd\<lparr>fn_children := AList.update name i (fn_children nd)\<rparr>)"
  have fresh: "findInode s i = None" "i \<noteq> 0" "i \<noteq> 1"
    using inv by (auto simp: fs_inv_def fresh_ok_def i_def)
  then have ip: "i \<noteq> parent" using p by auto
  have s0: "findInode s0 j = findInode s j" "sv_inodes s0 = sv_inodes s" for j
    by (simp_all add: s0_def)
  have al: "allocateInode s parent is_dir name = Some (i, s1)"
    using inv p by (simp add: allocateInode_def Let_def s1_def s0_def i_def fs_inv_def fresh_ok_def)
  have look: "findInode s1 j = (if j = i then Some (new_node is_dir parent)
      else if j = parent then Some (p\<lparr>fn_children := AList.update name i (fn_children p)\<rparr>)
      else findInode s j)" for j
    unfolding s1_def using ip p by (simp add: s0(1))
  have "fs_inv n s1"
  proof -
    have "distinct (map fst (sv_inodes s1))"
      using inv by (simp add: s1_def s0 fs_inv_def distinct_update)
    moreover have "\<exists>r. findInode s1 1 = Some r \<and> fn_dir r"
      using inv fresh p by (auto simp: look fs_inv_def)
    moreover have "node_ok s1 j nd" if "findInode s1 j = Some nd" for j nd
    proof -
      have keep: "node_ok s1 j nd0" if nd0: "findInode s j = Some nd0" for nd0
        using fs_inv_node [OF inv nd0] fresh p by (rule_tac node_ok_cong) (auto simp: look)
      show ?thesis
      proof (cases "j = i")
        case True
        then have "nd = new_node is_dir parent" using that by (simp add: look)
        then show ?thesis by (simp add: node_ok_def new_node_def)
      next
        case ji: False
        show ?thesis
        proof (cases "j = parent")
          case 2: True
          have nd: "nd = p\<lparr>fn_children := AList.update name i (fn_children p)\<rparr>"
            using that ji 2 by (simp add: look)
          have "i \<notin> snd ` set (fn_children p)"
            using fs_inv_child [OF inv p(1)] fresh(1) by force
          moreover have "AList.update name i (fn_children p) = fn_children p @ [(name, i)]"
            using new by (simp add: map_of_eq_None_iff update_new)
          moreover have "name \<notin> fst ` set (fn_children p)"
            using new by (simp add: map_of_eq_None_iff)
          ultimately show ?thesis
            using keep [OF p(1) [folded 2]] 2 p(2) fresh(3) ip nd
            by (auto simp: node_ok_def look new_node_def)
        next
          case False
          then show ?thesis using keep ji that by (simp add: look)
        qed
      qed
    qed
    moreover have "fresh_ok n s1"
    proof -
      have f: "fresh_ok (Suc n) s" using inv by (simp add: fs_inv_def)
      have b: "0 < j \<and> (even j \<longrightarrow> j < sv_next_file s1) \<and> (odd j \<longrightarrow> j < sv_next_dir s1)"
        if "findInode s1 j = Some nd" for j nd
      proof -
        have "j \<noteq> i \<Longrightarrow> \<exists>nd0. findInode s j = Some nd0"
          using that p by (cases "j = parent") (simp_all add: look)
        then show ?thesis
          using f fresh by (cases "j = i") (fastforce simp: s1_def s0_def fresh_ok_def i_def)+
      qed
      then show ?thesis
        using f by (auto simp: fresh_ok_def s1_def s0_def)
    qed
    ultimately show ?thesis by (simp add: fs_inv_def)
  qed
  with al fresh i_def look that show thesis by blast
qed

lemma distinct_snd_unique:
  "distinct (map snd xs) \<Longrightarrow> (a, c) \<in> set xs \<Longrightarrow> (b, c) \<in> set xs \<Longrightarrow> a = b"
  by (induction xs) force+

text \<open>Removal of an inode together with its directory entry.\<close>

lemma fs_inv_remove:
  assumes inv: "fs_inv n s" and p: "findInode s parent = Some p"
    and c: "(name, c) \<in> set (fn_children p)"
    and look: "\<And>j. findInode s1 j = (if j = c then None
       else if j = parent then Some (p\<lparr>fn_children := AList.delete name (fn_children p)\<rparr>)
       else findInode s j)"
    and rest: "distinct (map fst (sv_inodes s1))" "sv_next_file s1 = sv_next_file s"
      "sv_next_dir s1 = sv_next_dir s"
  shows "fs_inv n s1"
proof -
  obtain cn where cn: "findInode s c = Some cn" "fn_parent cn = parent" "c \<noteq> 1"
    using fs_inv_child [OF inv p c] by blast
  have pk: "node_ok s parent p" using fs_inv_node [OF inv p] .
  have "node_ok s1 j nd" if nd: "findInode s1 j = Some nd" for j nd
  proof (cases "j = parent")
    case True
    let ?ch = "AList.delete name (fn_children p)"
    have d: "distinct (map snd (fn_children p))" "distinct (map fst (fn_children p))"
        "fn_dir p \<longrightarrow> fn_data p = []" "\<not> fn_dir p \<longrightarrow> fn_children p = []"
        "length (fn_data p) \<le> vec_max"
      using pk by (simp_all add: node_ok_def)
    have sub: "(a, b) \<in> set (fn_children p)" "b \<noteq> c" if "(a, b) \<in> set ?ch" for a b
      using that c distinct_snd_unique [OF d(1), of a c name] by (auto simp: AList.delete_eq)
    have "\<exists>cn. findInode s1 b = Some cn \<and> fn_parent cn = parent" "b \<noteq> 1" if "(a, b) \<in> set ?ch" for a b
      using fs_inv_child [OF inv p sub(1) [OF that]] sub(2) [OF that] p by (auto simp: look)
    moreover have "distinct (map snd ?ch)"
      using d(1) by (simp add: AList.delete_eq distinct_map_filter)
    moreover have "nd = p\<lparr>fn_children := ?ch\<rparr>"
      using nd True by (simp add: look split: if_splits)
    ultimately show ?thesis
      using d True by (simp add: node_ok_def distinct_delete)
  next
    case False
    then have j: "findInode s j = Some nd" "j \<noteq> c" using nd by (auto simp: look split: if_splits)
    show ?thesis
    proof (rule node_ok_cong [OF fs_inv_node [OF inv j(1)]])
      fix name' c' cn' assume "findInode s c' = Some cn'" "fn_parent cn' = j"
      then show "\<exists>cn''. findInode s1 c' = Some cn'' \<and> fn_parent cn'' = j"
        using False cn p by (auto simp: look)
    qed
  qed
  moreover have "\<exists>r. findInode s1 1 = Some r \<and> fn_dir r"
    using inv cn(3) p by (auto simp: look fs_inv_def)
  moreover have "fresh_ok n s1"
    using inv p by (auto simp: fs_inv_def fresh_ok_def look rest split: if_splits)
  ultimately show ?thesis using rest(1) by (simp add: fs_inv_def)
qed

lemma erase_child_delete:
  "distinct (map fst xs) \<Longrightarrow> distinct (map snd xs) \<Longrightarrow> (name, c) \<in> set xs \<Longrightarrow>
     erase_child c xs = AList.delete name xs"
proof (induction xs)
  case Nil
  then show ?case by simp
next
  case (Cons x xs)
  show ?case
  proof (cases "x = (name, c)")
    case True
    then have "name \<notin> fst ` set xs" using Cons.prems(1) by simp
    then have "filter (\<lambda>(k', _). name \<noteq> k') xs = xs" by (force intro!: filter_True)
    then show ?thesis using True by (simp add: AList.delete_eq)
  next
    case False
    then have "(name, c) \<in> set xs" using Cons.prems(3) by simp
    then have "name \<in> fst ` set xs" "c \<in> snd ` set xs" by force+
    then have "snd x \<noteq> c \<and> fst x \<noteq> name" using Cons.prems by auto
    then show ?thesis using Cons False \<open>(name, c) \<in> set xs\<close> by (cases x) simp
  qed
qed

lemma forgetInode_lookup:
  assumes inv: "fs_inv n s" and p: "findInode s parent = Some p"
    and c: "(name, c) \<in> set (fn_children p)"
  shows "findInode (forgetInode s c) j = (if j = c then None
       else if j = parent then Some (p\<lparr>fn_children := AList.delete name (fn_children p)\<rparr>)
       else findInode s j)"
    and "fs_inv n (forgetInode s c)"
proof -
  obtain cn where cn: "findInode s c = Some cn" "fn_parent cn = parent" "c \<noteq> 1"
    using fs_inv_child [OF inv p c] by blast
  have "parent \<noteq> 0" using inv p by (auto simp: fs_inv_def fresh_ok_def)
  moreover have "erase_child c (fn_children p) = AList.delete name (fn_children p)"
    using fs_inv_node [OF inv p] c by (intro erase_child_delete) (auto simp: node_ok_def)
  ultimately show look: "findInode (forgetInode s c) j = (if j = c then None
       else if j = parent then Some (p\<lparr>fn_children := AList.delete name (fn_children p)\<rparr>)
       else findInode s j)" for j
    using cn p by (simp add: forgetInode_def Let_def)
  show "fs_inv n (forgetInode s c)"
  proof (rule fs_inv_remove [OF inv p c look])
    show "distinct (map fst (sv_inodes (forgetInode s c)))"
      using inv cn by (auto simp: forgetInode_def fs_inv_def Let_def intro!: distinct_delete)
    show "sv_next_file (forgetInode s c) = sv_next_file s" "sv_next_dir (forgetInode s c) = sv_next_dir s"
      using cn by (simp_all add: forgetInode_def Let_def)
  qed
qed

end
