(* ===== verification/MyfsProps.thy ===== *)
theory MyfsProps
  imports Myfs
begin

section \<open>What the FUSE server guarantees\<close>

text \<open>
  \<open>fs_spec\<close> is the file system the handlers of \<open>Myfs\<close> implement: a map from inodes to directories
  (maps from names to inodes) and files (byte strings), with one clause per request. The handlers are
  shown to be safe and to refine it in every sequence of requests; \<open>readdir\<close>, which is not safe, is
  treated on its own, as are the ways in which the code departs from what a file system does.
\<close>

unbundle bit_operations_syntax

subsection \<open>Specification\<close>

datatype aobj = ADir "string \<Rightarrow> ino option" | AFile "u8 list"
type_synonym afs = "ino \<Rightarrow> aobj option"

datatype ares = AStatus int | AData "u8 list" | ACount nat | AStat ino nat | AIno ino

definition pwrite :: "u8 list \<Rightarrow> nat \<Rightarrow> u8 list \<Rightarrow> u8 list" where
  \<comment> \<open>the bytes at the offset, a gap filled with zeros\<close>
  "pwrite d off bs = take off (d @ replicate (off - length d) 0) @ bs @ drop (off + length bs) d"

definition ftruncate :: "u8 list \<Rightarrow> nat \<Rightarrow> u8 list" where
  "ftruncate d m = take m (d @ replicate (m - length d) 0)"

fun obj_size :: "aobj \<Rightarrow> nat" where
  "obj_size (ADir ch) = 0"
| "obj_size (AFile d) = length d"

definition at_dir :: "afs \<Rightarrow> ino \<Rightarrow> ((string \<Rightarrow> ino option) \<Rightarrow> ares \<times> afs) \<Rightarrow> ares \<times> afs" where
  "at_dir a p k = (case a p of Some (ADir ch) \<Rightarrow> k ch | _ \<Rightarrow> (AStatus ENOTDIR, a))"

definition at_file :: "afs \<Rightarrow> ino \<Rightarrow> (u8 list \<Rightarrow> ares \<times> afs) \<Rightarrow> ares \<times> afs" where
  "at_file a i k =
     (case a i of None \<Rightarrow> (AStatus ENOENT, a) | Some (ADir ch) \<Rightarrow> (AStatus EISDIR, a)
      | Some (AFile d) \<Rightarrow> k d)"

fun fs_spec :: "ino \<Rightarrow> fuse_call \<Rightarrow> afs \<Rightarrow> ares \<times> afs" where
  \<comment> \<open>the first argument is the inode a new object gets\<close>
  "fs_spec new (Getattr i) a =
     (case a i of None \<Rightarrow> (AStatus ENOENT, a) | Some ob \<Rightarrow> (AStat i (obj_size ob), a))"
| "fs_spec new (Lookup p name) a = at_dir a p (\<lambda>ch.
     case ch name of None \<Rightarrow> (AStatus ENOENT, a) | Some c \<Rightarrow> (AIno c, a))"
| "fs_spec new (Readdir i sz off) a = at_dir a i (\<lambda>ch. (AStatus 0, a))"
| "fs_spec new (Create p name mode) a = at_dir a p (\<lambda>ch.
     if ch name \<noteq> None then (AStatus EEXIST, a)
     else (AIno new, a(new \<mapsto> AFile [], p \<mapsto> ADir (ch(name \<mapsto> new)))))"
| "fs_spec new (Unlink p name) a = at_dir a p (\<lambda>ch.
     case ch name of None \<Rightarrow> (AStatus ENOENT, a)
     | Some c \<Rightarrow> (AStatus 0, a(p \<mapsto> ADir (ch(name := None)), c := None)))"
| "fs_spec new (Open i) a = at_file a i (\<lambda>d. (AStatus 0, a))"
| "fs_spec new (Read i sz off) a = at_file a i (\<lambda>d. (AData (take sz (drop (nat off) d)), a))"
| "fs_spec new (Write i bs off) a = at_file a i (\<lambda>d.
     (ACount (length bs), a(i \<mapsto> AFile (pwrite d (nat off) bs))))"
| "fs_spec new (Statfs i) a = (AStatus 0, a)"
| "fs_spec new (Setattr i attr to_set) a =
     (if to_set AND FUSE_SET_ATTR_SIZE = 0
      then case a i of None \<Rightarrow> (AStatus ENOENT, a) | Some ob \<Rightarrow> (AStat i (obj_size ob), a)
      else at_file a i (\<lambda>d.
        if at_size attr < 0 then (AStatus EINVAL, a)
        else (AStat i (nat (at_size attr)), a(i \<mapsto> AFile (ftruncate d (nat (at_size attr)))))))"
| "fs_spec new (Mkdir p name mode) a = at_dir a p (\<lambda>ch.
     if ch name \<noteq> None then (AStatus EEXIST, a)
     else (AIno new, a(new \<mapsto> ADir (\<lambda>_. None), p \<mapsto> ADir (ch(name \<mapsto> new)))))"
| "fs_spec new (Rmdir p name) a = at_dir a p (\<lambda>ch.
     case ch name of None \<Rightarrow> (AStatus ENOENT, a)
     | Some c \<Rightarrow> at_dir a c (\<lambda>ch2.
         if \<exists>nm. ch2 nm \<noteq> None then (AStatus ENOTEMPTY, a)
         else (AStatus 0, a(p \<mapsto> ADir (ch(name := None)), c := None))))"
| "fs_spec new (Getxattr i name sz) a = (AStatus ENOTSUP, a)"

definition fs_spec_step :: "fuse_call \<Rightarrow> afs \<Rightarrow> ares \<Rightarrow> afs \<Rightarrow> bool" where
  "fs_spec_step x a r a1 \<longleftrightarrow> (\<exists>new. a new = None \<and> fs_spec new x a = (r, a1))"

subsection \<open>Abstraction\<close>

definition obj_abs :: "fnode \<Rightarrow> aobj" where
  "obj_abs nd = (if fn_dir nd then ADir (map_of (fn_children nd)) else AFile (fn_data nd))"

definition fs_abs :: "server \<Rightarrow> afs" where
  "fs_abs s i = map_option obj_abs (findInode s i)"

fun reply_abs :: "reply \<Rightarrow> ares" where
  "reply_abs (ReplyErr e) = AStatus e"
| "reply_abs (ReplyEntry e) = AIno (e_ino e)"
| "reply_abs (ReplyCreate e) = AIno (e_ino e)"
| "reply_abs ReplyOpen = AStatus 0"
| "reply_abs (ReplyBuf bs) = AData bs"
| "reply_abs (ReplyDirents es) = AStatus 0"
| "reply_abs (ReplyWrite n) = ACount n"
| "reply_abs (ReplyAttr st) = AStat (st_ino st) (st_size st)"
| "reply_abs (ReplyStatfs st) = AStatus 0"

fun fs_call_ok :: "fuse_env \<Rightarrow> fuse_call \<Rightarrow> bool" where
  \<comment> \<open>what the kernel owes: offsets are not negative, sizes can be allocated\<close>
  "fs_call_ok ev (Readdir i sz off) \<longleftrightarrow> False"
| "fs_call_ok ev (Read i sz off) \<longleftrightarrow> 0 \<le> off"
| "fs_call_ok ev (Write i bs off) \<longleftrightarrow> 0 \<le> off \<and> vec_can_grow (fe_alloc ev) (nat off + length bs)"
| "fs_call_ok ev (Setattr i attr to_set) \<longleftrightarrow> vec_can_grow (fe_alloc ev) (nat (at_size attr))"
| "fs_call_ok ev _ \<longleftrightarrow> True"

definition follows :: "nat \<Rightarrow> fuse_call \<Rightarrow> server \<Rightarrow> (reply \<times> server) option \<Rightarrow> bool" where
  \<comment> \<open>the outcome of a handler: it returns, keeps the invariant and takes a step of the specification\<close>
  "follows n x s res \<longleftrightarrow>
     (\<exists>r s1. res = Some (r, s1) \<and> fs_inv n s1 \<and> fs_spec_step x (fs_abs s) (reply_abs r) (fs_abs s1))"

lemma fs_abs_node: "findInode s i = Some nd \<Longrightarrow> fs_abs s i = Some (obj_abs nd)"
  by (simp add: fs_abs_def)

lemma fs_abs_None: "fs_abs s i = None \<longleftrightarrow> findInode s i = None"
  by (simp add: fs_abs_def)

lemma fs_inv_fresh: "fs_inv n s \<Longrightarrow> fs_abs s 0 = None"
  by (cases "findInode s 0") (auto simp: fs_inv_def fresh_ok_def fs_abs_None)

lemma follows_same:
  assumes "fs_inv (Suc n) s" "\<And>new. fs_spec new x (fs_abs s) = (reply_abs r, fs_abs s)"
  shows "follows n x s (Some (r, s))"
  using assms fs_inv_less [OF assms(1)] fs_inv_fresh [OF assms(1)]
  by (auto simp: follows_def fs_spec_step_def)

lemmas follow_defs = at_dir_def at_file_def fs_abs_def obj_abs_def

lemma child_in: "map_of (fn_children p) name = Some c \<Longrightarrow> (name, c) \<in> set (fn_children p)"
  by (rule map_of_SomeD)

subsection \<open>Handlers that only look\<close>

lemma fs_getattr_follows: "fs_inv (Suc n) s \<Longrightarrow> follows n (Getattr i) s (fs_getattr s i)"
  by (cases "findInode s i")
    (auto simp: fs_getattr_def follow_defs node_stat_def fs_inv_def node_ok_def intro!: follows_same)

lemma fs_lookup_follows:
  assumes "fs_inv (Suc n) s"
  shows "follows n (Lookup p name) s (fs_lookup s p name)"
proof (cases "\<exists>pn c. findInode s p = Some pn \<and> fn_dir pn \<and> map_of (fn_children pn) name = Some c")
  case True
  then obtain pn c where pn: "findInode s p = Some pn" "fn_dir pn" "map_of (fn_children pn) name = Some c"
    by blast
  then obtain cn where "findInode s c = Some cn"
    using fs_inv_child [OF assms pn(1) child_in [OF pn(3)]] by blast
  with pn assms show ?thesis by (simp add: fs_lookup_def follows_same follow_defs)
next
  case False
  with assms show ?thesis
    by (auto simp: fs_lookup_def follow_defs intro!: follows_same split: option.split)
qed

lemma fs_open_follows: "fs_inv (Suc n) s \<Longrightarrow> follows n (Open i) s (fs_open s i)"
  by (cases "findInode s i") (auto simp: fs_open_def follow_defs intro!: follows_same)

lemma fs_read_follows:
  assumes "fs_inv (Suc n) s" "0 \<le> off"
  shows "follows n (Read i sz off) s (fs_read s i sz off)"
proof (cases "\<exists>nd. findInode s i = Some nd \<and> \<not> fn_dir nd \<and> off < int (length (fn_data nd))")
  case True
  then obtain nd where nd: "findInode s i = Some nd" "\<not> fn_dir nd" "off < int (length (fn_data nd))"
    by blast
  let ?o = "nat off"
  have "length (fn_data nd) < 2 ^ 63"
    using fs_inv_node [OF assms(1) nd(1)] by (simp add: node_ok_def vec_max_def)
  then have "off mod 2 ^ 64 = off" "?o \<le> length (fn_data nd)" using nd(3) assms(2) by simp_all
  moreover have "take (min sz (length (fn_data nd) - ?o)) (drop ?o (fn_data nd)) =
      take sz (drop ?o (fn_data nd))"
    by (simp add: min_def)
  ultimately have "fs_read s i sz off = Some (ReplyBuf (take sz (drop ?o (fn_data nd))), s)"
    using nd assms(2) by (simp add: fs_read_def vec_slice_def Let_def)
  then show ?thesis
    using nd assms by (simp add: follows_same follow_defs)
next
  case False
  then show ?thesis
    using assms by (cases "findInode s i") (auto simp: fs_read_def follow_defs intro!: follows_same)
qed

lemma fs_statfs_follows: "fs_inv (Suc n) s \<Longrightarrow> follows n (Statfs i) s (fs_statfs s)"
  by (simp add: fs_statfs_def Let_def follows_same)

lemma fs_getxattr_follows:
  "fs_inv (Suc n) s \<Longrightarrow> follows n (Getxattr i name sz) s (fs_getxattr s)"
  by (simp add: fs_getxattr_def follows_same)

subsection \<open>Handlers that change the tree\<close>

lemma followsI:
  assumes "res = Some (r, s1)" "fs_inv n s1" "fs_abs s new = None"
    and "fst (fs_spec new x (fs_abs s)) = reply_abs r"
    and "\<And>i. snd (fs_spec new x (fs_abs s)) i = fs_abs s1 i"
  shows "follows n x s res"
proof -
  have "fs_spec new x (fs_abs s) = (reply_abs r, fs_abs s1)"
    using assms(4,5) by (simp add: prod_eq_iff fun_eq_iff)
  with assms(1-3) show ?thesis by (auto simp: follows_def fs_spec_step_def)
qed

lemma map_of_delete: "map_of (AList.delete k xs) = (map_of xs)(k := None)"
  by (simp add: AList.delete_conv')

lemma fs_create_follows:
  assumes inv: "fs_inv (Suc n) s"
  shows "follows n (Create p name mode) s (fs_create s p name mode)"
proof (cases "\<exists>pn. findInode s p = Some pn \<and> fn_dir pn \<and> map_of (fn_children pn) name = None")
  case True
  then obtain pn where pn: "findInode s p = Some pn" "fn_dir pn" "map_of (fn_children pn) name = None"
    by blast
  obtain i s1 where al: "allocateInode s p False name = Some (i, s1)" "fs_inv n s1"
      "findInode s i = None" "\<And>j. findInode s1 j = (if j = i then Some (new_node False p)
       else if j = p then Some (pn\<lparr>fn_children := AList.update name i (fn_children pn)\<rparr>)
       else findInode s j)"
    using allocateInode_ok [OF inv pn, of False] by metis
  have res: "fs_create s p name mode = Some (ReplyCreate \<lparr>e_ino = i, e_mode = S_IFREG OR (mode AND 0x1FF), e_nlink = 1, e_size = 0\<rparr>, s1)"
    using pn al(1) by (simp add: fs_create_def)
  show ?thesis
    by (rule followsI [OF res al(2), where new = i])
      (use pn al(3) in \<open>auto simp: follow_defs al(4) new_node_def AList.update_conv'\<close>)
next
  case False
  then show ?thesis
    using inv by (cases "findInode s p")
      (auto simp: fs_create_def follow_defs intro!: follows_same)
qed

lemma fs_mkdir_follows:
  assumes inv: "fs_inv (Suc n) s"
  shows "follows n (Mkdir p name mode) s (fs_mkdir s p name mode)"
proof (cases "\<exists>pn. findInode s p = Some pn \<and> fn_dir pn \<and> map_of (fn_children pn) name = None")
  case True
  then obtain pn where pn: "findInode s p = Some pn" "fn_dir pn" "map_of (fn_children pn) name = None"
    by blast
  obtain i s1 where al: "allocateInode s p True name = Some (i, s1)" "fs_inv n s1"
      "findInode s i = None" "\<And>j. findInode s1 j = (if j = i then Some (new_node True p)
       else if j = p then Some (pn\<lparr>fn_children := AList.update name i (fn_children pn)\<rparr>)
       else findInode s j)"
    using allocateInode_ok [OF inv pn, of True] by metis
  have res: "fs_mkdir s p name mode = Some (ReplyEntry \<lparr>e_ino = i, e_mode = S_IFDIR OR (mode AND 0x1FF), e_nlink = 2, e_size = 0\<rparr>, s1)"
    using pn al(1) by (simp add: fs_mkdir_def)
  show ?thesis
    by (rule followsI [OF res al(2), where new = i])
      (use pn al(3) in \<open>auto simp: follow_defs al(4) new_node_def AList.update_conv'\<close>)
next
  case False
  then show ?thesis
    using inv by (cases "findInode s p")
      (auto simp: fs_mkdir_def follow_defs intro!: follows_same)
qed

lemma fs_unlink_follows:
  assumes inv: "fs_inv (Suc n) s"
  shows "follows n (Unlink p name) s (fs_unlink s p name)"
proof (cases "\<exists>pn c. findInode s p = Some pn \<and> fn_dir pn \<and> map_of (fn_children pn) name = Some c")
  case True
  then obtain pn c where pn: "findInode s p = Some pn" "fn_dir pn" "map_of (fn_children pn) name = Some c"
    by blast
  define s1 where "s1 = set_node (s\<lparr>sv_inodes := AList.delete c (sv_inodes s)\<rparr>) p
      (\<lambda>nd. nd\<lparr>fn_children := AList.delete name (fn_children nd)\<rparr>)"
  have res: "fs_unlink s p name = Some (ReplyErr 0, s1)"
    using pn by (simp add: fs_unlink_def s1_def Let_def)
  have look: "findInode s1 j = (if j = c then None
       else if j = p then Some (pn\<lparr>fn_children := AList.delete name (fn_children pn)\<rparr>)
       else findInode s j)" for j
    using pn by (simp add: s1_def)
  have "fs_inv n s1"
    by (rule fs_inv_remove [OF fs_inv_less [OF inv] pn(1) child_in [OF pn(3)] look])
      (use inv in \<open>auto simp: s1_def fs_inv_def distinct_delete simp flip: set_node_def\<close>)
  then show ?thesis
    by (rule followsI [OF res _ fs_inv_fresh [OF inv]]) (use pn in
      \<open>auto simp: follow_defs look map_of_delete\<close>)
next
  case False
  then show ?thesis
    using inv by (cases "findInode s p")
      (auto simp: fs_unlink_def follow_defs intro!: follows_same split: option.split)
qed

lemma map_of_no_entry: "(\<exists>nm. map_of xs nm \<noteq> None) \<longleftrightarrow> xs \<noteq> []"
  by (cases xs) (auto simp: map_of_eq_None_iff)

lemma fs_rmdir_follows:
  assumes inv: "fs_inv (Suc n) s"
  shows "follows n (Rmdir p name) s (fs_rmdir s p name)"
proof (cases "\<exists>pn c. findInode s p = Some pn \<and> fn_dir pn \<and> map_of (fn_children pn) name = Some c")
  case True
  then obtain pn c where pn: "findInode s p = Some pn" "fn_dir pn" "map_of (fn_children pn) name = Some c"
    by blast
  obtain cn where cn: "findInode s c = Some cn"
    using fs_inv_child [OF inv pn(1) child_in [OF pn(3)]] by blast
  show ?thesis
  proof (cases "fn_dir cn \<and> fn_children cn = []")
    case True
    then have res: "fs_rmdir s p name = Some (ReplyErr 0, forgetInode s c)"
      using pn cn by (simp add: fs_rmdir_def)
    note forget = forgetInode_lookup [OF fs_inv_less [OF inv] pn(1) child_in [OF pn(3)]]
    show ?thesis
      by (rule followsI [OF res forget(2) fs_inv_fresh [OF inv]]) (use True pn cn in
        \<open>auto simp: follow_defs forget(1) map_of_delete\<close>)
  next
    case False
    then show ?thesis
      using pn cn inv map_of_no_entry [of "fn_children cn"]
      by (auto simp: fs_rmdir_def follow_defs intro!: follows_same)
  qed
next
  case False
  then show ?thesis
    using inv by (cases "findInode s p")
      (auto simp: fs_rmdir_def follow_defs intro!: follows_same split: option.split)
qed

subsection \<open>Handlers that change a file\<close>

lemma length_pwrite: "length (pwrite d off bs) = max (length d) (off + length bs)"
  by (simp add: pwrite_def)

lemma blit_pwrite:
  "blit (if length d < off + length bs then vec_resize d (off + length bs) 0 else d) off bs =
     Some (pwrite d off bs)"
  by (auto simp: blit_def pwrite_def vec_resize_def take_append min_def)

lemma vec_resize_ftruncate: "vec_resize d m 0 = ftruncate d m"
  by (simp add: vec_resize_def ftruncate_def min_def)

lemma length_ftruncate [simp]: "length (ftruncate d m) = m"
  by (simp add: ftruncate_def)

lemma fs_write_eq:
  assumes "findInode s i = Some nd" "\<not> fn_dir nd" "0 \<le> off"
    and "vec_can_grow al (nat off + length bs)"
  shows "fs_write al s i bs off =
    Some (ReplyWrite (length bs), set_node s i (\<lambda>n. n\<lparr>fn_data := pwrite (fn_data nd) (nat off) bs\<rparr>))"
proof -
  have lim: "nat off + length bs < 9223372036854775808"
    using assms(4) by (simp add: vec_can_grow_def vec_max_def)
  then have "off mod 18446744073709551616 = off" using assms(3) by (intro mod_pos_pos_trivial) linarith+
  then have "size_add (nat (off mod 2 ^ 64)) (length bs) = nat off + length bs"
    using lim by simp
  then show ?thesis
    using assms blit_pwrite [of "fn_data nd" "nat off" bs]
    by (auto simp: fs_write_def Let_def split: if_splits)
qed

lemma fs_write_follows:
  assumes inv: "fs_inv (Suc n) s" and ok: "0 \<le> off" "vec_can_grow al (nat off + length bs)"
  shows "follows n (Write i bs off) s (fs_write al s i bs off)"
proof (cases "\<exists>nd. findInode s i = Some nd \<and> \<not> fn_dir nd")
  case True
  then obtain nd where nd: "findInode s i = Some nd" "\<not> fn_dir nd" by blast
  have "length (pwrite (fn_data nd) (nat off) bs) \<le> vec_max"
    using fs_inv_node [OF inv nd(1)] ok(2) by (simp add: length_pwrite node_ok_def vec_can_grow_def)
  from fs_inv_set_data [OF fs_inv_less [OF inv] nd this] show ?thesis
    by (rule followsI [OF fs_write_eq [OF nd ok] _ fs_inv_fresh [OF inv]]) (use nd in
      \<open>auto simp: follow_defs\<close>)
next
  case False
  then show ?thesis
    using inv by (cases "findInode s i") (auto simp: fs_write_def follow_defs intro!: follows_same)
qed

lemma set_node_same: "findInode s i = Some nd \<Longrightarrow> findInode (set_node s i (\<lambda>n. n\<lparr>fn_data := fn_data nd\<rparr>)) j = findInode s j"
  by simp

lemma fs_inv_same:
  assumes "fs_inv n s" "findInode s i = Some nd"
  shows "fs_inv n (set_node s i (\<lambda>n. n\<lparr>fn_data := fn_data nd\<rparr>))"
proof -
  let ?s = "set_node s i (\<lambda>n. n\<lparr>fn_data := fn_data nd\<rparr>)"
  have "findInode ?s j = findInode s j" for j using assms(2) by simp
  moreover have "node_ok ?s = node_ok s" using calculation by (intro ext) (simp add: node_ok_def)
  ultimately show ?thesis using assms(1) by (simp add: fs_inv_def fresh_ok_def)
qed

lemma fs_setattr_follows:
  assumes inv: "fs_inv (Suc n) s" and ok: "vec_can_grow al (nat (at_size attr))"
  shows "follows n (Setattr i attr to_set) s
    (map_option (\<lambda>(r, attr1, s1). (r, s1)) (fs_setattr al s i attr to_set))"
proof (cases "findInode s i")
  case None
  then show ?thesis using inv by (auto simp: fs_setattr_def follow_defs intro!: follows_same)
next
  case (Some nd)
  consider (none) "to_set AND FUSE_SET_ATTR_SIZE = 0"
    | (err) "to_set AND FUSE_SET_ATTR_SIZE \<noteq> 0" "fn_dir nd \<or> at_size attr < 0"
    | (size) "to_set AND FUSE_SET_ATTR_SIZE \<noteq> 0" "\<not> fn_dir nd" "0 \<le> at_size attr"
    by linarith
  then show ?thesis
  proof cases
    case none
    have "fn_dir nd \<Longrightarrow> fn_data nd = []"
      using fs_inv_node [OF inv Some] by (simp add: node_ok_def)
    then show ?thesis
      using none Some inv
      by (intro followsI [OF _ fs_inv_same [OF fs_inv_less [OF inv] Some] fs_inv_fresh [OF inv],
            where r = "ReplyAttr (node_stat i (nd\<lparr>fn_data := fn_data nd\<rparr>))"])
        (auto simp: fs_setattr_def follow_defs node_stat_def)
  next
    case err
    then show ?thesis
      using Some inv by (auto simp: fs_setattr_def follow_defs intro!: follows_same)
  next
    case size
    let ?d = "ftruncate (fn_data nd) (nat (at_size attr))"
    have "length ?d \<le> vec_max" using ok by (simp add: vec_can_grow_def)
    from fs_inv_set_data [OF fs_inv_less [OF inv] Some size(2) this] show ?thesis
      by (rule followsI [OF _ _ fs_inv_fresh [OF inv],
            where r = "ReplyAttr (node_stat i (nd\<lparr>fn_data := ?d\<rparr>))", rotated]) (use size Some ok in
        \<open>auto simp: fs_setattr_def follow_defs node_stat_def vec_resize_ftruncate Let_def\<close>)
  qed
qed

lemma fs_apply_follows:
  "fs_call_ok ev x \<Longrightarrow> fs_inv (Suc n) s \<Longrightarrow> follows n x s (fs_apply ev x s)"
  by (cases x) (simp_all add: fs_getattr_follows fs_lookup_follows fs_create_follows fs_unlink_follows
      fs_open_follows fs_read_follows fs_write_follows fs_statfs_follows fs_setattr_follows
      fs_mkdir_follows fs_rmdir_follows fs_getxattr_follows)

interpretation fs: refined_ops "fs_apply ev" "fs_call_ok ev" fs_inv fs_abs reply_abs fs_spec_step for ev
proof
  fix x n s
  assume a: "fs_call_ok ev x" "fs_inv (Suc n) s"
  show "\<exists>r s1. fs_apply ev x s = Some (r, s1) \<and> fs_inv n s1"
    using fs_apply_follows [OF a] by (auto simp: follows_def)
  show "fs_spec_step x (fs_abs s) (reply_abs r) (fs_abs s1)" if "fs_apply ev x s = Some (r, s1)" for r s1
    using fs_apply_follows [OF a] that by (auto simp: follows_def)
qed

subsection \<open>Directory listings\<close>

fun child_dirents :: "server \<Rightarrow> int \<Rightarrow> (string \<times> ino) list \<Rightarrow> dirent list" where
  "child_dirents s cur [] = []"
| "child_dirents s cur ((name, c) # rest) =
     \<lparr>de_name = name, de_ino = c,
      de_mode = (case findInode s c of Some nd \<Rightarrow> if fn_dir nd then S_IFDIR else S_IFREG | None \<Rightarrow> 0),
      de_off = cur + 1\<rparr> # child_dirents s (cur + 1) rest"

definition dirents :: "server \<Rightarrow> ino \<Rightarrow> fnode \<Rightarrow> (string \<times> ino) list \<Rightarrow> dirent list" where
  \<comment> \<open>the whole listing of a directory whose children come in the given order\<close>
  "dirents s i nd ch =
     \<lparr>de_name = ''.'', de_ino = i, de_mode = S_IFDIR OR 0x1ED, de_off = 1\<rparr> #
     \<lparr>de_name = ''..'', de_ino = fn_parent nd, de_mode = S_IFDIR OR 0x1ED, de_off = 2\<rparr> #
     child_dirents s 2 ch"

definition space :: "(string \<Rightarrow> nat) \<Rightarrow> dirent list \<Rightarrow> nat" where
  "space ent es = sum_list (map (\<lambda>e. ent (de_name e)) es)"

lemma space_simps [simp]:
  "space ent [] = 0" "space ent (e # es) = ent (de_name e) + space ent es"
  "space ent (es @ es') = space ent es + space ent es'"
  by (simp_all add: space_def)

lemma space_drop: "space ent (drop k es) \<le> space ent es"
  by (metis append_take_drop_id le_add2 space_simps(3))

lemma child_dirents_simps [simp]:
  "length (child_dirents s cur ch) = length ch"
  "map de_name (child_dirents s cur ch) = map fst ch"
  by (induction s cur ch rule: child_dirents.induct) auto

lemma child_dirents_off: "k < length ch \<Longrightarrow> de_off (child_dirents s cur ch ! k) = cur + 1 + int k"
  by (induction s cur ch arbitrary: k rule: child_dirents.induct) (auto simp: nth_Cons split: nat.split)

lemma add_dirent_fits:
  "pos + ent (de_name e) \<le> sz \<Longrightarrow>
     add_dirent ent sz (pos, out) e = Some (pos + ent (de_name e), out @ [e])"
  by (simp add: add_dirent_def Let_def)

lemma add_dirent_skips:
  "pos \<le> sz \<Longrightarrow> sz < pos + ent (de_name e) \<Longrightarrow> pos + ent (de_name e) < 2 ^ 64 \<Longrightarrow>
     add_dirent ent sz (pos, out) e = Some (pos + ent (de_name e), out)"
  by (auto simp: add_dirent_def Let_def)

lemma add_dirent_overruns:
  "sz < pos \<Longrightarrow> pos + ent (de_name e) < 2 ^ 64 \<Longrightarrow> add_dirent ent sz (pos, out) e = None"
  by (simp add: add_dirent_def size_sub_def Let_def)

lemma readdir_loop_cons:
  assumes "findInode s c = Some nd" "cur < 2 ^ 31 - 1"
  shows "readdir_loop ent s sz off ((name, c) # rest) cur acc =
    (if off \<le> cur then do {
        acc1 \<leftarrow> add_dirent ent sz acc (hd (child_dirents s cur ((name, c) # rest)));
        if sz \<le> fst acc1 then Some acc1 else readdir_loop ent s sz off rest (cur + 1) acc1 }
     else readdir_loop ent s sz off rest (cur + 1) acc)"
  using assms by simp

lemma readdir_loop_fits:
  assumes "\<forall>(name, c) \<in> set ch. findInode s c \<noteq> None" "cur + int (length ch) < 2 ^ 31"
    and "\<And>name. 0 < ent name"
    and "pos + space ent (drop (nat (off - cur)) (child_dirents s cur ch)) \<le> sz"
  shows "readdir_loop ent s sz off ch cur (pos, out) =
    Some (pos + space ent (drop (nat (off - cur)) (child_dirents s cur ch)),
          out @ drop (nat (off - cur)) (child_dirents s cur ch))"
  using assms
proof (induction ch arbitrary: cur pos out)
  case Nil
  then show ?case by simp
next
  case (Cons x rest)
  obtain name c where x: "x = (name, c)" by fastforce
  obtain nd where nd: "findInode s c = Some nd" using Cons.prems(1) x by auto
  have cur: "cur < 2 ^ 31 - 1" "cur + 1 + int (length rest) < 2 ^ 31" using Cons.prems(2) by simp_all
  have ch: "\<forall>(name, c) \<in> set rest. findInode s c \<noteq> None" using Cons.prems(1) by simp
  note step = readdir_loop_cons [OF nd cur(1), of ent sz off name rest]
  note IH = Cons.IH [OF ch cur(2) Cons.prems(3)]
  show ?case
  proof (cases "off \<le> cur")
    case True
    let ?e = "hd (child_dirents s cur (x # rest))"
    have sp: "pos + ent (de_name ?e) + space ent (child_dirents s (cur + 1) rest) \<le> sz"
      using Cons.prems(4) True x by simp
    have add: "add_dirent ent sz (pos, out) ?e = Some (pos + ent (de_name ?e), out @ [?e])"
      using sp by (intro add_dirent_fits) simp
    have es: "child_dirents s cur (x # rest) = ?e # child_dirents s (cur + 1) rest" by (simp add: x)
    show ?thesis
    proof (cases "sz \<le> pos + ent (de_name ?e)")
      case full: True
      then have "space ent (child_dirents s (cur + 1) rest) = 0" using sp by simp
      then have "rest = []" using Cons.prems(3) by (cases rest) (auto simp: less_not_refl2)
      with True add full x show ?thesis
        by (simp add: readdir_loop_cons [OF nd cur(1)] del: readdir_loop.simps(2))
    next
      case False
      with True add x IH [of "pos + ent (de_name ?e)" "out @ [?e]"] sp show ?thesis
        by (simp add: step del: readdir_loop.simps(2))
    qed
  next
    case False
    then have n: "nat (off - cur) = Suc (nat (off - (cur + 1)))" by simp
    then show ?thesis
      using False x IH [of pos out] Cons.prems(4) by (simp add: step del: readdir_loop.simps(2))
  qed
qed

lemma readdir_loop_overrun:
  "sz < pos \<Longrightarrow> pos + space ent (child_dirents s cur ch) < 2 ^ 64 \<Longrightarrow>
     \<forall>a. readdir_loop ent s sz off ch cur (pos, out) = Some a \<longrightarrow> sz < fst a"
proof (induction ch arbitrary: cur)
  case Nil
  then show ?case by simp
next
  case (Cons x rest)
  obtain name c where x: "x = (name, c)" by fastforce
  have "add_dirent ent sz (pos, out) e = None" if "de_name e = name" for e
    using Cons.prems x that by (intro add_dirent_overruns) simp_all
  moreover have "\<forall>a. readdir_loop ent s sz off rest (cur + 1) (pos, out) = Some a \<longrightarrow> sz < fst a"
    using Cons.prems x by (intro Cons.IH) simp_all
  ultimately show ?case by (auto simp: x split: Option.bind_splits)
qed

lemma readdir_loop_partial:
  assumes "pos + space ent (take k (drop (nat (off - cur)) (child_dirents s cur ch))) < sz"
    and "sz < pos + space ent (take (Suc k) (drop (nat (off - cur)) (child_dirents s cur ch)))"
    and "pos + space ent (child_dirents s cur ch) < 2 ^ 64"
  shows "\<forall>a. readdir_loop ent s sz off ch cur (pos, out) = Some a \<longrightarrow> sz < fst a"
  using assms
proof (induction ch arbitrary: cur pos out k)
  case Nil
  then show ?case by simp
next
  case (Cons x rest)
  obtain name c where x: "x = (name, c)" by fastforce
  show ?case
  proof (cases "off \<le> cur")
    case True
    let ?es = "child_dirents s (cur + 1) rest"
    have e: "drop (nat (off - cur)) (child_dirents s cur (x # rest)) =
        hd (child_dirents s cur (x # rest)) # ?es" using True x by simp
    show ?thesis
    proof (cases k)
      case 0
      have "add_dirent ent sz (pos, out) e = Some (pos + ent name, out)" if "de_name e = name" for e
        using Cons.prems x 0 True that by (subst add_dirent_skips) auto
      then show ?thesis using Cons.prems True x 0 by (auto split: Option.bind_splits)
    next
      case (Suc j)
      have n: "nat (off - (cur + 1)) = 0" using True by simp
      have sp: "pos + ent name + space ent (take j ?es) < sz"
          "sz < pos + ent name + space ent (take (Suc j) ?es)"
          "pos + ent name + space ent ?es < 2 ^ 64"
        using Cons.prems True x Suc by simp_all
      then have "\<forall>a. readdir_loop ent s sz off rest (cur + 1) (pos + ent name, out') = Some a
          \<longrightarrow> sz < fst a" for out'
        by (intro Cons.IH [where k = j]) (simp_all add: n)
      moreover have "add_dirent ent sz (pos, out) e = Some (pos + ent name, out @ [e])"
        if "de_name e = name" for e
        using sp that by (subst add_dirent_fits) auto
      ultimately show ?thesis using sp True by (auto simp: x split: Option.bind_splits if_splits)
    qed
  next
    case False
    then have n: "nat (off - cur) = Suc (nat (off - (cur + 1)))" by simp
    have "\<forall>a. readdir_loop ent s sz off rest (cur + 1) (pos, out) = Some a \<longrightarrow> sz < fst a"
      using Cons.prems x n by (intro Cons.IH [where k = k]) simp_all
    with False show ?thesis by (auto simp: x)
  qed
qed

lemma fs_inv_child_lookup:
  "fs_inv n s \<Longrightarrow> findInode s i = Some nd \<Longrightarrow> \<forall>(name, c) \<in> set (fn_children nd). findInode s c \<noteq> None"
  using fs_inv_child [of n s i nd] by fast

lemma fs_readdir_fits:
  assumes "fs_inv n s" "findInode s i = Some nd" "fn_dir nd" "0 \<le> off" "\<And>name. 0 < ent name"
    and "set (iter (fn_children nd)) = set (fn_children nd)"
    and "length (iter (fn_children nd)) < 2 ^ 31 - 2"
    and "space ent (drop (nat off) (dirents s i nd (iter (fn_children nd)))) \<le> sz"
  shows "fs_readdir ent iter s i sz off =
    Some (ReplyDirents (drop (nat off) (dirents s i nd (iter (fn_children nd)))), s)"
proof -
  let ?ch = "iter (fn_children nd)"
  have ch: "\<forall>(name, c) \<in> set ?ch. findInode s c \<noteq> None"
    unfolding assms(6) using assms(1,2) by (rule fs_inv_child_lookup)
  have cur: "2 + int (length ?ch) < 2 ^ 31" using assms(7) by simp
  note loop = readdir_loop_fits [OF ch cur assms(5)]
  consider "off = 0" | "off = 1" | "2 \<le> off" using assms(4) by linarith
  then show ?thesis
  proof cases
    case 1
    then show ?thesis
      using assms(2,3,8) loop [where pos = "ent ''.'' + ent ''..''" and off = off and sz = sz]
      by (simp add: fs_readdir_def dirents_def add_dirent_fits)
  next
    case 2
    then show ?thesis
      using assms(2,3,8) loop [where pos = "ent ''..''" and off = off and sz = sz]
      by (simp add: fs_readdir_def dirents_def add_dirent_fits)
  next
    case 3
    then have "nat off = Suc (Suc (nat (off - 2)))" by simp
    with 3 show ?thesis
      using assms(2,3,8) loop [where pos = 0 and off = off and sz = sz]
      by (simp add: fs_readdir_def dirents_def)
  qed
qed

lemma fs_readdir_overrun:
  assumes "findInode s i = Some nd" "fn_dir nd" "0 \<le> off"
    and es: "es = drop (nat off) (dirents s i nd (iter (fn_children nd)))"
    and "space ent (take k es) < sz" "sz < space ent (take (Suc k) es)"
    and lim: "space ent (dirents s i nd (iter (fn_children nd))) < 2 ^ 64"
  shows "fs_readdir ent iter s i sz off = None"
proof -
  let ?ch = "iter (fn_children nd)"
  have kids: "sz < a"
    if "readdir_loop ent s sz f ?ch 2 (pos, out) = Some (a, b)" "pos + space ent (take j (drop (nat (f - 2)) (child_dirents s 2 ?ch))) < sz"
      "sz < pos + space ent (take (Suc j) (drop (nat (f - 2)) (child_dirents s 2 ?ch)))" "pos + space ent (child_dirents s 2 ?ch) < 2 ^ 64"
    for pos out j a b f
    using readdir_loop_partial [OF that(2-4)] that(1) by fastforce
  have over: "sz < a"
    if "readdir_loop ent s sz f ?ch 2 (pos, out) = Some (a, b)" "sz < pos"
      "pos + space ent (child_dirents s 2 ?ch) < 2 ^ 64" for pos out a b f
    using readdir_loop_overrun [OF that(2,3)] that(1) by fastforce
  note defs = fs_readdir_def dirents_def add_dirent_fits add_dirent_skips add_dirent_overruns
  consider "off = 0" "k = 0" | "off = 0" "k = 1" | "off = 0" "2 \<le> k" | "off = 1" "k = 0"
    | "off = 1" "1 \<le> k" | "2 \<le> off" using assms(3) by linarith
  then show ?thesis
  proof cases
    case 1
    then show ?thesis using assms by (simp add: defs)
  next
    case 2
    then show ?thesis
      using assms by (auto simp: defs split: Option.bind_splits dest: over)
  next
    case 3
    then obtain j where "k = Suc (Suc j)" by (auto simp: numeral_2_eq_2 dest!: le_Suc_ex)
    with 3 show ?thesis
      using assms by (auto simp: defs split: Option.bind_splits dest: kids [where j = j])
  next
    case 4
    then show ?thesis
      using assms by (auto simp: defs split: Option.bind_splits dest: over)
  next
    case 5
    then obtain j where "k = Suc j" by (cases k) auto
    with 5 show ?thesis
      using assms by (auto simp: defs split: Option.bind_splits dest: kids [where j = j])
  next
    case 6
    then have "nat off = Suc (Suc (nat (off - 2)))" by simp
    with 6 show ?thesis
      using assms by (auto simp: defs split: Option.bind_splits dest: kids [where j = k])
  qed
qed

subsection \<open>Properties\<close>

definition abs_init :: afs where
  "abs_init = Map.empty(1 \<mapsto> ADir Map.empty)"

lemma fs_abs_init: "fs_abs server_init = abs_init"
  by (rule ext) (simp add: fs_abs_def findInode_def server_init_def abs_init_def obj_abs_def new_node_def)

lemma fs_run_init:
  assumes "list_all (fs_call_ok ev) xs" "length xs < 2 ^ 62"
  shows "\<exists>rs s1. run_ops (fs_apply ev) xs server_init = Some (rs, s1) \<and> fs_inv 0 s1
    \<and> spec_run fs_spec_step xs abs_init (map reply_abs rs) (fs_abs s1)"
  using fs.run_safe_refines [OF assms(1), of 0 server_init] fs_inv_init [of "length xs"] assms(2)
  by (simp add: fs_abs_init)

abbreviation demo_env :: fuse_env where
  "demo_env \<equiv> \<lparr>fe_alloc = (\<lambda>_. True), fe_entsize = (\<lambda>name. 24 + length name), fe_iter = rev\<rparr>"

text \<open>C3: Fewer than 2^62 FUSE requests other than readdir, sent to a fresh server in any order, with
  any arguments the kernel may pass, are all answered, and the replies and the tree are those of a run
  of the file system's specification, in which a new object gets an unused inode.\<close>

theorem fs_requests_refine_spec:
  assumes "list_all (fs_call_ok ev) xs" "length xs < 2 ^ 62"
  shows "\<exists>rs s1. run_ops (fs_apply ev) xs server_init = Some (rs, s1)
    \<and> spec_run fs_spec_step xs abs_init (map reply_abs rs) (fs_abs s1)"
  using fs_run_init [OF assms] by blast

theorem fs_requests_refine_spec_witness:
  "\<exists>rs s1. run_ops (fs_apply demo_env)
      [Mkdir 1 ''d'' 511, Create 3 ''f'' 420, Write 2 [7] 3, Read 2 9 0, Rmdir 1 ''d''] server_init =
        Some (rs, s1)
    \<and> spec_run fs_spec_step
      [Mkdir 1 ''d'' 511, Create 3 ''f'' 420, Write 2 [7] 3, Read 2 9 0, Rmdir 1 ''d''] abs_init
        (map reply_abs rs) (fs_abs s1)"
  by (rule fs_requests_refine_spec) (simp_all add: vec_can_grow_def vec_max_def)

text \<open>C21: After any such sequence of requests every directory entry belongs to a directory and leads to
  an existing inode whose parent is that directory, no inode has two entries in a directory, and the
  root is there.\<close>

theorem fs_tree_stays_well_formed:
  assumes "list_all (fs_call_ok ev) xs" "length xs < 2 ^ 62"
    and "run_ops (fs_apply ev) xs server_init = Some (rs, s)"
  shows "(\<exists>r. findInode s 1 = Some r \<and> fn_dir r)
    \<and> (\<forall>i nd. findInode s i = Some nd \<longrightarrow> distinct (map snd (fn_children nd)) \<and>
        (\<forall>name c. (name, c) \<in> set (fn_children nd) \<longrightarrow>
          fn_dir nd \<and> (\<exists>cn. findInode s c = Some cn \<and> fn_parent cn = i)))"
proof -
  have inv: "fs_inv 0 s" using fs_run_init [OF assms(1,2)] assms(3) by auto
  then have "node_ok s i nd" if "findInode s i = Some nd" for i nd using fs_inv_node that by blast
  with inv show ?thesis unfolding fs_inv_def node_ok_def by (metis empty_iff list.set(1))
qed

theorem fs_tree_stays_well_formed_witness:
  "\<exists>rs s. run_ops (fs_apply demo_env) [Mkdir 1 ''d'' 511, Create 3 ''f'' 420] server_init = Some (rs, s)
    \<and> (\<exists>r. findInode s 1 = Some r \<and> fn_dir r)"
proof -
  have ok: "list_all (fs_call_ok demo_env) [Mkdir 1 ''d'' 511, Create 3 ''f'' 420]" by simp
  obtain rs s where "run_ops (fs_apply demo_env) [Mkdir 1 ''d'' 511, Create 3 ''f'' 420] server_init =
      Some (rs, s)"
    using fs_run_init [OF ok] by auto
  with fs_tree_stays_well_formed [OF ok _ this] show ?thesis by auto
qed

lemma pwrite_nth:
  "k < length d \<Longrightarrow> k < off \<or> off + length bs \<le> k \<Longrightarrow> pwrite d off bs ! k = d ! k"
  by (auto simp: pwrite_def nth_append min_def)

text \<open>C30: A write stores the bytes where it says: reading as many bytes at the same offset returns them,
  the other bytes of the file and all other inodes are as before, and the file is as long as needed.\<close>

theorem fs_write_then_read:
  assumes "fs_inv n s" "findInode s i = Some nd" "\<not> fn_dir nd" "0 \<le> off"
    and "vec_can_grow al (nat off + length bs)"
  shows "\<exists>s1 d. fs_write al s i bs off = Some (ReplyWrite (length bs), s1)
    \<and> fs_read s1 i (length bs) off = Some (ReplyBuf bs, s1)
    \<and> findInode s1 i = Some (nd\<lparr>fn_data := d\<rparr>)
    \<and> length d = max (length (fn_data nd)) (nat off + length bs)
    \<and> (\<forall>k < length (fn_data nd). k < nat off \<or> nat off + length bs \<le> k \<longrightarrow> d ! k = fn_data nd ! k)
    \<and> (\<forall>j. j \<noteq> i \<longrightarrow> findInode s1 j = findInode s j)"
proof -
  let ?d = "pwrite (fn_data nd) (nat off) bs"
  let ?s = "set_node s i (\<lambda>n. n\<lparr>fn_data := ?d\<rparr>)"
  have len: "length ?d = max (length (fn_data nd)) (nat off + length bs)" by (simp add: length_pwrite)
  have "length ?d \<le> vec_max"
    using fs_inv_node [OF assms(1,2)] assms(5) by (simp add: len node_ok_def vec_can_grow_def)
  then have "length ?d < 9223372036854775808" by (simp add: vec_max_def)
  then have m: "off < int (length ?d) \<Longrightarrow> off mod 18446744073709551616 = off"
    using assms(4) by (intro mod_pos_pos_trivial) linarith+
  have tk: "take (length bs) (drop (nat off) ?d) = bs"
    by (simp add: pwrite_def min_def)
  have mn: "min (length bs) (length ?d - nat off) = length bs" by (simp add: len)
  have "fs_read ?s i (length bs) off = Some (ReplyBuf bs, ?s)"
  proof (cases "int (length ?d) \<le> off")
    case True
    moreover have "nat off + length bs \<le> length ?d" by (simp add: len)
    ultimately have "bs = []" using assms(4) by (simp flip: length_0_conv)
    with True assms(2,3) show ?thesis by (simp add: fs_read_def)
  next
    case False
    then have "nat off \<le> length ?d" "nat off + length bs \<le> length ?d" by (simp_all add: len)
    with False m assms(2-4) tk mn show ?thesis
      by (simp add: fs_read_def Let_def vec_slice_def)
  qed
  with fs_write_eq [OF assms(2-5)] len assms(2) show ?thesis
    by (intro exI [of _ ?s] exI [of _ ?d]) (simp add: pwrite_nth)
qed

definition demo_server :: server where
  \<comment> \<open>a directory \<open>d\<close> under the root with a file \<open>f\<close> in it\<close>
  "demo_server =
     \<lparr>sv_inodes = [(1, (new_node True 1)\<lparr>fn_children := [(''d'', 3)]\<rparr>),
        (3, (new_node True 1)\<lparr>fn_children := [(''f'', 2)]\<rparr>),
        (2, (new_node False 3)\<lparr>fn_data := [1, 2, 3]\<rparr>)],
      sv_next_file = 4, sv_next_dir = 5\<rparr>"

lemma demo_server_lookup:
  "findInode demo_server 1 = Some ((new_node True 1)\<lparr>fn_children := [(''d'', 3)]\<rparr>)"
  "findInode demo_server (Suc 0) = Some ((new_node True 1)\<lparr>fn_children := [(''d'', 3)]\<rparr>)"
  "findInode demo_server 3 = Some ((new_node True 1)\<lparr>fn_children := [(''f'', 2)]\<rparr>)"
  "findInode demo_server 2 = Some ((new_node False 3)\<lparr>fn_data := [1, 2, 3]\<rparr>)"
  by (simp_all add: demo_server_def findInode_def)

lemma demo_server_inv: "fs_inv 0 demo_server"
  by (auto simp: fs_inv_def fresh_ok_def node_ok_def demo_server_def findInode_def new_node_def
      vec_max_def split: if_splits)

lemma new_node_simps [simp]:
  "fn_dir (new_node d p) = d" "fn_parent (new_node d p) = p" "fn_data (new_node d p) = []"
  "fn_children (new_node d p) = []"
  by (simp_all add: new_node_def)

theorem fs_write_then_read_witness:
  "\<exists>s1 d. fs_write (\<lambda>_. True) demo_server 2 [9] 4 = Some (ReplyWrite (length [9 :: u8]), s1)
    \<and> fs_read s1 2 (length [9 :: u8]) 4 = Some (ReplyBuf [9], s1) \<and> length d = 5 \<and> d ! 0 = 1
    \<and> findInode s1 2 = Some ((new_node False 3)\<lparr>fn_data := d\<rparr>)"
proof -
  obtain s1 d where "fs_write (\<lambda>_. True) demo_server 2 [9] 4 = Some (ReplyWrite (length [9 :: u8]), s1)"
      "fs_read s1 2 (length [9 :: u8]) 4 = Some (ReplyBuf [9], s1)"
      "findInode s1 2 = Some ((new_node False 3)\<lparr>fn_data := [1, 2, 3], fn_data := d\<rparr>)"
      "length d = 5" "\<forall>k < 3. d ! k = [1, 2, 3] ! k"
    using fs_write_then_read [OF demo_server_inv demo_server_lookup(4), of 4 "\<lambda>_. True" "[9]"]
    by (auto simp: vec_can_grow_def vec_max_def)
  then show ?thesis by (intro exI [of _ s1] exI [of _ d]) simp
qed

text \<open>When the entries from the offset on fit into the buffer, readdir lists exactly the directory:
  \<open>.\<close> and \<open>..\<close>, then every child once, in the order of iteration, with the attributes of the inode it
  leads to; the offset of an entry is one more than its position, so a listing resumes after it.\<close>

theorem fs_readdir_lists:
  assumes "fs_inv n s" "findInode s i = Some nd" "fn_dir nd" "0 \<le> off" "\<And>name. 0 < ent name"
    and "set (iter (fn_children nd)) = set (fn_children nd)"
    and "length (iter (fn_children nd)) < 2 ^ 31 - 2"
    and "space ent (drop (nat off) (dirents s i nd (iter (fn_children nd)))) \<le> sz"
  shows "fs_readdir ent iter s i sz off =
      Some (ReplyDirents (drop (nat off) (dirents s i nd (iter (fn_children nd)))), s)
    \<and> map de_name (dirents s i nd (iter (fn_children nd))) =
        ''.'' # ''..'' # map fst (iter (fn_children nd))
    \<and> (\<forall>k < length (dirents s i nd (iter (fn_children nd))).
        de_off (dirents s i nd (iter (fn_children nd)) ! k) = int k + 1)"
proof -
  have "de_off (dirents s i nd ch ! k) = int k + 1" if "k < length (dirents s i nd ch)" for k ch
  proof -
    show ?thesis
    proof (cases k)
      case (Suc m)
      then show ?thesis using that by (cases m) (simp_all add: dirents_def child_dirents_off)
    qed (simp add: dirents_def)
  qed
  with fs_readdir_fits [OF assms(1-4), of ent iter, OF assms(5-8)] show ?thesis
    by (simp add: dirents_def)
qed

theorem fs_readdir_lists_witness:
  "fs_readdir (\<lambda>name. 24 + length name) rev demo_server 3 60 1 =
      Some (ReplyDirents (drop (nat 1) (dirents demo_server 3
        ((new_node True 1)\<lparr>fn_children := [(''f'', 2)]\<rparr>) [(''f'', 2)])), demo_server)"
  using fs_readdir_lists [OF demo_server_inv demo_server_lookup(3), of 1 "\<lambda>name. 24 + length name" rev 60]
  by (simp add: dirents_def)

text \<open>C39: When the first entry that does not fit into the buffer does not start at its very end, readdir
  counts it as stored and then stores, or replies with, bytes beyond the buffer: undefined behaviour.\<close>

theorem fs_readdir_overruns:
  assumes "findInode s i = Some nd" "fn_dir nd" "0 \<le> off"
    and "es = drop (nat off) (dirents s i nd (iter (fn_children nd)))"
    and "space ent (take k es) < sz" "sz < space ent (take (Suc k) es)"
    and "space ent (dirents s i nd (iter (fn_children nd))) < 2 ^ 64"
  shows "fs_readdir ent iter s i sz off = None"
  using assms by (rule fs_readdir_overrun)

theorem fs_readdir_overruns_witness:
  "fs_readdir (\<lambda>name. 24 + length name) rev demo_server 3 70 0 = None"
  by (rule fs_readdir_overruns [OF demo_server_lookup(3) _ _ refl, where k = "Suc (Suc 0)"])
    (simp_all add: dirents_def)

text \<open>\<open>rmdir\<close> refuses a directory that is not empty; \<open>unlink\<close> removes it all the same, and leaves what
  it contained in the inode table, where no directory leads to it any more.\<close>

theorem fs_unlink_orphans:
  assumes "fs_inv n s" "findInode s p = Some pn" "fn_dir pn" "(name, c) \<in> set (fn_children pn)"
    and "findInode s c = Some cn" "fn_dir cn" "(name', g) \<in> set (fn_children cn)" "g \<noteq> c"
  shows "fs_rmdir s p name = Some (ReplyErr ENOTEMPTY, s)
    \<and> (\<exists>s1. fs_unlink s p name = Some (ReplyErr 0, s1) \<and> findInode s1 c = None
        \<and> findInode s1 g \<noteq> None
        \<and> (\<forall>i nd nm. findInode s1 i = Some nd \<longrightarrow> (nm, g) \<notin> set (fn_children nd)))"
proof -
  have pk: "node_ok s p pn" using assms(1,2) by (rule fs_inv_node)
  then have nm: "map_of (fn_children pn) name = Some c"
    using assms(4) by (simp add: node_ok_def)
  have "fn_children cn \<noteq> []" using assms(7) by auto
  then have rm: "fs_rmdir s p name = Some (ReplyErr ENOTEMPTY, s)"
    using assms(2,3,5,6) nm by (simp add: fs_rmdir_def)
  obtain gn where gn: "findInode s g = Some gn" "fn_parent gn = c"
    using fs_inv_child [OF assms(1,5,7)] by blast
  define s1 where "s1 = set_node (s\<lparr>sv_inodes := AList.delete c (sv_inodes s)\<rparr>) p
      (\<lambda>nd. nd\<lparr>fn_children := AList.delete name (fn_children nd)\<rparr>)"
  have look: "findInode s1 j = (if j = c then None
       else if j = p then Some (pn\<lparr>fn_children := AList.delete name (fn_children pn)\<rparr>)
       else findInode s j)" for j
    using assms(2) by (simp add: s1_def)
  have ul: "fs_unlink s p name = Some (ReplyErr 0, s1)"
    using assms(2,3) nm by (simp add: fs_unlink_def s1_def Let_def)
  have "(nm, g) \<notin> set (fn_children nd)" if nd: "findInode s1 i = Some nd" for i nd nm
  proof
    assume g: "(nm, g) \<in> set (fn_children nd)"
    have i: "i \<noteq> c" using nd look by auto
    obtain nd0 where "findInode s i = Some nd0" "(nm, g) \<in> set (fn_children nd0)"
      using nd g assms(2) i by (cases "i = p") (auto simp: look AList.delete_eq)
    then have "fn_parent gn = i" using fs_inv_child [OF assms(1)] gn(1) by fastforce
    with gn(2) i show False by simp
  qed
  moreover have "findInode s1 g \<noteq> None" using assms(8) gn(1) by (simp add: look)
  ultimately show ?thesis using rm ul by (auto simp: look)
qed

theorem fs_unlink_orphans_witness:
  "fs_rmdir demo_server 1 ''d'' = Some (ReplyErr ENOTEMPTY, demo_server)
    \<and> (\<exists>s1. fs_unlink demo_server 1 ''d'' = Some (ReplyErr 0, s1) \<and> findInode s1 3 = None
        \<and> findInode s1 2 \<noteq> None)"
  using fs_unlink_orphans [OF demo_server_inv demo_server_lookup(1), of "''d''" 3 _ "''f''" 2]
  by (auto simp: demo_server_lookup)



text \<open>Once the session loop has been entered, \<open>run\<close> unmounts the file system and destroys the session
  exactly when the loop succeeds: when it fails, the exception leaves both behind.\<close>

theorem fs_run_cleanup:
  assumes "SessionLoop \<in> set (fst (fs_run ok mount))"
  shows "(SessionUnmount \<in> set (fst (fs_run ok mount)) \<longleftrightarrow> ok SessionLoop)
    \<and> (SessionDestroy \<in> set (fst (fs_run ok mount)) \<longleftrightarrow> ok SessionLoop)
    \<and> snd (fs_run ok mount) = (if ok SessionLoop then Inr () else Inl SessionLoopFailed)"
  using assms by (auto simp: fs_run_def Let_def split: if_splits)

theorem fs_run_cleanup_witness:
  "SessionUnmount \<notin> set (fst (fs_run (\<lambda>c. c \<noteq> SessionLoop) ''/mnt''))
    \<and> SessionDestroy \<notin> set (fst (fs_run (\<lambda>c. c \<noteq> SessionLoop) ''/mnt''))"
  using fs_run_cleanup [of "\<lambda>c. c \<noteq> SessionLoop" "''/mnt''"] by (simp add: fs_run_def)

end
