(* ===== verification/Watcher.thy ===== *)
theory Watcher
  imports Prelude "HOL-Library.Signed_Division"
begin

section \<open>The epoll event loop of the transports\<close>

text \<open>
  Models \<open>tasks/transport/event_watcher/event_watcher.hpp\<close> and \<open>.cpp\<close>: the two-level map of watch
  entries, \<open>handleWatch\<close> and \<open>handleUnwatch\<close>, the dispatch of \<open>loop\<close>, the task queue and the
  thread-local \<open>curr_\<close>. The watcher logs its calls of \<open>epoll_ctl\<close> (whose failures the code only
  prints); \<open>interest\<close> is the interest list those calls leave in the kernel. The ring that holds the
  tasks and the wait function are parameters. A user callback is a value of type \<open>'u\<close>; \<open>act\<close> says what
  it does to the rest of the world and which members of the watcher it calls, in order. As all of them
  run inline in the loop's thread, they are performed from a stack by \<open>ew_exec\<close>, which is \<open>None\<close>
  also when callbacks call each other for ever.
\<close>

unbundle bit_operations_syntax

subsection \<open>Watch entries\<close>

datatype wflag = RDONLY | WRONLY

fun flag_bit :: "wflag \<Rightarrow> u32" where
  "flag_bit RDONLY = 0x001"
| "flag_bit WRONLY = 0x004"

definition EPOLL_FAILED :: u32 where
  \<comment> \<open>\<open>EPOLLERR | EPOLLHUP | EPOLLRDHUP\<close>\<close>
  "EPOLL_FAILED = 0x008 OR 0x010 OR 0x2000"

datatype 'u wcb = Wakeup | User 'u

record 'u wentry =
  we_reader :: "'u wcb option"
  we_writer :: "'u wcb option"
  we_mask :: u32

definition empty_entry :: "'u wentry" where
  "empty_entry = \<lparr>we_reader = None, we_writer = None, we_mask = 0\<rparr>"

fun entry_cb :: "wflag \<Rightarrow> 'u wentry \<Rightarrow> 'u wcb option" where
  "entry_cb RDONLY e = we_reader e"
| "entry_cb WRONLY e = we_writer e"

fun set_entry_cb :: "wflag \<Rightarrow> 'u wcb option \<Rightarrow> 'u wentry \<Rightarrow> 'u wentry" where
  "set_entry_cb RDONLY c e = e\<lparr>we_reader := c\<rparr>"
| "set_entry_cb WRONLY c e = e\<lparr>we_writer := c\<rparr>"

subsection \<open>The two-level map\<close>

definition kBlockSize :: nat where "kBlockSize = 64"

type_synonym 'u blocks = "(int \<times> 'u wentry list) list"

definition getBlockAndIndex :: "int \<Rightarrow> int \<times> int" where
  "getBlockAndIndex fd = (fd sdiv int kBlockSize, fd smod int kBlockSize)"

definition fdmap_block :: "'u blocks \<Rightarrow> int \<Rightarrow> 'u wentry list" where
  \<comment> \<open>the array a block identifier stands for once \<open>block_.try_emplace\<close> has run\<close>
  "fdmap_block bs b = (case map_of bs b of None \<Rightarrow> replicate kBlockSize empty_entry | Some es \<Rightarrow> es)"

definition fdmap_put :: "'u blocks \<Rightarrow> int \<Rightarrow> 'u wentry \<Rightarrow> 'u blocks" where
  \<comment> \<open>a change through the reference to an entry\<close>
  "fdmap_put bs fd e =
     (let (b, off) = getBlockAndIndex fd in AList.update b ((fdmap_block bs b)[nat off := e]) bs)"

definition fdmap_try_emplace ::
  "'u blocks \<Rightarrow> int \<Rightarrow> 'u wentry \<Rightarrow> ('u wentry \<times> bool \<times> 'u blocks) option" where
  "fdmap_try_emplace bs fd v =
     (let (b, off) = getBlockAndIndex fd; es = fdmap_block bs b in
      if off < 0 then None
      else if we_mask (es ! nat off) = 0
        then Some (v, True, AList.update b (es[nat off := v]) bs)
        else Some (es ! nat off, False, AList.update b es bs))"

definition fdmap_fds :: "'u blocks \<Rightarrow> int list" where
  \<comment> \<open>the descriptors \<open>forEach\<close> visits; the order of the blocks is the table's\<close>
  "fdmap_fds bs =
     concat (map (\<lambda>(b, es). map (\<lambda>off. b * int kBlockSize + int off)
       (filter (\<lambda>off. we_mask (es ! off) \<noteq> 0) [0..<kBlockSize])) bs)"

subsection \<open>The watcher\<close>

datatype ctl_op = CtlAdd | CtlMod | CtlDel

type_synonym ctl = "ctl_op \<times> int \<times> u32"

record ('u, 'q) watcher =
  ew_evfd :: int
  ew_signalled :: bool \<comment> \<open>the event descriptor's counter is not zero\<close>
  ew_blocks :: "'u blocks"
  ew_ctls :: "ctl list"
  ew_queue :: 'q

definition event_clear :: "('u, 'q) watcher \<Rightarrow> ('u, 'q) watcher" where
  [simp]: "event_clear ew = ew\<lparr>ew_signalled := False\<rparr>"

definition event_signal :: "('u, 'q) watcher \<Rightarrow> ('u, 'q) watcher" where
  [simp]: "event_signal ew = ew\<lparr>ew_signalled := True\<rparr>"

definition handleFdWatchModeChange ::
  "('u, 'q) watcher \<Rightarrow> 'u wentry \<Rightarrow> int \<Rightarrow> ctl_op \<Rightarrow> ('u, 'q) watcher" where
  "handleFdWatchModeChange ew e fd op = ew\<lparr>ew_ctls := ew_ctls ew @ [(op, fd, we_mask e)]\<rparr>"

definition handleWatch ::
  "('u, 'q) watcher \<Rightarrow> int \<Rightarrow> wflag \<Rightarrow> 'u wcb \<Rightarrow> ('u, 'q) watcher option" where
  "handleWatch ew fd flag cb =
     do { (e, inserted, bs) \<leftarrow> fdmap_try_emplace (ew_blocks ew) fd empty_entry;
          let op = (if we_mask e = 0 then CtlAdd else CtlMod);
          let e1 = e\<lparr>we_mask := we_mask e OR flag_bit flag\<rparr>;
          let e2 = set_entry_cb flag (Some cb) e1;
          let ew1 = ew\<lparr>ew_blocks := fdmap_put bs fd e2\<rparr>;
          Some (if entry_cb flag e1 = None then handleFdWatchModeChange ew1 e2 fd op else ew1) }"

definition handleUnwatch :: "('u, 'q) watcher \<Rightarrow> int \<Rightarrow> wflag \<Rightarrow> ('u, 'q) watcher option" where
  "handleUnwatch ew fd flag =
     do { (e, inserted, bs) \<leftarrow> fdmap_try_emplace (ew_blocks ew) fd empty_entry;
          let e1 = e\<lparr>we_mask := we_mask e AND NOT (flag_bit flag)\<rparr>;
          let op = (if we_mask e1 = 0 then CtlDel else CtlMod);
          let e2 = set_entry_cb flag None e1;
          let ew1 = ew\<lparr>ew_blocks := fdmap_put bs fd e2\<rparr>;
          Some (if entry_cb flag e1 \<noteq> None then handleFdWatchModeChange ew1 e2 fd op else ew1) }"

definition handleUnwatchAll :: "('u, 'q) watcher \<Rightarrow> ('u, 'q) watcher" where
  \<comment> \<open>the task of \<open>unwatchAll\<close>; \<open>EPOLL_CTL_DEL\<close> ignores the event, so its mask is 0 here\<close>
  "handleUnwatchAll ew =
     ew\<lparr>ew_ctls := ew_ctls ew @ map (\<lambda>fd. (CtlDel, fd, 0)) (fdmap_fds (ew_blocks ew))\<rparr>"

definition blank_watcher :: "int \<Rightarrow> 'q \<Rightarrow> ('u, 'q) watcher" where
  \<comment> \<open>the members before the constructor's body runs\<close>
  "blank_watcher evfd q =
     \<lparr>ew_evfd = evfd, ew_signalled = False, ew_blocks = [], ew_ctls = [], ew_queue = q\<rparr>"

definition new_watcher :: "int \<Rightarrow> 'q \<Rightarrow> ('u, 'q) watcher option" where
  \<comment> \<open>the constructor, with the event descriptor the system returned\<close>
  "new_watcher evfd q = handleWatch (blank_watcher evfd q) evfd RDONLY Wakeup"

subsection \<open>Tasks and callbacks\<close>

datatype 'u wcall = CWatch int wflag 'u | CUnwatch int wflag | CUnwatchAll | CRun 'u

datatype 'u item =
    TWatch int wflag "'u wcb"
  | TUnwatch int wflag
  | TUnwatchAll
  | TInvoke "'u wcb"
  | TDrain \<comment> \<open>the rest of the wake-up callback\<close>
  | TEvent int u32 \<comment> \<open>one ready event of \<open>loop\<close>\<close>
  | TWriter int bool \<comment> \<open>the second half of an event: the writer, when it is to be called\<close>

fun call_items :: "'u wcall \<Rightarrow> 'u item list" where
  "call_items (CWatch fd flag u) = (if fd < 0 then [] else [TWatch fd flag (User u)])"
| "call_items (CUnwatch fd flag) = (if fd < 0 then [] else [TUnwatch fd flag])"
| "call_items CUnwatchAll = [TUnwatchAll]"
| "call_items (CRun u) = [TInvoke (User u)]"

record ('t, 'q) queue_ops =
  q_push :: "'t \<Rightarrow> 'q \<Rightarrow> bool \<times> 'q"
  q_pop :: "'q \<Rightarrow> 't option \<times> 'q"

record ('u, 'q, 'w) loop_env =
  le_act :: "'u \<Rightarrow> 'w \<Rightarrow> 'w \<times> 'u wcall list"
  le_queue :: "('u item, 'q) queue_ops"

definition handleCallback :: "('u, 'q, 'w) loop_env \<Rightarrow> 'u \<Rightarrow> 'w \<Rightarrow> 'u item list \<times> 'w" where
  \<comment> \<open>an exception of the callback is caught and logged: it only ends what the callback does\<close>
  [simp]: "handleCallback env u w = (concat (map call_items (snd (le_act env u w))), fst (le_act env u w))"

definition invoke_if :: "bool \<Rightarrow> 'u wcb option \<Rightarrow> 'u item list option" where
  \<comment> \<open>\<open>*entry.cb_[k]\<close> of an empty optional is undefined\<close>
  "invoke_if ready cb = (if ready then map_option (\<lambda>c. [TInvoke c]) cb else Some [])"

fun ew_step :: "('u, 'q, 'w) loop_env \<Rightarrow> 'u item \<Rightarrow> ('u, 'q) watcher \<times> 'w \<Rightarrow>
    ('u item list \<times> ('u, 'q) watcher \<times> 'w) option" where
  "ew_step env (TWatch fd flag cb) (ew, w) = map_option (\<lambda>ew1. ([], ew1, w)) (handleWatch ew fd flag cb)"
| "ew_step env (TUnwatch fd flag) (ew, w) = map_option (\<lambda>ew1. ([], ew1, w)) (handleUnwatch ew fd flag)"
| "ew_step env TUnwatchAll (ew, w) = Some ([], handleUnwatchAll ew, w)"
| "ew_step env (TInvoke Wakeup) (ew, w) = Some ([TDrain], event_clear ew, w)"
| "ew_step env (TInvoke (User u)) (ew, w) = (let (new, w1) = handleCallback env u w in Some (new, ew, w1))"
| "ew_step env TDrain (ew, w) =
     (let (t, q1) = q_pop (le_queue env) (ew_queue ew) in
      Some (case t of None \<Rightarrow> [] | Some x \<Rightarrow> [x, TDrain], ew\<lparr>ew_queue := q1\<rparr>, w))"
| "ew_step env (TEvent fd events) (ew, w) =
     do { (e, inserted, bs) \<leftarrow> fdmap_try_emplace (ew_blocks ew) fd empty_entry;
          let failed = (events AND EPOLL_FAILED \<noteq> 0);
          reader \<leftarrow> invoke_if ((failed \<or> events AND flag_bit RDONLY \<noteq> 0)
            \<and> we_mask e AND flag_bit RDONLY \<noteq> 0) (we_reader e);
          Some (reader @ [TWriter fd (failed \<or> events AND flag_bit WRONLY \<noteq> 0)],
            ew\<lparr>ew_blocks := bs\<rparr>, w) }"
| "ew_step env (TWriter fd ready) (ew, w) =
     (let (b, off) = getBlockAndIndex fd; e = fdmap_block (ew_blocks ew) b ! nat off in
      map_option (\<lambda>writer. (writer, ew, w))
        (invoke_if (ready \<and> we_mask e AND flag_bit WRONLY \<noteq> 0) (we_writer e)))"

partial_function (option) ew_exec :: "('u, 'q, 'w) loop_env \<Rightarrow> 'u item list \<Rightarrow>
    ('u, 'q) watcher \<times> 'w \<Rightarrow> ('u item list \<times> ('u, 'q) watcher \<times> 'w) option" where
  \<comment> \<open>also returns what was performed, in order\<close>
  "ew_exec env items st =
     (case items of
        [] \<Rightarrow> Some ([], st)
      | x # rest \<Rightarrow> do {
          (new, st1) \<leftarrow> ew_step env x st;
          (done, st2) \<leftarrow> ew_exec env (new @ rest) st1;
          Some (x # done, st2) })"

subsection \<open>The loop and the submission of tasks\<close>

text \<open>
  The thread-local \<open>curr_\<close> is an optional name of a watcher. A wait returns its result, \<open>errno\<close> and
  the ready events.
\<close>

type_synonym wait_result = "int \<times> int \<times> (int \<times> u32) list"

definition kMaxEpollRetries :: nat where "kMaxEpollRetries = 4"

fun ew_poll :: "(nat \<Rightarrow> wait_result) \<Rightarrow> nat \<Rightarrow> nat \<Rightarrow> wait_result \<Rightarrow> wait_result" where
  "ew_poll ep retry 0 res = res"
| "ew_poll ep retry (Suc n) res =
     (let r = ep retry in
      if 0 \<le> fst r \<or> fst (snd r) \<noteq> EINTR then r else ew_poll ep (retry + 1) n r)"

definition ew_loop :: "bool \<Rightarrow> ('u, 'q, 'w) loop_env \<Rightarrow> (nat \<Rightarrow> wait_result) \<Rightarrow> nat \<Rightarrow> nat option \<Rightarrow>
    ('u, 'q) watcher \<times> 'w \<Rightarrow> (nat option \<times> 'u item list \<times> ('u, 'q) watcher \<times> 'w) option" where
  \<comment> \<open>\<open>curr_\<close> afterwards, what was performed, the state; \<open>self(ew)\<close> stands inside an \<open>assert\<close>, which
    \<open>ndebug\<close> compiles away\<close>
  "ew_loop ndebug env ep me ctx st =
     (let (n_ready, errno, events) = ew_poll ep 0 kMaxEpollRetries (-1, 0, []) in
      if n_ready < 0 then Some (Some me, [], st)
      else do {
        (done, st1) \<leftarrow> ew_exec env (map (\<lambda>(fd, evs). TEvent fd evs) (take (nat n_ready) events)) st;
        Some (if ndebug then Some me else ctx, done, st1) })"

definition runInEventWatcherLoop :: "('u, 'q, 'w) loop_env \<Rightarrow> nat \<Rightarrow> nat option \<Rightarrow> 'u item \<Rightarrow>
    ('u, 'q) watcher \<times> 'w \<Rightarrow> ('u item list \<times> ('u, 'q) watcher \<times> 'w) option" where
  "runInEventWatcherLoop env me ctx task st =
     (if ctx = Some me then ew_exec env [task] st
      else let (ok, q1) = q_push (le_queue env) task (ew_queue (fst st)) in
        Some ([], if ok then event_signal ((fst st)\<lparr>ew_queue := q1\<rparr>) else (fst st)\<lparr>ew_queue := q1\<rparr>, snd st))"

definition ew_call :: "('u, 'q, 'w) loop_env \<Rightarrow> nat \<Rightarrow> nat option \<Rightarrow> 'u wcall \<Rightarrow>
    ('u, 'q) watcher \<times> 'w \<Rightarrow> ('u item list \<times> ('u, 'q) watcher \<times> 'w) option" where
  \<comment> \<open>\<open>watch\<close>, \<open>unwatch\<close>, \<open>unwatchAll\<close> and \<open>runInEventWatcherLoop\<close> as members called from a thread\<close>
  "ew_call env me ctx c st =
     (case call_items c of [] \<Rightarrow> Some ([], st) | t # ts \<Rightarrow> runInEventWatcherLoop env me ctx t st)"

definition destroy_watcher :: "('u, 'q, 'w) loop_env \<Rightarrow> nat \<Rightarrow> nat option \<Rightarrow> int \<Rightarrow>
    ('u, 'q) watcher \<times> 'w \<Rightarrow> ('u item list \<times> int list \<times> ('u, 'q) watcher \<times> 'w) option" where
  \<comment> \<open>the destructor in a thread, with the watcher's epoll descriptor: what it performed, the
    descriptors closed, the state left\<close>
  "destroy_watcher env me ctx epfd st =
     do { (done, st1) \<leftarrow> ew_call env me ctx CUnwatchAll st;
          Some (done, [epfd, ew_evfd (fst st1)], st1) }"

subsection \<open>Looking entries up\<close>

definition entry_at :: "('u, 'q) watcher \<Rightarrow> int \<Rightarrow> 'u wentry" where
  "entry_at ew fd =
     (let (b, off) = getBlockAndIndex fd in fdmap_block (ew_blocks ew) b ! nat off)"

definition blocks_ok :: "'u blocks \<Rightarrow> bool" where
  "blocks_ok bs \<longleftrightarrow> (\<forall>(b, es) \<in> set bs. 0 \<le> b \<and> length es = kBlockSize) \<and> distinct (map fst bs)"

lemma getBlockAndIndex_nonneg: "0 \<le> fd \<Longrightarrow> getBlockAndIndex fd = (fd div 64, fd mod 64)"
  by (simp add: getBlockAndIndex_def kBlockSize_def signed_divide_int_def signed_modulo_int_def sgn_if
      minus_mult_div_eq_mod [symmetric] del: minus_mult_div_eq_mod)

lemma blocks_ok_block: "blocks_ok bs \<Longrightarrow> length (fdmap_block bs b) = 64"
  by (auto simp: blocks_ok_def fdmap_block_def kBlockSize_def split: option.split dest: map_of_SomeD)

lemma fdmap_block_update [simp]:
  "fdmap_block (AList.update b es bs) b' = (if b' = b then es else fdmap_block bs b')"
  by (simp add: fdmap_block_def AList.update_conv')

lemma set_update_subset: "set (AList.update k v xs) \<subseteq> insert (k, v) (set xs)"
  by (induction xs) auto

lemma blocks_ok_update: "blocks_ok bs \<Longrightarrow> 0 \<le> b \<Longrightarrow> length es = 64 \<Longrightarrow> blocks_ok (AList.update b es bs)"
  using set_update_subset [of b es bs]
  by (fastforce simp: blocks_ok_def kBlockSize_def distinct_update)

lemma fdmap_try_emplace_entry:
  assumes "blocks_ok (ew_blocks ew)" "0 \<le> fd" "we_mask (entry_at ew fd) = 0 \<longrightarrow> entry_at ew fd = empty_entry"
  obtains inserted bs where
    "fdmap_try_emplace (ew_blocks ew) fd empty_entry = Some (entry_at ew fd, inserted, bs)"
    "blocks_ok bs" "\<And>b. fdmap_block bs b = fdmap_block (ew_blocks ew) b"
proof -
  let ?b = "fd div 64" and ?o = "nat (fd mod 64)"
  let ?es = "fdmap_block (ew_blocks ew) ?b"
  have e: "entry_at ew fd = ?es ! ?o" using assms(2) by (simp add: entry_at_def getBlockAndIndex_nonneg)
  have same: "we_mask (?es ! ?o) = 0 \<Longrightarrow> ?es[?o := empty_entry] = ?es"
    using assms(3) by (simp add: e list_update_same_conv blocks_ok_block [OF assms(1)])
  have "\<not> fd mod 64 < 0" by simp
  then have "fdmap_try_emplace (ew_blocks ew) fd empty_entry =
      Some (entry_at ew fd, we_mask (?es ! ?o) = 0, AList.update ?b ?es (ew_blocks ew))"
    using assms(2,3) same by (auto simp: fdmap_try_emplace_def getBlockAndIndex_nonneg e Let_def)
  moreover have "blocks_ok (AList.update ?b ?es (ew_blocks ew))"
    using assms by (intro blocks_ok_update) (simp_all add: blocks_ok_block)
  ultimately show thesis by (rule that) simp
qed

lemma entry_at_put:
  assumes "blocks_ok bs" "\<And>b. fdmap_block bs b = fdmap_block (ew_blocks ew) b" "0 \<le> fd" "0 \<le> fd'"
  shows "entry_at (ew\<lparr>ew_blocks := fdmap_put bs fd e\<rparr>) fd' = (if fd' = fd then e else entry_at ew fd')"
proof -
  have "nat (fd mod 64) < 64" by simp
  moreover have "fd' div 64 = fd div 64 \<Longrightarrow> nat (fd' mod 64) = nat (fd mod 64) \<Longrightarrow> fd' = fd"
    by (metis div_mult_mod_eq nat_eq_iff2 pos_mod_sign zero_less_numeral)
  ultimately show ?thesis
    using assms blocks_ok_block [OF assms(1), of "fd div 64"]
    by (auto simp: entry_at_def fdmap_put_def getBlockAndIndex_nonneg nth_list_update)
qed

lemma blocks_ok_put: "blocks_ok bs \<Longrightarrow> 0 \<le> fd \<Longrightarrow> blocks_ok (fdmap_put bs fd e)"
  by (simp add: fdmap_put_def getBlockAndIndex_nonneg blocks_ok_update blocks_ok_block)

subsection \<open>The interest list\<close>

fun interest_step :: "(int \<Rightarrow> u32 option) \<Rightarrow> ctl \<Rightarrow> (int \<Rightarrow> u32 option)" where
  \<comment> \<open>what \<open>epoll_ctl\<close> does to the interest list; a call it refuses changes nothing\<close>
  "interest_step m (CtlAdd, fd, ev) = (if m fd = None then m(fd \<mapsto> ev) else m)"
| "interest_step m (CtlMod, fd, ev) = (if m fd = None then m else m(fd \<mapsto> ev))"
| "interest_step m (CtlDel, fd, ev) = m(fd := None)"

fun ctl_legal :: "(int \<Rightarrow> u32 option) \<Rightarrow> ctl \<Rightarrow> bool" where
  \<comment> \<open>not refused with \<open>EEXIST\<close> or \<open>ENOENT\<close>\<close>
  "ctl_legal m (CtlAdd, fd, ev) \<longleftrightarrow> m fd = None"
| "ctl_legal m (CtlMod, fd, ev) \<longleftrightarrow> m fd \<noteq> None"
| "ctl_legal m (CtlDel, fd, ev) \<longleftrightarrow> m fd \<noteq> None"

definition interest :: "ctl list \<Rightarrow> int \<Rightarrow> u32 option" where
  "interest cs = foldl interest_step Map.empty cs"

fun ctls_legal :: "(int \<Rightarrow> u32 option) \<Rightarrow> ctl list \<Rightarrow> bool" where
  "ctls_legal m [] \<longleftrightarrow> True"
| "ctls_legal m (c # cs) \<longleftrightarrow> ctl_legal m c \<and> ctls_legal (interest_step m c) cs"

lemma interest_snoc [simp]: "interest (cs @ [c]) = interest_step (interest cs) c"
  by (simp add: interest_def)

lemma ctls_legal_append:
  "ctls_legal m (cs @ cs') \<longleftrightarrow> ctls_legal m cs \<and> ctls_legal (foldl interest_step m cs) cs'"
  by (induction cs arbitrary: m) auto

lemma ctls_legal_snoc [simp]:
  "ctls_legal Map.empty (cs @ [c]) \<longleftrightarrow> ctls_legal Map.empty cs \<and> ctl_legal (interest cs) c"
  by (simp add: ctls_legal_append interest_def)

subsection \<open>Watching and unwatching\<close>

text \<open>
  An entry's mask names the callbacks it holds, and the kernel knows the descriptor with that mask
  exactly when there is one.
\<close>

definition cb_mask :: "'u wcb option \<Rightarrow> 'u wcb option \<Rightarrow> u32" where
  "cb_mask r w = (if r = None then 0 else flag_bit RDONLY) OR (if w = None then 0 else flag_bit WRONLY)"

definition ew_inv :: "('u, 'q) watcher \<Rightarrow> bool" where
  "ew_inv ew \<longleftrightarrow> blocks_ok (ew_blocks ew) \<and> ctls_legal Map.empty (ew_ctls ew)
     \<and> (\<forall>fd \<ge> 0. let e = entry_at ew fd in
          we_mask e = cb_mask (we_reader e) (we_writer e)
          \<and> interest (ew_ctls ew) fd = (if we_mask e = 0 then None else Some (we_mask e)))"

definition ew_abs :: "('u, 'q) watcher \<Rightarrow> int \<Rightarrow> 'u wcb option \<times> 'u wcb option" where
  \<comment> \<open>the flat map from descriptors to a reader and a writer\<close>
  "ew_abs ew fd = (if fd < 0 then (None, None) else (we_reader (entry_at ew fd), we_writer (entry_at ew fd)))"

fun upd_cb :: "wflag \<Rightarrow> 'c \<Rightarrow> 'c \<times> 'c \<Rightarrow> 'c \<times> 'c" where
  "upd_cb RDONLY c (r, w) = (c, w)"
| "upd_cb WRONLY c (r, w) = (r, c)"

lemma cb_mask_0: "cb_mask r w = 0 \<longleftrightarrow> r = None \<and> w = None"
  by (simp add: cb_mask_def)

lemma cb_mask_bits:
  "cb_mask r w AND 1 \<noteq> 0 \<longleftrightarrow> r \<noteq> None" "cb_mask r w AND 4 \<noteq> 0 \<longleftrightarrow> w \<noteq> None"
  by (simp_all add: cb_mask_def)

lemma cb_mask_set:
  "cb_mask r w OR flag_bit f = (case upd_cb f (Some c) (r, w) of (r', w') \<Rightarrow> cb_mask r' w')"
  by (cases f) (simp_all add: cb_mask_def)

lemma cb_mask_clear:
  "cb_mask r w AND NOT (flag_bit f) = (case upd_cb f None (r, w) of (r', w') \<Rightarrow> cb_mask r' w')"
  by (cases f) (simp_all add: cb_mask_def)

lemma set_entry_cb_simps:
  "we_mask (set_entry_cb f c e) = we_mask e"
  "(we_reader (set_entry_cb f c e), we_writer (set_entry_cb f c e)) = upd_cb f c (we_reader e, we_writer e)"
  by (cases f; simp)+

lemma entry_cb_mask [simp]: "entry_cb f (e\<lparr>we_mask := m\<rparr>) = entry_cb f e"
  by (cases f) simp_all

lemma set_entry_cb_ok:
  assumes "we_mask e = cb_mask (we_reader e) (we_writer e)"
    and "m = (case upd_cb f c (we_reader e, we_writer e) of (r, w) \<Rightarrow> cb_mask r w)"
    and "e2 = set_entry_cb f c (e\<lparr>we_mask := m\<rparr>)"
  shows "we_mask e2 = cb_mask (we_reader e2) (we_writer e2)"
    and "(we_mask e2 = 0) = (upd_cb f c (we_reader e, we_writer e) = (None, None))"
    and "c = entry_cb f e \<Longrightarrow> we_mask e2 = we_mask e"
    and "entry_cb f e \<noteq> None \<Longrightarrow> c \<noteq> None \<Longrightarrow> we_mask e2 = we_mask e"
    and "entry_cb f e \<noteq> None \<Longrightarrow> we_mask e \<noteq> 0"
    and "(we_reader e2, we_writer e2) = upd_cb f c (we_reader e, we_writer e)"
  using assms by (cases f; auto simp: cb_mask_0 cb_mask_def)+

lemma ew_inv_entry:
  assumes "ew_inv ew" "0 \<le> fd"
  shows "we_mask (entry_at ew fd) = cb_mask (we_reader (entry_at ew fd)) (we_writer (entry_at ew fd))"
    and "interest (ew_ctls ew) fd =
      (if we_mask (entry_at ew fd) = 0 then None else Some (we_mask (entry_at ew fd)))"
    and "we_mask (entry_at ew fd) = 0 \<longrightarrow> entry_at ew fd = empty_entry"
proof -
  show m: "we_mask (entry_at ew fd) = cb_mask (we_reader (entry_at ew fd)) (we_writer (entry_at ew fd))"
    and "interest (ew_ctls ew) fd =
      (if we_mask (entry_at ew fd) = 0 then None else Some (we_mask (entry_at ew fd)))"
    using assms by (simp_all add: ew_inv_def Let_def)
  show "we_mask (entry_at ew fd) = 0 \<longrightarrow> entry_at ew fd = empty_entry"
    using m by (cases "entry_at ew fd") (auto simp: empty_entry_def cb_mask_0)
qed

text \<open>A change of one entry, with the call of \<open>epoll_ctl\<close> that goes with it.\<close>

lemma ew_inv_change:
  assumes inv: "ew_inv ew" and fd: "0 \<le> fd"
    and bs: "blocks_ok bs" "\<And>b. fdmap_block bs b = fdmap_block (ew_blocks ew) b"
    and e: "we_mask e = cb_mask (we_reader e) (we_writer e)"
    and cs: "cs = [] \<and> we_mask e = we_mask (entry_at ew fd)
      \<or> cs = [(if we_mask e = 0 then CtlDel else if we_mask (entry_at ew fd) = 0 then CtlAdd else CtlMod,
             fd, we_mask e)] \<and> (we_mask e = 0 \<longrightarrow> we_mask (entry_at ew fd) \<noteq> 0)"
    and ew1: "ew_blocks ew1 = fdmap_put bs fd e" "ew_ctls ew1 = ew_ctls ew @ cs"
  shows "ew_inv ew1" and "ew_abs ew1 = (ew_abs ew)(fd := (we_reader e, we_writer e))"
proof -
  have "entry_at ew1 fd' = entry_at (ew\<lparr>ew_blocks := fdmap_put bs fd e\<rparr>) fd'" for fd'
    using ew1(1) by (simp add: entry_at_def)
  then have at: "entry_at ew1 fd' = (if fd' = fd then e else entry_at ew fd')" if "0 \<le> fd'" for fd'
    using entry_at_put [OF bs fd that, of e] by simp
  note old = ew_inv_entry [OF inv fd]
  have "interest (ew_ctls ew1) fd' = (if fd' = fd
      then if we_mask e = 0 then None else Some (we_mask e) else interest (ew_ctls ew) fd')" for fd'
    using cs old(2) by (auto simp: ew1(2))
  moreover have "ctls_legal Map.empty (ew_ctls ew1)"
    using inv cs old(2) by (auto simp: ew1(2) ew_inv_def)
  ultimately show "ew_inv ew1"
    using inv e blocks_ok_put [OF bs(1) fd, of e] by (auto simp: ew_inv_def at Let_def ew1(1))
  show "ew_abs ew1 = (ew_abs ew)(fd := (we_reader e, we_writer e))"
    using fd by (auto simp: ew_abs_def at)
qed

lemma handleWatch_ok:
  assumes inv: "ew_inv ew" and fd: "0 \<le> fd"
  obtains ew1 where "handleWatch ew fd flag cb = Some ew1" "ew_inv ew1"
    "ew_abs ew1 = (ew_abs ew)(fd := upd_cb flag (Some cb) (ew_abs ew fd))"
    "ew_queue ew1 = ew_queue ew" "ew_evfd ew1 = ew_evfd ew" "ew_signalled ew1 = ew_signalled ew"
proof -
  have "blocks_ok (ew_blocks ew)" using inv by (simp add: ew_inv_def)
  then obtain ins bs where te: "fdmap_try_emplace (ew_blocks ew) fd empty_entry =
      Some (entry_at ew fd, ins, bs)" and bs: "blocks_ok bs"
      "\<And>b. fdmap_block bs b = fdmap_block (ew_blocks ew) b"
    using ew_inv_entry(3) [OF inv fd] fd by (elim fdmap_try_emplace_entry) auto
  note m = ew_inv_entry(1) [OF inv fd]
  let ?e = "entry_at ew fd"
  define e2 where "e2 = set_entry_cb flag (Some cb) (?e\<lparr>we_mask := we_mask ?e OR flag_bit flag\<rparr>)"
  note e2 = set_entry_cb_ok [OF m cb_mask_set [where f = flag and c = cb and r = "we_reader ?e" and w = "we_writer ?e", folded m] e2_def]
  have abs: "ew_abs ew fd = (we_reader ?e, we_writer ?e)" using fd by (simp add: ew_abs_def)
  have nz: "we_mask e2 \<noteq> 0" using e2(2) by (cases flag) auto
  define cs where "cs = (if entry_cb flag ?e = None
    then [(if we_mask ?e = 0 then CtlAdd else CtlMod, fd, we_mask e2)] else [])"
  define ew1 where "ew1 = (let ew0 = ew\<lparr>ew_blocks := fdmap_put bs fd e2\<rparr> in
    if entry_cb flag ?e = None then handleFdWatchModeChange ew0 e2 fd (if we_mask ?e = 0 then CtlAdd else CtlMod) else ew0)"
  have ew1: "handleWatch ew fd flag cb = Some ew1"
    by (simp add: handleWatch_def te Let_def ew1_def e2_def set_entry_cb_simps(1))
  have ew1': "ew_blocks ew1 = fdmap_put bs fd e2" "ew_ctls ew1 = ew_ctls ew @ cs"
      "ew_queue ew1 = ew_queue ew" "ew_evfd ew1 = ew_evfd ew" "ew_signalled ew1 = ew_signalled ew"
    by (simp_all add: ew1_def cs_def handleFdWatchModeChange_def Let_def)
  have "cs = [] \<and> we_mask e2 = we_mask ?e \<or> cs = [(if we_mask e2 = 0 then CtlDel
      else if we_mask ?e = 0 then CtlAdd else CtlMod, fd, we_mask e2)]
      \<and> (we_mask e2 = 0 \<longrightarrow> we_mask ?e \<noteq> 0)"
    using e2(4) nz by (simp add: cs_def)
  from ew_inv_change [OF inv fd bs e2(1) this ew1'(1,2)] ew1 ew1'(3-5) that
  show thesis by (simp add: e2(6) abs)
qed

lemma handleUnwatch_ok:
  assumes inv: "ew_inv ew" and fd: "0 \<le> fd"
  obtains ew1 where "handleUnwatch ew fd flag = Some ew1" "ew_inv ew1"
    "ew_abs ew1 = (ew_abs ew)(fd := upd_cb flag None (ew_abs ew fd))"
    "ew_queue ew1 = ew_queue ew" "ew_evfd ew1 = ew_evfd ew" "ew_signalled ew1 = ew_signalled ew"
proof -
  have "blocks_ok (ew_blocks ew)" using inv by (simp add: ew_inv_def)
  then obtain ins bs where te: "fdmap_try_emplace (ew_blocks ew) fd empty_entry =
      Some (entry_at ew fd, ins, bs)" and bs: "blocks_ok bs"
      "\<And>b. fdmap_block bs b = fdmap_block (ew_blocks ew) b"
    using ew_inv_entry(3) [OF inv fd] fd by (elim fdmap_try_emplace_entry) auto
  note m = ew_inv_entry(1) [OF inv fd]
  let ?e = "entry_at ew fd"
  define e2 where "e2 = set_entry_cb flag (None) (?e\<lparr>we_mask := we_mask ?e AND NOT (flag_bit flag)\<rparr>)"
  note e2 = set_entry_cb_ok [OF m cb_mask_clear [where f = flag and r = "we_reader ?e" and w = "we_writer ?e", folded m] e2_def]
  have abs: "ew_abs ew fd = (we_reader ?e, we_writer ?e)" using fd by (simp add: ew_abs_def)
  define cs where "cs = (if entry_cb flag ?e \<noteq> None
    then [(if we_mask e2 = 0 then CtlDel else CtlMod, fd, we_mask e2)] else [])"
  define ew1 where "ew1 = (let ew0 = ew\<lparr>ew_blocks := fdmap_put bs fd e2\<rparr> in
    if entry_cb flag ?e \<noteq> None then handleFdWatchModeChange ew0 e2 fd (if we_mask e2 = 0 then CtlDel else CtlMod) else ew0)"
  have ew1: "handleUnwatch ew fd flag = Some ew1"
    by (simp add: handleUnwatch_def te Let_def ew1_def e2_def set_entry_cb_simps(1))
  have ew1': "ew_blocks ew1 = fdmap_put bs fd e2" "ew_ctls ew1 = ew_ctls ew @ cs"
      "ew_queue ew1 = ew_queue ew" "ew_evfd ew1 = ew_evfd ew" "ew_signalled ew1 = ew_signalled ew"
    by (simp_all add: ew1_def cs_def handleFdWatchModeChange_def Let_def)
  have "cs = [] \<and> we_mask e2 = we_mask ?e \<or> cs = [(if we_mask e2 = 0 then CtlDel
      else if we_mask ?e = 0 then CtlAdd else CtlMod, fd, we_mask e2)]
      \<and> (we_mask e2 = 0 \<longrightarrow> we_mask ?e \<noteq> 0)"
    using e2(3,5) by (simp add: cs_def)
  from ew_inv_change [OF inv fd bs e2(1) this ew1'(1,2)] ew1 ew1'(3-5) that
  show thesis by (simp add: e2(6) abs)
qed

end
