(* ===== verification/WatcherProps.thy ===== *)
theory WatcherProps
  imports Watcher
begin

section \<open>What the event loop guarantees\<close>

text \<open>
  The block map with its calls of \<open>epoll_ctl\<close> refines a flat map from descriptors to a reader and a
  writer; dispatch calls what that map holds; tasks submitted from other threads run once, in order.
  Then the two ways in which the watcher loses track: \<open>unwatchAll\<close> and a failed wait.
\<close>

unbundle bit_operations_syntax

subsection \<open>Registrations\<close>

datatype 'u wop = OpWatch int wflag "'u wcb" | OpUnwatch int wflag

fun ew_op_step :: "'u wop \<Rightarrow> ('u, 'q) watcher \<Rightarrow> (unit \<times> ('u, 'q) watcher) option" where
  "ew_op_step (OpWatch fd flag cb) ew = map_option (Pair ()) (handleWatch ew fd flag cb)"
| "ew_op_step (OpUnwatch fd flag) ew = map_option (Pair ()) (handleUnwatch ew fd flag)"

fun ew_op_ok :: "'u wop \<Rightarrow> bool" where
  "ew_op_ok (OpWatch fd flag cb) \<longleftrightarrow> 0 \<le> fd"
| "ew_op_ok (OpUnwatch fd flag) \<longleftrightarrow> 0 \<le> fd"

type_synonym 'u flat_map = "int \<Rightarrow> 'u wcb option \<times> 'u wcb option"

fun flat_step :: "'u wop \<Rightarrow> 'u flat_map \<Rightarrow> 'u flat_map" where
  "flat_step (OpWatch fd flag cb) m = m(fd := upd_cb flag (Some cb) (m fd))"
| "flat_step (OpUnwatch fd flag) m = m(fd := upd_cb flag None (m fd))"

definition flat_spec :: "'u wop \<Rightarrow> 'u flat_map \<Rightarrow> unit \<Rightarrow> 'u flat_map \<Rightarrow> bool" where
  "flat_spec x m r m1 \<longleftrightarrow> m1 = flat_step x m"

lemma ew_op_step_ok:
  assumes "ew_op_ok x" "ew_inv ew"
  shows "\<exists>ew1. ew_op_step x ew = Some ((), ew1) \<and> ew_inv ew1 \<and> ew_abs ew1 = flat_step x (ew_abs ew)"
proof (cases x)
  case (OpWatch fd flag cb)
  then have "0 \<le> fd" using assms(1) by simp
  from handleWatch_ok [OF assms(2) this, of flag cb] show ?thesis
    by (metis OpWatch ew_op_step.simps(1) flat_step.simps(1) option.simps(9))
next
  case (OpUnwatch fd flag)
  then have "0 \<le> fd" using assms(1) by simp
  from handleUnwatch_ok [OF assms(2) this, of flag] show ?thesis
    by (metis OpUnwatch ew_op_step.simps(2) flat_step.simps(2) option.simps(9))
qed

interpretation ew: refined_ops ew_op_step ew_op_ok "\<lambda>n. ew_inv" ew_abs "\<lambda>u. u" flat_spec
proof
  fix x :: "'a wop" and n and s :: "('a, 'b) watcher"
  assume a: "ew_op_ok x" "ew_inv s"
  show "\<exists>r s1. ew_op_step x s = Some (r, s1) \<and> ew_inv s1" using ew_op_step_ok [OF a] by blast
  show "flat_spec x (ew_abs s) r (ew_abs s1)" if "ew_op_step x s = Some (r, s1)" for r s1
    using ew_op_step_ok [OF a] that by (auto simp: flat_spec_def)
qed

lemma spec_run_flat: "spec_run flat_spec xs m rs m1 \<Longrightarrow> m1 = fold flat_step xs m"
  by (induction xs arbitrary: m rs) (auto simp: flat_spec_def)

lemma blank_watcher_ok:
  "ew_inv (blank_watcher evfd q)" "ew_abs (blank_watcher evfd q) = (\<lambda>_. (None, None))"
  "ew_queue (blank_watcher evfd q) = q" "ew_evfd (blank_watcher evfd q) = evfd"
  "\<not> ew_signalled (blank_watcher evfd q)"
proof -
  have e: "entry_at (blank_watcher evfd q) fd = empty_entry" if "0 \<le> fd" for fd
    using that by (simp add: blank_watcher_def entry_at_def getBlockAndIndex_nonneg fdmap_block_def
        kBlockSize_def nat_less_iff)
  show "ew_inv (blank_watcher evfd q)"
    unfolding ew_inv_def Let_def
    by (auto simp: e blocks_ok_def interest_def blank_watcher_def [of evfd q]; simp add: e [unfolded blank_watcher_def] empty_entry_def cb_mask_def)
  show "ew_abs (blank_watcher evfd q) = (\<lambda>_. (None, None))"
    by (auto simp: ew_abs_def e empty_entry_def)
qed (simp_all add: blank_watcher_def)

lemma new_watcher_ok:
  assumes "0 \<le> evfd"
  obtains ew where "new_watcher evfd q = Some ew" "ew_inv ew" "ew_queue ew = q"
    "ew_abs ew = (\<lambda>_. (None, None))(evfd := (Some Wakeup, None))" "ew_evfd ew = evfd"
    "\<not> ew_signalled ew"
  by (rule handleWatch_ok [OF blank_watcher_ok(1) assms, of evfd q RDONLY Wakeup])
    (rule that; simp add: new_watcher_def blank_watcher_ok)

text \<open>C20: After any sequence of watches and unwatches of valid descriptors the watcher holds for each
  descriptor the reader and the writer last watched and not unwatched since; the kernel's interest list
  has each descriptor with exactly the events of the callbacks held, and no call of epoll_ctl was one
  the kernel refuses.\<close>

theorem watcher_tracks_registrations:
  fixes ops :: "'u wop list" and q :: 'q
  assumes "0 \<le> evfd" "list_all ew_op_ok ops"
  shows "\<exists>ew0 rs ew. new_watcher evfd q = Some ew0 \<and> run_ops ew_op_step ops ew0 = Some (rs, ew)
    \<and> ew_abs ew = fold flat_step ops ((\<lambda>_. (None, None))(evfd := (Some Wakeup, None)))
    \<and> (\<forall>fd \<ge> 0. interest (ew_ctls ew) fd = (case ew_abs ew fd of (None, None) \<Rightarrow> None
         | (r, w) \<Rightarrow> Some (cb_mask r w)))
    \<and> ctls_legal Map.empty (ew_ctls ew)"
proof -
  obtain ew0 :: "('u, 'q) watcher" where ew0: "new_watcher evfd q = Some ew0" "ew_inv ew0"
      "ew_abs ew0 = (\<lambda>_. (None, None))(evfd := (Some Wakeup, None))"
    using new_watcher_ok [OF assms(1)] by metis
  from ew.run_safe_refines [OF assms(2) ew0(2)] obtain rs ew where
    ew: "run_ops ew_op_step ops ew0 = Some (rs, ew)" "ew_inv ew"
      "spec_run flat_spec ops (ew_abs ew0) (map (\<lambda>u. u) rs) (ew_abs ew)" by blast
  have "interest (ew_ctls ew) fd = (case ew_abs ew fd of (None, None) \<Rightarrow> None
      | (r, w) \<Rightarrow> Some (cb_mask r w))" if "0 \<le> fd" for fd
    using ew_inv_entry(1,2) [OF ew(2) that] that
    by (auto simp: ew_abs_def cb_mask_0 split: option.split)
  with ew0 ew(1,2) spec_run_flat [OF ew(3)] show ?thesis by (auto simp: ew_inv_def)
qed

theorem watcher_tracks_registrations_witness:
  "\<exists>ew0 rs ew. new_watcher 3 () = Some ew0
    \<and> run_ops ew_op_step [OpWatch 70 RDONLY (User ''r''), OpWatch 70 WRONLY (User ''w''), OpUnwatch 70 RDONLY] ew0
        = Some (rs, ew)
    \<and> ew_abs ew 70 = (None, Some (User ''w'')) \<and> interest (ew_ctls ew) 70 = Some 4"
proof -
  have "list_all ew_op_ok [OpWatch 70 RDONLY (User ''r''), OpWatch 70 WRONLY (User ''w''), OpUnwatch 70 RDONLY]"
    by simp
  from watcher_tracks_registrations [OF _ this, of 3 "()"] obtain ew0 rs ew where
    "new_watcher 3 () = Some ew0" "run_ops ew_op_step [OpWatch 70 RDONLY (User ''r''),
       OpWatch 70 WRONLY (User ''w''), OpUnwatch 70 RDONLY] ew0 = Some (rs, ew)"
    and abs: "ew_abs ew = fold flat_step [OpWatch 70 RDONLY (User ''r''), OpWatch 70 WRONLY (User ''w''),
       OpUnwatch 70 RDONLY] ((\<lambda>_. (None, None))(3 := (Some Wakeup, None)))"
    and i: "\<forall>fd \<ge> 0. interest (ew_ctls ew) fd = (case ew_abs ew fd of (None, None) \<Rightarrow> None
         | (r, w) \<Rightarrow> Some (cb_mask r w))" by auto
  moreover have a: "ew_abs ew 70 = (None, Some (User ''w''))" by (simp add: abs)
  moreover have "interest (ew_ctls ew) 70 = Some 4" using i [rule_format, of 70] by (simp add: a cb_mask_def)
  ultimately show ?thesis by blast
qed

subsection \<open>Running the stack\<close>

lemma ew_exec_Nil [simp]: "ew_exec env [] st = Some ([], st)"
  by (simp add: ew_exec.simps)

lemma ew_exec_step:
  "ew_step env x st = Some (new, st1) \<Longrightarrow>
     ew_exec env (x # ts) st = map_option (\<lambda>(d, st2). (x # d, st2)) (ew_exec env (new @ ts) st1)"
  by (subst ew_exec.simps) (auto split: Option.bind_splits prod.splits)

lemma ew_exec_append:
  assumes "ew_exec env ts st = Some r"
  shows "ew_exec env (ts @ us) st = map_option (\<lambda>(d, st2). (fst r @ d, st2)) (ew_exec env us (snd r))"
proof (rule ew_exec.raw_induct [where P = "\<lambda>env ts st r. ew_exec env (ts @ us) st =
    map_option (\<lambda>(d, st2). (fst r @ d, st2)) (ew_exec env us (snd r))", OF _ assms])
  fix f :: "('a, 'b, 'c) loop_env \<Rightarrow> 'a item list \<Rightarrow> ('a, 'b) watcher \<times> 'c \<Rightarrow>
      ('a item list \<times> ('a, 'b) watcher \<times> 'c) option" and env ts st r
  assume IH: "\<And>env ts st r. f env ts st = Some r \<Longrightarrow> ew_exec env (ts @ us) st =
      map_option (\<lambda>(d, st2). (fst r @ d, st2)) (ew_exec env us (snd r))"
    and eq: "(case ts of [] \<Rightarrow> Some ([], st)
      | t # rest \<Rightarrow> do { (new, st1) \<leftarrow> ew_step env t st; (done, st2) \<leftarrow> f env (new @ rest) st1;
          Some (t # done, st2) }) = Some r"
  show "ew_exec env (ts @ us) st = map_option (\<lambda>(d, st2). (fst r @ d, st2)) (ew_exec env us (snd r))"
  proof (cases ts)
    case Nil
    with eq show ?thesis by (auto simp: option.map_ident_strong)
  next
    case (Cons t rest)
    with eq obtain new st1 d st2 where st: "ew_step env t st = Some (new, st1)"
        and f: "f env (new @ rest) st1 = Some (d, st2)" and r: "r = (t # d, st2)"
      by (auto split: Option.bind_splits prod.splits)
    from IH [OF f] show ?thesis
      by (cases "ew_exec env us st2") (auto simp: Cons ew_exec_step [OF st] r)
  qed
qed

lemma ew_exec_appendE:
  assumes "ew_exec env ts st = Some (d1, st1)" "ew_exec env us st1 = Some (d2, st2)"
  shows "ew_exec env (ts @ us) st = Some (d1 @ d2, st2)"
  using ew_exec_append [OF assms(1), of us] assms(2) by simp

fun invoked :: "'u item list \<Rightarrow> 'u list" where
  \<comment> \<open>the user callbacks among what was performed\<close>
  "invoked [] = []"
| "invoked (TInvoke (User u) # ts) = u # invoked ts"
| "invoked (t # ts) = invoked ts"

lemma invoked_append [simp]: "invoked (ts @ us) = invoked ts @ invoked us"
  by (induction ts rule: invoked.induct) auto

definition quiet :: "('u, 'q, 'w) loop_env \<Rightarrow> 'u set \<Rightarrow> bool" where
  \<comment> \<open>these callbacks call no member of the watcher\<close>
  "quiet env us \<longleftrightarrow> (\<forall>u \<in> us. \<forall>w. snd (le_act env u w) = [])"

definition run_world :: "('u, 'q, 'w) loop_env \<Rightarrow> 'u list \<Rightarrow> 'w \<Rightarrow> 'w" where
  "run_world env us w = foldl (\<lambda>w u. fst (le_act env u w)) w us"

lemma run_world_simps [simp]:
  "run_world env [] w = w" "run_world env (us @ vs) w = run_world env vs (run_world env us w)"
  "run_world env (u # us) w = run_world env us (fst (le_act env u w))"
  by (simp_all add: run_world_def)

lemma ew_step_quiet:
  "quiet env us \<Longrightarrow> u \<in> us \<Longrightarrow>
     ew_step env (TInvoke (User u)) (ew, w) = Some ([], ew, run_world env [u] w)"
  by (simp add: quiet_def split_beta Let_def)

subsection \<open>Dispatch of ready events\<close>

fun user_of :: "'u wcb option \<Rightarrow> 'u list" where
  "user_of (Some (User u)) = [u]"
| "user_of _ = []"

fun to_call :: "'u flat_map \<Rightarrow> int \<times> u32 \<Rightarrow> 'u list" where
  \<comment> \<open>the callbacks an event is for: on a failure both, reader first\<close>
  "to_call m (fd, evs) =
     (if evs AND EPOLL_FAILED \<noteq> 0 \<or> evs AND 1 \<noteq> 0 then user_of (fst (m fd)) else []) @
     (if evs AND EPOLL_FAILED \<noteq> 0 \<or> evs AND 4 \<noteq> 0 then user_of (snd (m fd)) else [])"

lemma ew_inv_blocks:
  assumes "ew_inv ew" "blocks_ok bs" "\<And>b. fdmap_block bs b = fdmap_block (ew_blocks ew) b"
  shows "ew_inv (ew\<lparr>ew_blocks := bs\<rparr>)" "ew_abs (ew\<lparr>ew_blocks := bs\<rparr>) = ew_abs ew"
proof -
  have "entry_at (ew\<lparr>ew_blocks := bs\<rparr>) fd = entry_at ew fd" for fd
    by (simp add: entry_at_def assms(3))
  then show "ew_inv (ew\<lparr>ew_blocks := bs\<rparr>)" "ew_abs (ew\<lparr>ew_blocks := bs\<rparr>) = ew_abs ew"
    using assms(1,2) by (auto simp: ew_inv_def ew_abs_def)
qed

lemma ew_exec_event:
  assumes inv: "ew_inv ew" and fd: "0 \<le> fd" and nw: "Some Wakeup \<notin> {fst (ew_abs ew fd), snd (ew_abs ew fd)}"
    and q: "quiet env (set (to_call (ew_abs ew) (fd, evs)))"
  shows "\<exists>d ew1. ew_exec env [TEvent fd evs] (ew, w) =
      Some (d, ew1, run_world env (to_call (ew_abs ew) (fd, evs)) w)
    \<and> invoked d = to_call (ew_abs ew) (fd, evs) \<and> ew_inv ew1 \<and> ew_abs ew1 = ew_abs ew"
proof -
  have "blocks_ok (ew_blocks ew)" using inv by (simp add: ew_inv_def)
  then obtain ins bs where te: "fdmap_try_emplace (ew_blocks ew) fd empty_entry =
      Some (entry_at ew fd, ins, bs)" and bs: "blocks_ok bs"
      "\<And>b. fdmap_block bs b = fdmap_block (ew_blocks ew) b"
    using ew_inv_entry(3) [OF inv fd] fd by (elim fdmap_try_emplace_entry) auto
  let ?e = "entry_at ew fd" and ?ew = "ew\<lparr>ew_blocks := bs\<rparr>"
  have m: "we_mask ?e AND 1 \<noteq> 0 \<longleftrightarrow> we_reader ?e \<noteq> None" "we_mask ?e AND 4 \<noteq> 0 \<longleftrightarrow> we_writer ?e \<noteq> None"
    by (simp_all only: ew_inv_entry(1) [OF inv fd] cb_mask_bits)
  have abs: "ew_abs ew fd = (we_reader ?e, we_writer ?e)" using fd by (simp add: ew_abs_def)
  define hot where "hot = (evs AND EPOLL_FAILED \<noteq> 0)"
  define rs where "rs = (if hot \<or> evs AND 1 \<noteq> 0 then user_of (we_reader ?e) else [])"
  define ws where "ws = (if hot \<or> evs AND 4 \<noteq> 0 then user_of (we_writer ?e) else [])"
  have call: "to_call (ew_abs ew) (fd, evs) = rs @ ws" by (simp add: abs rs_def ws_def hot_def)
  have inv_r: "invoke_if ((hot \<or> evs AND 1 \<noteq> 0) \<and> we_mask ?e AND 1 \<noteq> 0) (we_reader ?e) =
      Some (map (\<lambda>u. TInvoke (User u)) rs)"
    using nw m(1) abs by (cases "we_reader ?e"; cases "the (we_reader ?e)") (auto simp: invoke_if_def rs_def)
  have inv_w: "invoke_if ((hot \<or> evs AND 4 \<noteq> 0) \<and> we_mask ?e AND 4 \<noteq> 0) (we_writer ?e) =
      Some (map (\<lambda>u. TInvoke (User u)) ws)"
    using nw m(2) abs by (cases "we_writer ?e"; cases "the (we_writer ?e)") (auto simp: invoke_if_def ws_def)
  have run: "ew_exec env (map (\<lambda>u. TInvoke (User u)) us @ ts) (ew', w') =
      map_option (\<lambda>(d, st2). (map (\<lambda>u. TInvoke (User u)) us @ d, st2)) (ew_exec env ts (ew', run_world env us w'))"
    if "set us \<subseteq> set (rs @ ws)" for us ts ew' w'
    using that
  proof (induction us arbitrary: w')
    case Nil
    then show ?case by (simp add: option.map_ident_strong)
  next
    case (Cons u us)
    have "u \<in> set (to_call (ew_abs ew) (fd, evs))" using Cons.prems call by simp
    from ew_exec_step [OF ew_step_quiet [OF q this]] Cons show ?case
      by (cases "ew_exec env ts (ew', run_world env us (fst (le_act env u w')))") (auto split: prod.splits)
  qed
  have at: "fdmap_block (ew_blocks ?ew) (fst (getBlockAndIndex fd)) ! nat (snd (getBlockAndIndex fd)) = ?e"
    using bs(2) by (simp add: entry_at_def split_beta)
  have s1: "ew_step env (TEvent fd evs) (ew, w) =
      Some (map (\<lambda>u. TInvoke (User u)) rs @ [TWriter fd (hot \<or> evs AND 4 \<noteq> 0)], ?ew, w)"
    using inv_r by (simp add: te hot_def)
  have s2: "ew_step env (TWriter fd (hot \<or> evs AND 4 \<noteq> 0)) (?ew, w') =
      Some (map (\<lambda>u. TInvoke (User u)) ws, ?ew, w')" for w'
    using inv_w at by (simp add: split_beta Let_def)
  have "ew_exec env [TEvent fd evs] (ew, w) = Some (TEvent fd evs #
      map (\<lambda>u. TInvoke (User u)) rs @ TWriter fd (hot \<or> evs AND 4 \<noteq> 0) #
      map (\<lambda>u. TInvoke (User u)) ws, ?ew, run_world env (rs @ ws) w)"
    using run [of ws "[]"] by (simp add: ew_exec_step [OF s1] run ew_exec_step [OF s2])
  moreover have "invoked (map (\<lambda>u. TInvoke (User u)) us) = us" for us :: "'a list"
    by (induction us) auto
  ultimately show ?thesis
    using ew_inv_blocks [OF inv bs] unfolding call by simp
qed

lemma ew_exec_events:
  assumes "ew_inv ew" "\<forall>(fd, evs) \<in> set es. 0 \<le> fd \<and> Some Wakeup \<notin> {fst (ew_abs ew fd), snd (ew_abs ew fd)}"
    and "quiet env (set (concat (map (to_call (ew_abs ew)) es)))"
  shows "\<exists>d ew1. ew_exec env (map (\<lambda>(fd, evs). TEvent fd evs) es) (ew, w) =
      Some (d, ew1, run_world env (concat (map (to_call (ew_abs ew)) es)) w)
    \<and> invoked d = concat (map (to_call (ew_abs ew)) es) \<and> ew_inv ew1 \<and> ew_abs ew1 = ew_abs ew"
  using assms
proof (induction es arbitrary: ew w)
  case Nil
  then show ?case by simp
next
  case (Cons x es)
  obtain fd evs where x: "x = (fd, evs)" by fastforce
  have q: "quiet env (set (to_call (ew_abs ew) (fd, evs)))"
      "quiet env (set (concat (map (to_call (ew_abs ew)) es)))"
    using Cons.prems(3) by (auto simp: quiet_def x simp del: to_call.simps)
  have fd: "0 \<le> fd" "Some Wakeup \<notin> {fst (ew_abs ew fd), snd (ew_abs ew fd)}"
    using Cons.prems(2) by (auto simp: x)
  from ew_exec_event [OF Cons.prems(1) fd q(1), of w] obtain d1 ew1 where
    1: "ew_exec env [TEvent fd evs] (ew, w) =
        Some (d1, ew1, run_world env (to_call (ew_abs ew) (fd, evs)) w)"
      "invoked d1 = to_call (ew_abs ew) (fd, evs)" "ew_inv ew1" "ew_abs ew1 = ew_abs ew"
    by (auto simp del: to_call.simps)
  have "\<forall>(fd, evs) \<in> set es. 0 \<le> fd \<and> Some Wakeup \<notin> {fst (ew_abs ew1 fd), snd (ew_abs ew1 fd)}"
      "quiet env (set (concat (map (to_call (ew_abs ew1)) es)))"
    using Cons.prems(2) q(2) unfolding 1(4) by simp_all
  from Cons.IH [OF 1(3) this, of "run_world env (to_call (ew_abs ew) (fd, evs)) w"]
  obtain d2 ew2 where
    2: "ew_exec env (map (\<lambda>(fd, evs). TEvent fd evs) es)
          (ew1, run_world env (to_call (ew_abs ew) (fd, evs)) w) =
        Some (d2, ew2, run_world env (concat (map (to_call (ew_abs ew)) es))
          (run_world env (to_call (ew_abs ew) (fd, evs)) w))"
      "invoked d2 = concat (map (to_call (ew_abs ew)) es)" "ew_inv ew2" "ew_abs ew2 = ew_abs ew"
    unfolding 1(4) by blast
  from ew_exec_appendE [OF 1(1) 2(1)] 1(2) 2 show ?case
    by (simp add: x del: to_call.simps)
qed


subsection \<open>Tasks from other threads\<close>

definition queue_laws :: "('t, 'q) queue_ops \<Rightarrow> ('q \<Rightarrow> 't list) \<Rightarrow> nat \<Rightarrow> bool" where
  \<comment> \<open>a bounded first-in first-out queue of at most \<open>cap\<close> elements\<close>
  "queue_laws ops els cap \<longleftrightarrow>
     (\<forall>t q. fst (q_push ops t q) = (length (els q) < cap)
        \<and> els (snd (q_push ops t q)) = (if length (els q) < cap then els q @ [t] else els q))
     \<and> (\<forall>q. fst (q_pop ops q) = (case els q of [] \<Rightarrow> None | t # ts \<Rightarrow> Some t)
        \<and> els (snd (q_pop ops q)) = tl (els q))"

fun submit_all :: "('u, 'q, 'w) loop_env \<Rightarrow> nat \<Rightarrow> nat option \<Rightarrow> 'u list \<Rightarrow> ('u, 'q) watcher \<times> 'w \<Rightarrow>
    (('u, 'q) watcher \<times> 'w) option" where
  "submit_all env me ctx [] st = Some st"
| "submit_all env me ctx (u # us) st =
     do { (d, st1) \<leftarrow> ew_call env me ctx (CRun u) st; submit_all env me ctx us st1 }"

lemma submit_all_queue:
  assumes "queue_laws (le_queue env) els cap" "ctx \<noteq> Some me"
  shows "\<exists>ew1. submit_all env me ctx us (ew, w) = Some (ew1, w)
    \<and> els (ew_queue ew1) = els (ew_queue ew) @ take (cap - length (els (ew_queue ew))) (map (\<lambda>u. TInvoke (User u)) us)
    \<and> ew_blocks ew1 = ew_blocks ew \<and> ew_ctls ew1 = ew_ctls ew
    \<and> (ew_signalled ew1 \<longleftrightarrow> ew_signalled ew \<or> us \<noteq> [] \<and> length (els (ew_queue ew)) < cap)"
proof (induction us arbitrary: ew)
  case Nil
  then show ?case by simp
next
  case (Cons u us)
  let ?t = "TInvoke (User u)" and ?q = "ew_queue ew"
  define ew1 where "ew1 = (if length (els ?q) < cap
    then ew\<lparr>ew_queue := snd (q_push (le_queue env) ?t ?q), ew_signalled := True\<rparr>
    else ew\<lparr>ew_queue := snd (q_push (le_queue env) ?t ?q)\<rparr>)"
  have push: "fst (q_push (le_queue env) ?t ?q) = (length (els ?q) < cap)"
      "els (snd (q_push (le_queue env) ?t ?q)) = (if length (els ?q) < cap then els ?q @ [?t] else els ?q)"
    using assms(1) by (simp_all add: queue_laws_def)
  have "ew_call env me ctx (CRun u) (ew, w) = Some ([], ew1, w)"
    using assms(2) push(1) by (simp add: ew_call_def runInEventWatcherLoop_def split_beta ew1_def)
  moreover have "els (ew_queue ew1) = (if length (els ?q) < cap then els ?q @ [?t] else els ?q)"
    using push(2) by (simp add: ew1_def)
  ultimately show ?case using Cons.IH [of ew1]
    by (cases "length (els ?q) < cap") (auto simp: ew1_def Suc_diff_Suc [symmetric])
qed

lemma ew_exec_drain:
  assumes laws: "queue_laws (le_queue env) els cap" and q: "quiet env (set us)"
  shows "els (ew_queue ew) = map (\<lambda>u. TInvoke (User u)) us \<Longrightarrow>
    \<exists>d q1. ew_exec env [TDrain] (ew, w) = Some (d, ew\<lparr>ew_queue := q1\<rparr>, run_world env us w)
      \<and> invoked d = us \<and> els q1 = []"
  using q
proof (induction us arbitrary: ew w)
  case Nil
  then have "fst (q_pop (le_queue env) (ew_queue ew)) = None"
      "els (snd (q_pop (le_queue env) (ew_queue ew))) = []"
    using laws by (simp_all add: queue_laws_def)
  then have "ew_step env TDrain (ew, w) = Some ([], ew\<lparr>ew_queue := snd (q_pop (le_queue env) (ew_queue ew))\<rparr>, w)"
    by (simp add: split_beta Let_def)
  from ew_exec_step [OF this] \<open>els (snd (q_pop (le_queue env) (ew_queue ew))) = []\<close> show ?case
    by (intro exI [of _ "[TDrain]"] exI [of _ "snd (q_pop (le_queue env) (ew_queue ew))"])
      (simp del: ew_step.simps)
next
  case (Cons u us)
  let ?q = "snd (q_pop (le_queue env) (ew_queue ew))" and ?w = "run_world env [u] w"
  have pop: "fst (q_pop (le_queue env) (ew_queue ew)) = Some (TInvoke (User u))"
      "els ?q = map (\<lambda>u. TInvoke (User u)) us"
    using laws Cons.prems by (simp_all add: queue_laws_def)
  then have s1: "ew_step env TDrain (ew, w) = Some ([TInvoke (User u), TDrain], ew\<lparr>ew_queue := ?q\<rparr>, w)"
    by (simp add: split_beta Let_def)
  have s2: "ew_step env (TInvoke (User u)) (ew', w) = Some ([], ew', ?w)" for ew'
    using Cons.prems(2) by (intro ew_step_quiet) auto
  have "quiet env (set us)" using Cons.prems(2) by (simp add: quiet_def)
  with Cons.IH [of "ew\<lparr>ew_queue := ?q\<rparr>" ?w] pop(2) obtain d q1 where
    "ew_exec env [TDrain] (ew\<lparr>ew_queue := ?q\<rparr>, ?w) = Some (d, ew\<lparr>ew_queue := q1\<rparr>, run_world env us ?w)"
    "invoked d = us" "els q1 = []" by auto
  then show ?case
    by (intro exI [of _ "TDrain # TInvoke (User u) # d"] exI [of _ q1])
      (simp add: ew_exec_step [OF s1] ew_exec_step [OF s2] del: ew_step.simps)
qed

lemma ew_exec_wakeup:
  assumes inv: "ew_inv ew" and fd: "0 \<le> fd" and abs: "ew_abs ew fd = (Some Wakeup, None)"
    and laws: "queue_laws (le_queue env) els cap" and q: "quiet env (set us)"
    and els: "els (ew_queue ew) = map (\<lambda>u. TInvoke (User u)) us"
  shows "\<exists>d ew1. ew_exec env [TEvent fd 1] (ew, w) = Some (d, ew1, run_world env us w)
    \<and> invoked d = us \<and> els (ew_queue ew1) = [] \<and> \<not> ew_signalled ew1"
proof -
  have "blocks_ok (ew_blocks ew)" using inv by (simp add: ew_inv_def)
  then obtain ins bs where te: "fdmap_try_emplace (ew_blocks ew) fd empty_entry =
      Some (entry_at ew fd, ins, bs)" and bs: "blocks_ok bs"
      "\<And>b. fdmap_block bs b = fdmap_block (ew_blocks ew) b"
    using ew_inv_entry(3) [OF inv fd] fd by (elim fdmap_try_emplace_entry) auto
  have e: "we_reader (entry_at ew fd) = Some Wakeup" "we_writer (entry_at ew fd) = None"
    using abs fd by (simp_all add: ew_abs_def)
  then have m: "we_mask (entry_at ew fd) = 1"
    using ew_inv_entry(1) [OF inv fd] by (simp add: cb_mask_def)
  let ?ew = "ew\<lparr>ew_blocks := bs\<rparr>"
  have s1: "ew_step env (TEvent fd 1) (ew, w) = Some ([TInvoke Wakeup, TWriter fd False], ?ew, w)"
    by (simp add: te e m invoke_if_def EPOLL_FAILED_def)
  have s2: "ew_step env (TInvoke Wakeup) (?ew, w) = Some ([TDrain], ?ew\<lparr>ew_signalled := False\<rparr>, w)"
    by simp
  obtain d q1 where dr: "ew_exec env [TDrain] (?ew\<lparr>ew_signalled := False\<rparr>, w) =
      Some (d, ?ew\<lparr>ew_signalled := False, ew_queue := q1\<rparr>, run_world env us w)"
      "invoked d = us" "els q1 = []"
    using ew_exec_drain [OF laws q, of "?ew\<lparr>ew_signalled := False\<rparr>" w] els by auto
  have s3: "ew_step env (TWriter fd False) st = Some ([], st)" for st
    by (cases st) (simp add: split_beta Let_def invoke_if_def)
  have "ew_exec env [TWriter fd False] st = Some ([TWriter fd False], st)" for st
    by (simp add: ew_exec_step [OF s3])
  from ew_exec_appendE [OF dr(1) this] dr(2,3) show ?thesis
    by (simp add: ew_exec_step [OF s1] ew_exec_step [OF s2] del: ew_step.simps)
qed

lemma ew_inv_same:
  assumes "ew_inv ew" "ew_blocks ew1 = ew_blocks ew" "ew_ctls ew1 = ew_ctls ew"
  shows "ew_inv ew1" "ew_abs ew1 = ew_abs ew"
proof -
  have "entry_at ew1 fd = entry_at ew fd" for fd by (simp add: entry_at_def assms(2))
  then show "ew_inv ew1" "ew_abs ew1 = ew_abs ew" using assms by (auto simp: ew_inv_def ew_abs_def)
qed

text \<open>Tasks submitted to a fresh watcher from another thread leave its event descriptor signalled,
  and the loop's next wake-up runs each of them once, in the order of submission, except those beyond
  the ring's capacity, which are lost without a sign.\<close>

theorem submitted_tasks_run_once:
  fixes env :: "('u, 'q, 'w) loop_env" and q :: 'q
  assumes "0 \<le> evfd" "queue_laws (le_queue env) els cap" "els q = []" "ctx \<noteq> Some me"
    and "quiet env (set us)" "ep 0 = (1, 0, [(evfd, 1)])"
  shows "\<exists>ew0 ew1 ctx' d ew2. new_watcher evfd q = Some ew0
    \<and> submit_all env me ctx us (ew0, w) = Some (ew1, w)
    \<and> (ew_signalled ew1 \<longleftrightarrow> us \<noteq> [] \<and> 0 < cap)
    \<and> ew_loop ndebug env ep me ctx0 (ew1, w) = Some (ctx', d, ew2, run_world env (take cap us) w)
    \<and> invoked d = take cap us \<and> els (ew_queue ew2) = [] \<and> \<not> ew_signalled ew2"
proof -
  obtain ew0 :: "('u, 'q) watcher" where ew0: "new_watcher evfd q = Some ew0" "ew_inv ew0"
      "ew_queue ew0 = q" "ew_abs ew0 = (\<lambda>_. (None, None))(evfd := (Some Wakeup, None))"
      "\<not> ew_signalled ew0"
    using new_watcher_ok [OF assms(1)] by metis
  from submit_all_queue [OF assms(2,4), of us ew0 w] ew0(3,5) assms(3) obtain ew1 where
    ew1: "submit_all env me ctx us (ew0, w) = Some (ew1, w)"
      "els (ew_queue ew1) = map (\<lambda>u. TInvoke (User u)) (take cap us)"
      "ew_blocks ew1 = ew_blocks ew0" "ew_ctls ew1 = ew_ctls ew0"
      "ew_signalled ew1 \<longleftrightarrow> us \<noteq> [] \<and> 0 < cap"
    by (auto simp: take_map)
  have "quiet env (set (take cap us))" using assms(5) by (auto simp: quiet_def dest: in_set_takeD)
  moreover have "ew_abs ew1 evfd = (Some Wakeup, None)"
    using ew_inv_same(2) [OF ew0(2) ew1(3,4)] ew0(4) by simp
  ultimately obtain d ew2 where
    d: "ew_exec env [TEvent evfd 1] (ew1, w) = Some (d, ew2, run_world env (take cap us) w)"
      "invoked d = take cap us" "els (ew_queue ew2) = []" "\<not> ew_signalled ew2"
    using ew_exec_wakeup [OF ew_inv_same(1) [OF ew0(2) ew1(3,4)] assms(1) _ assms(2) _ ew1(2)] by blast
  have "ew_loop ndebug env ep me ctx0 (ew1, w) =
      Some (if ndebug then Some me else ctx0, d, ew2, run_world env (take cap us) w)"
    using d(1) assms(6) by (simp add: ew_loop_def kMaxEpollRetries_def numeral_eq_Suc)
  with ew0 ew1 d show ?thesis by blast
qed

definition list_queue :: "nat \<Rightarrow> ('t, 't list) queue_ops" where
  \<comment> \<open>a queue with the laws\<close>
  "list_queue cap = \<lparr>q_push = (\<lambda>t q. if length q < cap then (True, q @ [t]) else (False, q)),
     q_pop = (\<lambda>q. case q of [] \<Rightarrow> (None, []) | t # ts \<Rightarrow> (Some t, ts))\<rparr>"

lemma list_queue_laws: "queue_laws (list_queue cap) (\<lambda>q. q) cap"
  by (auto simp: queue_laws_def list_queue_def split: list.split)

definition demo_loop :: "(string, string item list, string list) loop_env" where
  \<comment> \<open>callbacks that log their name\<close>
  "demo_loop = \<lparr>le_act = (\<lambda>u w. (w @ [u], [])), le_queue = list_queue 2\<rparr>"

lemma demo_loop_simps:
  "quiet demo_loop A" "queue_laws (le_queue demo_loop) (\<lambda>q. q) 2"
  "run_world demo_loop us w = w @ us"
proof -
  show "run_world demo_loop us w = w @ us"
    by (induction us arbitrary: w) (simp_all add: demo_loop_def)
qed (simp_all add: demo_loop_def quiet_def list_queue_laws)

theorem submitted_tasks_run_once_witness:
  "\<exists>ew0 ew1 ctx' d ew2. new_watcher 3 [] = Some ew0
    \<and> submit_all demo_loop 0 None [''a'', ''b'', ''c''] (ew0, []) = Some (ew1, [])
    \<and> ew_loop False demo_loop (\<lambda>_. (1, 0, [(3, 1)])) 0 None (ew1, []) = Some (ctx', d, ew2, [''a'', ''b''])"
  using submitted_tasks_run_once [of 3 demo_loop "\<lambda>q. q" 2 "[]" None 0 "[''a'', ''b'', ''c'']"
      "\<lambda>_. (1, 0, [(3, 1)])" "[]" False None]
  by (auto simp: demo_loop_simps simp del: run_world_simps)


subsection \<open>Steps of the loop\<close>

text \<open>What runs in the loop keeps an invariant of the stack and ends, if each step does and counts down.\<close>

lemma ew_exec_inv:
  fixes m :: "'u item list \<Rightarrow> ('u, 'q) watcher \<times> 'w \<Rightarrow> nat"
  assumes "\<And>x rest st. J (x # rest) st \<Longrightarrow>
      \<exists>new st1. ew_step env x st = Some (new, st1) \<and> J (new @ rest) st1 \<and> m (new @ rest) st1 < m (x # rest) st"
  shows "J items st \<Longrightarrow> \<exists>d st1. ew_exec env items st = Some (d, st1) \<and> J [] st1"
proof (induction "m items st" arbitrary: items st rule: less_induct)
  case less
  show ?case
  proof (cases items)
    case (Cons x rest)
    with assms less.prems obtain new st1 where s: "ew_step env x st = Some (new, st1)" "J (new @ rest) st1"
        "m (new @ rest) st1 < m (x # rest) st" by blast
    from less.hyps [OF _ s(2)] s(3) Cons ew_exec_step [OF s(1)] show ?thesis by fastforce
  qed (use less.prems in simp)
qed

definition cb_list :: "bool \<Rightarrow> 'u wcb option \<Rightarrow> 'u item list" where
  "cb_list ready cb = (if ready then case cb of None \<Rightarrow> [] | Some c \<Rightarrow> [TInvoke c] else [])"

lemma ew_step_event:
  assumes inv: "ew_inv ew" and fd: "0 \<le> fd"
  obtains ew1 where "ew_step env (TEvent fd evs) (ew, w) =
      Some (cb_list (evs AND EPOLL_FAILED \<noteq> 0 \<or> evs AND 1 \<noteq> 0) (fst (ew_abs ew fd))
        @ [TWriter fd (evs AND EPOLL_FAILED \<noteq> 0 \<or> evs AND 4 \<noteq> 0)], ew1, w)"
    "ew_inv ew1" "ew_abs ew1 = ew_abs ew" "ew_queue ew1 = ew_queue ew" "ew_evfd ew1 = ew_evfd ew"
    "ew_signalled ew1 = ew_signalled ew" "ew_ctls ew1 = ew_ctls ew"
proof -
  have "blocks_ok (ew_blocks ew)" using inv by (simp add: ew_inv_def)
  then obtain ins bs where te: "fdmap_try_emplace (ew_blocks ew) fd empty_entry = Some (entry_at ew fd, ins, bs)"
      and bs: "blocks_ok bs" "\<And>b. fdmap_block bs b = fdmap_block (ew_blocks ew) b"
    using ew_inv_entry(3) [OF inv fd] fd by (elim fdmap_try_emplace_entry) auto
  let ?e = "entry_at ew fd" and ?hot = "evs AND EPOLL_FAILED \<noteq> 0"
  have m: "we_mask ?e AND 1 \<noteq> 0 \<longleftrightarrow> we_reader ?e \<noteq> None"
    by (simp only: ew_inv_entry(1) [OF inv fd] cb_mask_bits)
  have "invoke_if ((?hot \<or> evs AND 1 \<noteq> 0) \<and> we_mask ?e AND 1 \<noteq> 0) (we_reader ?e) =
      Some (cb_list (?hot \<or> evs AND 1 \<noteq> 0) (fst (ew_abs ew fd)))"
    using m fd by (auto simp: invoke_if_def cb_list_def ew_abs_def)
  then have "ew_step env (TEvent fd evs) (ew, w) =
      Some (cb_list (?hot \<or> evs AND 1 \<noteq> 0) (fst (ew_abs ew fd)) @ [TWriter fd (?hot \<or> evs AND 4 \<noteq> 0)],
        ew\<lparr>ew_blocks := bs\<rparr>, w)" by (simp add: te)
  from that [OF this ew_inv_blocks [OF inv bs]] show thesis by simp
qed

lemma ew_step_writer:
  assumes inv: "ew_inv ew" and fd: "0 \<le> fd"
  shows "ew_step env (TWriter fd ready) (ew, w) = Some (cb_list ready (snd (ew_abs ew fd)), ew, w)"
proof -
  have m: "we_mask (entry_at ew fd) AND 4 \<noteq> 0 \<longleftrightarrow> we_writer (entry_at ew fd) \<noteq> None"
    by (simp only: ew_inv_entry(1) [OF inv fd] cb_mask_bits)
  have "invoke_if (ready \<and> we_mask (entry_at ew fd) AND 4 \<noteq> 0) (we_writer (entry_at ew fd)) =
      Some (cb_list ready (snd (ew_abs ew fd)))"
    using m fd by (auto simp: invoke_if_def cb_list_def ew_abs_def)
  then show ?thesis by (simp add: split_beta Let_def entry_at_def)
qed

subsection \<open>Losing track\<close>

lemma fdmap_fds_complete:
  assumes "0 \<le> fd" "we_mask (entry_at ew fd) \<noteq> 0"
  shows "fd \<in> set (fdmap_fds (ew_blocks ew))"
proof -
  let ?b = "fd div 64" and ?o = "nat (fd mod 64)"
  have o: "?o < 64" by simp
  have m: "we_mask (fdmap_block (ew_blocks ew) ?b ! ?o) \<noteq> 0"
    using assms by (simp add: entry_at_def getBlockAndIndex_nonneg)
  then obtain es where es: "map_of (ew_blocks ew) ?b = Some es" "we_mask (es ! ?o) \<noteq> 0"
    using o by (cases "map_of (ew_blocks ew) ?b")
      (auto simp: fdmap_block_def kBlockSize_def empty_entry_def)
  have "fd = ?b * 64 + int ?o" by simp
  moreover have "?o \<in> set (filter (\<lambda>off. we_mask (es ! off) \<noteq> 0) [0..<64])" using o es(2) by simp
  ultimately show ?thesis
    using map_of_SomeD [OF es(1)] unfolding fdmap_fds_def kBlockSize_def
    by (force simp del: set_filter)
qed

lemma interest_deletions:
  "foldl interest_step m (map (\<lambda>fd. (CtlDel, fd, 0)) fds) fd = (if fd \<in> set fds then None else m fd)"
  by (induction fds arbitrary: m) auto

text \<open>After unwatchAll the kernel watches no descriptor, but the watcher still holds every callback;
  watching one of them again with the same flag then calls no epoll_ctl, so its callback is held for a
  descriptor the kernel never reports.\<close>

theorem unwatchAll_goes_deaf:
  assumes "ew_inv ew" "0 \<le> fd" "entry_cb flag (entry_at ew fd) \<noteq> None"
  shows "(\<forall>fd' \<ge> 0. interest (ew_ctls (handleUnwatchAll ew)) fd' = None)
    \<and> ew_abs (handleUnwatchAll ew) = ew_abs ew
    \<and> (\<exists>ew1. handleWatch (handleUnwatchAll ew) fd flag cb = Some ew1
        \<and> ew_ctls ew1 = ew_ctls (handleUnwatchAll ew)
        \<and> ew_abs ew1 fd = upd_cb flag (Some cb) (ew_abs ew fd)
        \<and> interest (ew_ctls ew1) fd = None)"
proof -
  let ?u = "handleUnwatchAll ew"
  have at: "entry_at ?u fd' = entry_at ew fd'" for fd' by (simp add: entry_at_def handleUnwatchAll_def)
  have none: "interest (ew_ctls ?u) fd' = None" if "0 \<le> fd'" for fd'
    using fdmap_fds_complete [OF that, of ew] ew_inv_entry(2) [OF assms(1) that]
    by (auto simp: handleUnwatchAll_def interest_def interest_deletions)
  have bl: "blocks_ok (ew_blocks ?u)" using assms(1) by (simp add: handleUnwatchAll_def ew_inv_def)
  obtain ins bs where te: "fdmap_try_emplace (ew_blocks ?u) fd empty_entry = Some (entry_at ew fd, ins, bs)"
      and bs: "blocks_ok bs" "\<And>b. fdmap_block bs b = fdmap_block (ew_blocks ?u) b"
    using fdmap_try_emplace_entry [OF bl assms(2)] ew_inv_entry(3) [OF assms(1,2)] unfolding at by metis
  define e2 where "e2 = set_entry_cb flag (Some cb)
    ((entry_at ew fd)\<lparr>we_mask := we_mask (entry_at ew fd) OR flag_bit flag\<rparr>)"
  define ew1 where "ew1 = ?u\<lparr>ew_blocks := fdmap_put bs fd e2\<rparr>"
  have w: "handleWatch ?u fd flag cb = Some ew1"
    using assms(3) by (auto simp: handleWatch_def te Let_def ew1_def e2_def)
  moreover have "entry_at ew1 fd = e2"
    using entry_at_put [OF bs assms(2,2), of e2] by (simp add: ew1_def)
  then have "ew_abs ew1 fd = upd_cb flag (Some cb) (ew_abs ew fd)"
    using assms(2) by (cases flag) (simp_all add: ew_abs_def e2_def)
  moreover have "ew_ctls ew1 = ew_ctls ?u" by (simp add: ew1_def)
  ultimately show ?thesis
    using none assms(2) by (auto simp: ew_abs_def at)
qed

theorem unwatchAll_goes_deaf_witness:
  "\<exists>ew0 ew1. new_watcher 3 () = Some ew0
    \<and> handleWatch (handleUnwatchAll ew0) 3 RDONLY (User ''r'') = Some ew1
    \<and> ew_abs ew1 3 = (Some (User ''r''), None) \<and> interest (ew_ctls ew1) 3 = None"
proof (rule new_watcher_ok [of 3 "()"])
  fix ew0 :: "(string, unit) watcher"
  assume ew0: "new_watcher 3 () = Some ew0" "ew_inv ew0"
    "ew_abs ew0 = (\<lambda>_. (None, None))(3 := (Some Wakeup, None))"
  have "ew_abs ew0 3 = (Some Wakeup, None)" by (simp add: ew0(3))
  then have "entry_cb RDONLY (entry_at ew0 3) \<noteq> None" by (simp add: ew_abs_def)
  from unwatchAll_goes_deaf [OF ew0(2) _ this, of "User ''r''"] ew0(1,3) show ?thesis by auto
qed simp

text \<open>The loop leaves the thread-local current watcher as it found it only when the wait succeeded
  in a build with assertions. After a failed wait, or without assertions, the thread stays marked as
  running this watcher's loop: what it submits later runs inline instead of being handed over.\<close>

theorem loop_leaves_context:
  assumes "ew_loop ndebug env ep me ctx st = Some (ctx', d, st')"
  shows "ctx' = (if ndebug \<or> fst (ew_poll ep 0 kMaxEpollRetries (-1, 0, [])) < 0 then Some me else ctx)
    \<and> (ndebug \<or> fst (ew_poll ep 0 kMaxEpollRetries (-1, 0, [])) < 0 \<longrightarrow>
        runInEventWatcherLoop env me ctx' task st' = ew_exec env [task] st')"
  using assms
  by (auto simp: ew_loop_def runInEventWatcherLoop_def split_beta Let_def split: if_splits Option.bind_splits)

theorem loop_leaves_context_witness:
  "ew_loop False demo_loop (\<lambda>_. (-1, 4, [])) 0 None (blank_watcher 3 [], []) =
      Some (Some 0, [], blank_watcher 3 [], [])
    \<and> runInEventWatcherLoop demo_loop 0 (Some 0) TUnwatchAll (blank_watcher 3 [], []) =
      ew_exec demo_loop [TUnwatchAll] (blank_watcher 3 [], [])"
proof -
  have p: "ew_poll (\<lambda>_. (-1, 4, [])) 0 kMaxEpollRetries (-1, 0, []) = (-1, 4, [])"
    by (simp add: kMaxEpollRetries_def numeral_eq_Suc EINTR_def)
  then have "ew_loop False demo_loop (\<lambda>_. (-1, 4, [])) 0 None (blank_watcher 3 [], []) =
      Some (Some 0, [], blank_watcher 3 [], [])"
    by (simp add: ew_loop_def)
  from this loop_leaves_context [OF this, of TUnwatchAll] p show ?thesis by simp
qed

text \<open>Destroyed by another thread than its loop's, the watcher only queues the removal of its
  descriptors, which nobody will run: they leave epoll with the epoll descriptor alone, and the queue is
  gone with the tasks in it.\<close>

theorem watcher_destroyed_elsewhere:
  assumes "ctx \<noteq> Some me" "destroy_watcher env me ctx epfd (ew, w) = Some (d, closed, ew1, w1)"
  shows "d = [] \<and> closed = [epfd, ew_evfd ew] \<and> ew_ctls ew1 = ew_ctls ew \<and> ew_blocks ew1 = ew_blocks ew \<and> w1 = w"
  using assms by (auto simp: destroy_watcher_def ew_call_def runInEventWatcherLoop_def split_beta split: if_splits)

theorem watcher_destroyed_elsewhere_witness:
  "\<exists>d ew1 w1. destroy_watcher demo_loop 0 None 9 (blank_watcher 3 [], []) = Some (d, [9, 3], ew1, w1) \<and> ew_ctls ew1 = []"
proof -
  obtain d cl ew1 w1 where d: "destroy_watcher demo_loop 0 None 9 (blank_watcher 3 [], []) = Some (d, cl, ew1, w1)"
    by (simp add: destroy_watcher_def ew_call_def runInEventWatcherLoop_def split_beta)
  from watcher_destroyed_elsewhere [OF _ d] d show ?thesis by (auto simp: blank_watcher_def)
qed

end
