(* ===== verification/WatcherThreads.thy ===== *)
theory WatcherThreads
  imports WatcherProps
begin

section \<open>The watcher and the threads that submit to it\<close>

text \<open>
  The watcher of \<open>Watcher\<close> with its loop in one thread and calls of its members in any number of others,
  interleaved where they meet: at the ring and at the event descriptor. A thread that submits a task pushes it
  and, in a second step, signals; the wake-up callback clears the descriptor and, in further steps, takes the
  tasks one by one, each being run before the next is taken. The code remarks that clearing first is what keeps
  a wake-up from being lost. The history of the calls and of the tasks taken is kept beside the state.
\<close>

unbundle bit_operations_syntax

record ('u, 'q, 'w) threads =
  th_watcher :: "('u, 'q) watcher"
  th_world :: 'w
  th_stack :: "'u item list" \<comment> \<open>what the loop's thread has still to perform before it waits again\<close>
  th_todo :: "nat \<Rightarrow> 'u wcall list" \<comment> \<open>the calls that a thread has still to make\<close>
  th_signals :: "nat \<Rightarrow> bool" \<comment> \<open>a thread has pushed its task and not signalled yet\<close>
  th_made :: "(nat \<times> 'u wcall \<times> bool) list" \<comment> \<open>the calls made, and whether the ring took the task\<close>
  th_taken :: "'u item list" \<comment> \<open>the tasks that left the ring, in order\<close>

definition new_threads :: "('u, 'q) watcher \<Rightarrow> 'w \<Rightarrow> (nat \<Rightarrow> 'u wcall list) \<Rightarrow> ('u, 'q, 'w) threads" where
  "new_threads ew w prog = \<lparr>th_watcher = ew, th_world = w, th_stack = [], th_todo = prog, th_signals = (\<lambda>i. False),
     th_made = [], th_taken = []\<rparr>"

subsection \<open>Steps\<close>

definition th_call :: "('u, 'q, 'w) loop_env \<Rightarrow> nat \<Rightarrow> ('u, 'q, 'w) threads \<Rightarrow> ('u, 'q, 'w) threads" where
  \<comment> \<open>a member called in another thread than the loop's, up to \<open>task_q_.push\<close>\<close>
  "th_call env i s = (case th_todo s i of
      [] \<Rightarrow> s
    | c # cs \<Rightarrow> (let s1 = s\<lparr>th_todo := (th_todo s)(i := cs)\<rparr> in case call_items c of
          [] \<Rightarrow> s1\<lparr>th_made := th_made s @ [(i, c, False)]\<rparr>
        | t # ts \<Rightarrow> let (ok, q1) = q_push (le_queue env) t (ew_queue (th_watcher s)) in
            s1\<lparr>th_watcher := (th_watcher s)\<lparr>ew_queue := q1\<rparr>, th_signals := (th_signals s)(i := ok),
               th_made := th_made s @ [(i, c, ok)]\<rparr>))"

definition th_signal :: "nat \<Rightarrow> ('u, 'q, 'w) threads \<Rightarrow> ('u, 'q, 'w) threads" where
  "th_signal i s = s\<lparr>th_watcher := event_signal (th_watcher s), th_signals := (th_signals s)(i := False)\<rparr>"

definition th_wait :: "(int \<times> u32) list \<Rightarrow> ('u, 'q, 'w) threads \<Rightarrow> ('u, 'q, 'w) threads" where
  \<comment> \<open>the wait of \<open>loop\<close> returns these events\<close>
  "th_wait evs s = s\<lparr>th_stack := map (\<lambda>(fd, events). TEvent fd events) evs\<rparr>"

fun taken_by :: "('u, 'q, 'w) loop_env \<Rightarrow> 'u item \<Rightarrow> 'q \<Rightarrow> 'u item list" where
  "taken_by env TDrain q = (case fst (q_pop (le_queue env) q) of None \<Rightarrow> [] | Some t \<Rightarrow> [t])"
| "taken_by env _ q = []"

definition th_perform :: "('u, 'q, 'w) loop_env \<Rightarrow> ('u, 'q, 'w) threads \<Rightarrow> ('u, 'q, 'w) threads option" where
  \<comment> \<open>the loop's thread performs the next item\<close>
  "th_perform env s = (case th_stack s of
      [] \<Rightarrow> None
    | x # rest \<Rightarrow> map_option (\<lambda>(new, ew, w).
        s\<lparr>th_watcher := ew, th_world := w, th_stack := new @ rest,
          th_taken := th_taken s @ taken_by env x (ew_queue (th_watcher s))\<rparr>)
        (ew_step env x (th_watcher s, th_world s)))"

datatype th_event = ThCall nat | ThSignal nat | ThWait "(int \<times> u32) list" | ThPerform

fun th_step :: "('u, 'q, 'w) loop_env \<Rightarrow> th_event \<Rightarrow> ('u, 'q, 'w) threads \<Rightarrow> ('u, 'q, 'w) threads option" where
  "th_step env (ThCall i) s = Some (th_call env i s)"
| "th_step env (ThSignal i) s = Some (th_signal i s)"
| "th_step env (ThWait evs) s = Some (th_wait evs s)"
| "th_step env ThPerform s = th_perform env s"

definition reported :: "('u, 'q) watcher \<Rightarrow> int \<times> u32 \<Rightarrow> bool" where
  \<comment> \<open>what the kernel may report: a descriptor it watches; the event descriptor when it is signalled\<close>
  "reported ew e \<longleftrightarrow> 0 \<le> fst e \<and> interest (ew_ctls ew) (fst e) \<noteq> None
     \<and> (fst e = ew_evfd ew \<longrightarrow> ew_signalled ew \<and> snd e = flag_bit RDONLY)"

fun th_enabled :: "th_event \<Rightarrow> ('u, 'q, 'w) threads \<Rightarrow> bool" where
  "th_enabled (ThCall i) s \<longleftrightarrow> th_todo s i \<noteq> [] \<and> \<not> th_signals s i"
| "th_enabled (ThSignal i) s \<longleftrightarrow> th_signals s i"
| "th_enabled (ThWait evs) s \<longleftrightarrow> th_stack s = [] \<and> list_all (reported (th_watcher s)) evs"
| "th_enabled ThPerform s \<longleftrightarrow> th_stack s \<noteq> []"

inductive th_reach :: "('u, 'q, 'w) loop_env \<Rightarrow> ('u, 'q, 'w) threads \<Rightarrow> ('u, 'q, 'w) threads \<Rightarrow> bool"
  for env :: "('u, 'q, 'w) loop_env" and s0 :: "('u, 'q, 'w) threads" where
  th_refl: "th_reach env s0 s0"
| th_trans: "th_reach env s0 s \<Longrightarrow> th_enabled x s \<Longrightarrow> th_step env x s = Some s1 \<Longrightarrow> th_reach env s0 s1"

fun th_run :: "('u, 'q, 'w) loop_env \<Rightarrow> th_event list \<Rightarrow> ('u, 'q, 'w) threads \<Rightarrow> ('u, 'q, 'w) threads option" where
  \<comment> \<open>a given interleaving\<close>
  "th_run env [] s = Some s"
| "th_run env (x # xs) s = (if th_enabled x s then do { s1 \<leftarrow> th_step env x s; th_run env xs s1 } else None)"

lemma th_run_reach: "th_run env xs s = Some s1 \<Longrightarrow> th_reach env s0 s \<Longrightarrow> th_reach env s0 s1"
proof (induction xs arbitrary: s)
  case (Cons x xs)
  then show ?case by (auto split: if_splits Option.bind_splits intro: th_trans)
qed simp

text \<open>The two steps of a submission, one after the other, are the member as it is; the steps of the loop's
  thread alone are what \<open>ew_exec\<close> does.\<close>

lemma th_call_signal:
  assumes "th_todo s i = c # cs" "\<not> th_signals s i" "ctx \<noteq> Some me"
    and "ew_call env me ctx c (th_watcher s, th_world s) = Some (d, ew1, w1)"
  defines "s1 \<equiv> th_call env i s"
  shows "d = []" "w1 = th_world s" "th_watcher (if th_signals s1 i then th_signal i s1 else s1) = ew1"
  using assms
  by (auto simp: ew_call_def th_call_def th_signal_def runInEventWatcherLoop_def split_beta Let_def split: list.splits if_splits)

lemma th_performs_exec:
  assumes "ew_exec env (th_stack s) (th_watcher s, th_world s) = Some (d, ew1, w1)"
  shows "\<exists>s1. th_run env (replicate (length d) ThPerform) s = Some s1 \<and> th_stack s1 = []
    \<and> th_watcher s1 = ew1 \<and> th_world s1 = w1"
  using assms
proof (induction d arbitrary: s)
  case Nil
  then show ?case by (subst (asm) ew_exec.simps) (auto split: list.splits Option.bind_splits)
next
  case (Cons x d)
  from Cons.prems obtain rest new ew2 w2 where st: "th_stack s = x # rest"
      "ew_step env x (th_watcher s, th_world s) = Some (new, ew2, w2)" "ew_exec env (new @ rest) (ew2, w2) = Some (d, ew1, w1)"
    by (subst (asm) ew_exec.simps) (auto split: list.splits Option.bind_splits)
  define s2 where "s2 = s\<lparr>th_watcher := ew2, th_world := w2, th_stack := new @ rest,
    th_taken := th_taken s @ taken_by env x (ew_queue (th_watcher s))\<rparr>"
  have "ew_exec env (th_stack s2) (th_watcher s2, th_world s2) = Some (d, ew1, w1)" using st(3) by (simp add: s2_def)
  from Cons.IH [OF this] st show ?case by (simp add: th_perform_def s2_def)
qed

end
