(* ===== verification/WatcherThreadsProps.thy ===== *)
theory WatcherThreadsProps
  imports WatcherThreads
begin

section \<open>No task is slept on\<close>

text \<open>
  Whatever the interleaving: the tasks that left the ring and those still in it are those it took, in order;
  none is refused while there is room; and when the loop is about to wait with a task in the ring, either the
  event descriptor is signalled and watched, or the thread that pushed the last task has still to signal.
  From there the loop alone runs all of them. This rests on no call touching the event descriptor's own
  registration, as \<open>unwatchAll\<close> would.
\<close>

unbundle bit_operations_syntax

fun tame_call :: "int \<Rightarrow> 'u wcall \<Rightarrow> bool" where
  \<comment> \<open>leaves the event descriptor \<open>e\<close> registered\<close>
  "tame_call e (CWatch fd flag u) \<longleftrightarrow> fd \<noteq> e"
| "tame_call e (CUnwatch fd flag) \<longleftrightarrow> fd \<noteq> e"
| "tame_call e CUnwatchAll \<longleftrightarrow> False"
| "tame_call e (CRun u) \<longleftrightarrow> True"

fun tame_item :: "int \<Rightarrow> 'u item \<Rightarrow> bool" where
  "tame_item e (TWatch fd flag c) \<longleftrightarrow> 0 \<le> fd \<and> fd \<noteq> e"
| "tame_item e (TUnwatch fd flag) \<longleftrightarrow> 0 \<le> fd \<and> fd \<noteq> e"
| "tame_item e TUnwatchAll \<longleftrightarrow> False"
| "tame_item e (TEvent fd evs) \<longleftrightarrow> 0 \<le> fd"
| "tame_item e (TWriter fd ready) \<longleftrightarrow> 0 \<le> fd"
| "tame_item e _ \<longleftrightarrow> True"

definition tame_env :: "int \<Rightarrow> ('u, 'q, 'w) loop_env \<Rightarrow> bool" where
  \<comment> \<open>so do the callbacks\<close>
  "tame_env e env \<longleftrightarrow> (\<forall>u w. list_all (tame_call e) (snd (le_act env u w)))"

fun wakes :: "int \<Rightarrow> 'u item \<Rightarrow> bool" where
  \<comment> \<open>performing this will look at the ring\<close>
  "wakes e TDrain \<longleftrightarrow> True"
| "wakes e (TInvoke c) \<longleftrightarrow> c = Wakeup"
| "wakes e (TEvent fd evs) \<longleftrightarrow> fd = e \<and> evs = flag_bit RDONLY"
| "wakes e _ \<longleftrightarrow> False"

definition queued_tasks :: "(nat \<times> 'u wcall \<times> bool) list \<Rightarrow> 'u item list" where
  \<comment> \<open>the tasks that the ring took\<close>
  "queued_tasks made = concat (map (\<lambda>(i, c, ok). if ok then call_items c else []) made)"

definition made_by :: "nat \<Rightarrow> (nat \<times> 'u wcall \<times> bool) list \<Rightarrow> 'u wcall list" where
  "made_by i made = map (fst \<circ> snd) (filter (\<lambda>x. fst x = i) made)"

lemma made_simps [simp]:
  "queued_tasks (made @ [(i, c, ok)]) = queued_tasks made @ (if ok then call_items c else [])"
  "made_by j (made @ [(i, c, ok)]) = made_by j made @ (if i = j then [c] else [])"
  by (simp_all add: queued_tasks_def made_by_def)

lemma call_items_cases: "call_items c = [] \<or> (\<exists>t. call_items c = [t])"
  by (cases c) simp_all

lemma call_items_length: "length (call_items c) \<le> 1"
  using call_items_cases [of c] by auto

lemma queued_tasks_length: "length (queued_tasks made) \<le> length made"
proof (induction made)
  case (Cons x made)
  obtain i c ok where x: "x = (i, c, ok)" by (metis prod_cases3)
  have "length (call_items c) \<le> 1" by (rule call_items_length)
  with Cons show ?case by (auto simp: queued_tasks_def x)
qed (simp add: queued_tasks_def)

lemma tame_call_items: "tame_call e c \<Longrightarrow> list_all (tame_item e) (call_items c)"
  by (cases c) auto

lemma tame_calls_items: "list_all (tame_call e) cs \<Longrightarrow> list_all (tame_item e) (concat (map call_items cs))"
  by (induction cs) (auto dest: tame_call_items)

lemma queue_push:
  assumes "queue_laws Q els cap" "q_push Q t q = (ok, q1)"
  shows "ok \<longleftrightarrow> length (els q) < cap" "els q1 = els q @ (if ok then [t] else [])"
proof -
  have "fst (q_push Q t q) = (length (els q) < cap)"
      "els (snd (q_push Q t q)) = (if length (els q) < cap then els q @ [t] else els q)"
    using assms(1) by (simp_all add: queue_laws_def)
  with assms(2) show "ok \<longleftrightarrow> length (els q) < cap" "els q1 = els q @ (if ok then [t] else [])" by simp_all
qed

lemma queue_pop:
  assumes "queue_laws Q els cap" "q_pop Q q = (t, q1)"
  shows "t = (case els q of [] \<Rightarrow> None | t # ts \<Rightarrow> Some t)" "els q1 = tl (els q)"
proof -
  have "fst (q_pop Q q) = (case els q of [] \<Rightarrow> None | t # ts \<Rightarrow> Some t)" "els (snd (q_pop Q q)) = tl (els q)"
    using assms(1) by (simp_all add: queue_laws_def)
  with assms(2) show "t = (case els q of [] \<Rightarrow> None | t # ts \<Rightarrow> Some t)" "els q1 = tl (els q)" by simp_all
qed

subsection \<open>The invariant\<close>

definition ring_inv :: "('q \<Rightarrow> 'u item list) \<Rightarrow> nat \<Rightarrow> ('u, 'q, 'w) threads \<Rightarrow> bool" where
  \<comment> \<open>what went through the ring\<close>
  "ring_inv els cap s \<longleftrightarrow> th_taken s @ els (ew_queue (th_watcher s)) = queued_tasks (th_made s)
     \<and> (\<forall>(i, c, ok) \<in> set (th_made s). ok \<or> call_items c = [] \<or> cap < length (th_made s))"

definition reg_inv :: "int \<Rightarrow> ('q \<Rightarrow> 'u item list) \<Rightarrow> ('u, 'q, 'w) threads \<Rightarrow> bool" where
  \<comment> \<open>the event descriptor stays registered\<close>
  "reg_inv e els s \<longleftrightarrow> ew_inv (th_watcher s) \<and> ew_evfd (th_watcher s) = e \<and> ew_abs (th_watcher s) e = (Some Wakeup, None)
     \<and> list_all (tame_item e) (th_stack s) \<and> list_all (tame_item e) (els (ew_queue (th_watcher s)))
     \<and> (\<forall>i. list_all (tame_call e) (th_todo s i))"

definition wake_inv :: "int \<Rightarrow> ('q \<Rightarrow> 'u item list) \<Rightarrow> ('u, 'q, 'w) threads \<Rightarrow> bool" where
  \<comment> \<open>somebody will look at the ring\<close>
  "wake_inv e els s \<longleftrightarrow> els (ew_queue (th_watcher s)) \<noteq> [] \<longrightarrow>
     ew_signalled (th_watcher s) \<or> (\<exists>x \<in> set (th_stack s). wakes e x) \<or> (\<exists>i. th_signals s i)"

definition th_inv :: "int \<Rightarrow> ('q \<Rightarrow> 'u item list) \<Rightarrow> nat \<Rightarrow> (nat \<Rightarrow> 'u wcall list) \<Rightarrow> ('u, 'q, 'w) threads \<Rightarrow> bool" where
  "th_inv e els cap prog s \<longleftrightarrow> ring_inv els cap s \<and> reg_inv e els s \<and> wake_inv e els s
     \<and> (\<forall>i. made_by i (th_made s) @ th_todo s i = prog i)"

lemmas th_inv_defs = th_inv_def ring_inv_def reg_inv_def wake_inv_def

lemma new_threads_inv:
  assumes "0 \<le> e" "new_watcher e q = Some ew0" "els q = []" "\<And>i. list_all (tame_call e) (prog i)"
  shows "th_inv e els cap prog (new_threads ew0 w prog)"
proof (rule new_watcher_ok [OF assms(1), of q])
  fix ew :: "('a, 'b) watcher"
  assume ew: "new_watcher e q = Some ew" "ew_inv ew" "ew_queue ew = q"
    "ew_abs ew = (\<lambda>_. (None, None))(e := (Some Wakeup, None))" "ew_evfd ew = e"
  with assms show ?thesis by (simp add: th_inv_defs new_threads_def queued_tasks_def made_by_def)
qed

lemma th_call_inv:
  assumes laws: "queue_laws (le_queue env) els cap" and inv: "th_inv e els cap prog s" and todo: "th_todo s i = c # cs"
    and idle: "\<not> th_signals s i"
  shows "th_inv e els cap prog (th_call env i s)"
proof -
  let ?ew = "th_watcher s" and ?s = "th_call env i s"
  have "list_all (tame_call e) (c # cs)" using inv todo unfolding th_inv_defs by metis
  then have tame: "list_all (tame_item e) (call_items c)" "list_all (tame_call e) cs"
    by (simp_all add: tame_call_items)
  have made: "made_by j (th_made s) @ th_todo s j = prog j" for j using inv by (simp add: th_inv_def)
  have tk: "th_taken s @ els (ew_queue ?ew) = queued_tasks (th_made s)" using inv by (simp add: th_inv_defs)
  show ?thesis
  proof (cases "call_items c")
    case Nil
    have s: "?s = s\<lparr>th_todo := (th_todo s)(i := cs), th_made := th_made s @ [(i, c, False)]\<rparr>"
      using todo Nil by (simp add: th_call_def)
    have "ring_inv els cap ?s" using inv Nil by (auto simp: th_inv_defs s)
    moreover have "reg_inv e els ?s" using inv tame(2) by (simp add: th_inv_defs s)
    moreover have "wake_inv e els ?s" using inv by (simp add: th_inv_defs s)
    moreover have "made_by j (th_made ?s) @ th_todo ?s j = prog j" for j using made [of j] todo by (auto simp: s)
    ultimately show ?thesis by (simp add: th_inv_def)
  next
    case (Cons t ts)
    then have t: "call_items c = [t]" using call_items_cases [of c] by auto
    obtain ok q1 where p: "q_push (le_queue env) t (ew_queue ?ew) = (ok, q1)" by fastforce
    note ok = queue_push(1) [OF laws p] and q1 = queue_push(2) [OF laws p]
    have s: "?s = s\<lparr>th_todo := (th_todo s)(i := cs), th_watcher := ?ew\<lparr>ew_queue := q1\<rparr>, th_signals := (th_signals s)(i := ok),
        th_made := th_made s @ [(i, c, ok)]\<rparr>"
      using todo t p by (simp add: th_call_def Let_def)
    have same: "ew_inv (?ew\<lparr>ew_queue := q1\<rparr>)" "ew_abs (?ew\<lparr>ew_queue := q1\<rparr>) = ew_abs ?ew"
      using inv ew_inv_same [of ?ew "?ew\<lparr>ew_queue := q1\<rparr>"] by (auto simp: th_inv_defs)
    have "length (els (ew_queue ?ew)) \<le> length (th_made s)"
      using arg_cong [OF tk, of length] queued_tasks_length [of "th_made s"] by simp
    then have "ring_inv els cap ?s" using inv q1 t tk ok by (auto simp: th_inv_defs s)
    moreover have "reg_inv e els ?s" using inv same tame t q1 by (auto simp: th_inv_defs s)
    moreover have "wake_inv e els ?s" using inv q1 idle by (auto simp: th_inv_defs s)
    moreover have "made_by j (th_made ?s) @ th_todo ?s j = prog j" for j using made [of j] todo by (auto simp: s)
    ultimately show ?thesis by (simp add: th_inv_def)
  qed
qed

subsection \<open>A step of the loop's thread\<close>

text \<open>What an item adds to the stack weighs less than the item, when the calls that callbacks make of each other
  end: each callback \<open>u\<close> has a rank \<open>r u\<close>, at most \<open>R\<close>, that pays for what it calls.\<close>

fun item_weight :: "nat \<Rightarrow> ('u \<Rightarrow> nat) \<Rightarrow> 'u item \<Rightarrow> nat" where
  "item_weight R r (TEvent fd evs) = 2 * R + 9"
| "item_weight R r (TWriter fd ready) = R + 4"
| "item_weight R r (TInvoke Wakeup) = 2"
| "item_weight R r (TInvoke (User u)) = r u + 2"
| "item_weight R r _ = 1"

abbreviation weights :: "nat \<Rightarrow> ('u \<Rightarrow> nat) \<Rightarrow> 'u item list \<Rightarrow> nat" where
  "weights R r xs \<equiv> \<Sum>x \<leftarrow> xs. item_weight R r x"

definition calls_end :: "nat \<Rightarrow> ('u \<Rightarrow> nat) \<Rightarrow> ('u, 'q, 'w) loop_env \<Rightarrow> bool" where
  "calls_end R r env \<longleftrightarrow> (\<forall>u. r u \<le> R)
     \<and> (\<forall>u w. weights R r (concat (map call_items (snd (le_act env u w)))) \<le> r u)"

definition ring_weight :: "nat \<Rightarrow> ('u \<Rightarrow> nat) \<Rightarrow> 'u item list \<Rightarrow> nat" where
  "ring_weight R r xs = weights R r xs + length xs"

lemma weights_cb_list: "\<forall>u. r u \<le> R \<Longrightarrow> weights R r (cb_list ready cb) \<le> R + 2"
  by (cases cb; cases "the cb") (simp_all add: cb_list_def)

lemma tame_cb_list: "list_all (tame_item e) (cb_list ready cb)"
  by (simp add: cb_list_def split: option.split)

definition stays_tame :: "int \<Rightarrow> ('q \<Rightarrow> 'u item list) \<Rightarrow> ('u, 'q) watcher \<Rightarrow> bool" where
  "stays_tame e els ew \<longleftrightarrow> ew_inv ew \<and> ew_evfd ew = e \<and> ew_abs ew e = (Some Wakeup, None)
     \<and> list_all (tame_item e) (els (ew_queue ew))"

definition tame_step :: "('u, 'q, 'w) loop_env \<Rightarrow> int \<Rightarrow> ('q \<Rightarrow> 'u item list) \<Rightarrow> 'u item \<Rightarrow> ('u, 'q) watcher \<Rightarrow>
    'u item list \<Rightarrow> ('u, 'q) watcher \<Rightarrow> bool" where
  \<comment> \<open>what a step of the loop keeps\<close>
  "tame_step env e els x ew new ew1 \<longleftrightarrow> stays_tame e els ew1 \<and> list_all (tame_item e) new
     \<and> taken_by env x (ew_queue ew) @ els (ew_queue ew1) = els (ew_queue ew)
     \<and> (wakes e x \<longrightarrow> els (ew_queue ew1) \<noteq> [] \<longrightarrow> (\<exists>y \<in> set new. wakes e y))
     \<and> (\<not> wakes e x \<longrightarrow> ew_signalled ew1 = ew_signalled ew)
     \<and> (\<forall>R r. calls_end R r env \<longrightarrow> weights R r new + ring_weight R r (els (ew_queue ew1))
          < item_weight R r x + ring_weight R r (els (ew_queue ew)))"

lemma ew_step_tame:
  assumes laws: "queue_laws (le_queue env) els cap" and env: "tame_env e env" and e: "0 \<le> e"
    and ew: "stays_tame e els ew" and x: "tame_item e x"
  shows "\<exists>new ew1 w1. ew_step env x (ew, w) = Some (new, ew1, w1) \<and> tame_step env e els x ew new ew1"
proof (cases x)
  case (TWatch fd flag c)
  with x have fd: "0 \<le> fd" "fd \<noteq> e" by simp_all
  have inv: "ew_inv ew" using ew by (simp add: stays_tame_def)
  from handleWatch_ok [OF inv fd(1), of flag c] obtain ew1 where "handleWatch ew fd flag c = Some ew1" "ew_inv ew1"
      "ew_abs ew1 = (ew_abs ew)(fd := upd_cb flag (Some c) (ew_abs ew fd))"
      "ew_queue ew1 = ew_queue ew" "ew_evfd ew1 = ew_evfd ew" "ew_signalled ew1 = ew_signalled ew" by blast
  with ew fd TWatch show ?thesis by (simp add: tame_step_def stays_tame_def)
next
  case (TUnwatch fd flag)
  with x have fd: "0 \<le> fd" "fd \<noteq> e" by simp_all
  have inv: "ew_inv ew" using ew by (simp add: stays_tame_def)
  from handleUnwatch_ok [OF inv fd(1), of flag] obtain ew1 where "handleUnwatch ew fd flag = Some ew1" "ew_inv ew1"
      "ew_abs ew1 = (ew_abs ew)(fd := upd_cb flag None (ew_abs ew fd))"
      "ew_queue ew1 = ew_queue ew" "ew_evfd ew1 = ew_evfd ew" "ew_signalled ew1 = ew_signalled ew" by blast
  with ew fd TUnwatch show ?thesis by (simp add: tame_step_def stays_tame_def)
next
  case TUnwatchAll
  with x show ?thesis by simp
next
  case (TInvoke c)
  show ?thesis
  proof (cases c)
    case Wakeup
    have "stays_tame e els (event_clear ew)"
      using ew ew_inv_same [of ew "event_clear ew"] by (simp add: stays_tame_def)
    then show ?thesis by (simp add: TInvoke Wakeup tame_step_def)
  next
    case (User u)
    have "list_all (tame_item e) (concat (map call_items (snd (le_act env u w))))"
      using env by (intro tame_calls_items) (simp add: tame_env_def)
    moreover have "weights R r (concat (map call_items (snd (le_act env u w)))) < r u + 2" if "calls_end R r env" for R r
      using that by (simp add: calls_end_def add.commute le_imp_less_Suc less_SucI)
    ultimately show ?thesis using ew by (simp add: TInvoke User tame_step_def)
  qed
next
  case TDrain
  obtain t q1 where pop: "q_pop (le_queue env) (ew_queue ew) = (t, q1)" by fastforce
  note t = queue_pop [OF laws pop]
  have "ew_inv (ew\<lparr>ew_queue := q1\<rparr>)" "ew_abs (ew\<lparr>ew_queue := q1\<rparr>) = ew_abs ew"
    using ew ew_inv_same [of ew "ew\<lparr>ew_queue := q1\<rparr>"] by (simp_all add: stays_tame_def)
  with ew t pop TDrain show ?thesis
    by (cases "els (ew_queue ew)") (auto simp: tame_step_def stays_tame_def ring_weight_def Let_def)
next
  case (TEvent fd evs)
  with x have fd: "0 \<le> fd" by simp
  have inv: "ew_inv ew" using ew by (simp add: stays_tame_def)
  let ?rd = "cb_list (evs AND EPOLL_FAILED \<noteq> 0 \<or> evs AND 1 \<noteq> 0) (fst (ew_abs ew fd))"
    and ?wr = "TWriter fd (evs AND EPOLL_FAILED \<noteq> 0 \<or> evs AND 4 \<noteq> 0)"
  obtain ew1 where s: "ew_step env (TEvent fd evs) (ew, w) = Some (?rd @ [?wr], ew1, w)"
      "ew_inv ew1" "ew_abs ew1 = ew_abs ew" "ew_queue ew1 = ew_queue ew" "ew_evfd ew1 = ew_evfd ew"
      "ew_signalled ew1 = ew_signalled ew" "ew_ctls ew1 = ew_ctls ew"
    by (rule ew_step_event [OF inv fd])
  have "\<exists>y \<in> set ?rd. wakes e y" if "fd = e" "evs = 1" using that ew by (simp add: stays_tame_def cb_list_def)
  moreover have "weights R r (?rd @ [?wr]) < item_weight R r x" if "calls_end R r env" for R r
  proof -
    have "weights R r ?rd \<le> R + 2" using that by (intro weights_cb_list) (simp add: calls_end_def)
    then show ?thesis using TEvent by simp
  qed
  ultimately have "tame_step env e els x ew (?rd @ [?wr]) ew1"
    using ew s(2-) fd tame_cb_list unfolding TEvent by (auto simp: tame_step_def stays_tame_def)
  with s(1) show ?thesis unfolding TEvent by blast
next
  case (TWriter fd ready)
  with x have fd: "0 \<le> fd" by simp
  have inv: "ew_inv ew" using ew by (simp add: stays_tame_def)
  let ?wr = "cb_list ready (snd (ew_abs ew fd))"
  have "weights R r ?wr < R + 4" if "calls_end R r env" for R r
  proof -
    have "weights R r ?wr \<le> R + 2" using that by (intro weights_cb_list) (simp add: calls_end_def)
    then show ?thesis by simp
  qed
  then have "tame_step env e els x ew ?wr ew"
    using ew tame_cb_list by (auto simp: TWriter tame_step_def)
  with ew_step_writer [OF inv fd, of env ready w] show ?thesis unfolding TWriter by blast
qed

definition th_weight :: "nat \<Rightarrow> ('u \<Rightarrow> nat) \<Rightarrow> ('q \<Rightarrow> 'u item list) \<Rightarrow> ('u, 'q, 'w) threads \<Rightarrow> nat" where
  "th_weight R r els s = weights R r (th_stack s) + ring_weight R r (els (ew_queue (th_watcher s)))"

lemma th_perform_ok:
  assumes laws: "queue_laws (le_queue env) els cap" and env: "tame_env e env" and e: "0 \<le> e"
    and inv: "th_inv e els cap prog s" and busy: "th_stack s \<noteq> []"
  shows "\<exists>s1. th_perform env s = Some s1 \<and> th_inv e els cap prog s1
    \<and> th_made s1 = th_made s \<and> th_todo s1 = th_todo s \<and> th_signals s1 = th_signals s
    \<and> (\<forall>R r. calls_end R r env \<longrightarrow> th_weight R r els s1 < th_weight R r els s)
    \<and> ((els (ew_queue (th_watcher s)) \<noteq> [] \<longrightarrow> (\<exists>x \<in> set (th_stack s). wakes e x)) \<longrightarrow>
       (els (ew_queue (th_watcher s1)) \<noteq> [] \<longrightarrow> (\<exists>x \<in> set (th_stack s1). wakes e x)))"
proof -
  obtain x rest where st: "th_stack s = x # rest" using busy by (cases "th_stack s") auto
  let ?ew = "th_watcher s"
  have ew: "stays_tame e els ?ew" and x: "tame_item e x" and rest: "list_all (tame_item e) rest"
    using inv st by (simp_all add: th_inv_defs stays_tame_def)
  obtain new ew1 w1 where p: "ew_step env x (?ew, th_world s) = Some (new, ew1, w1)" "tame_step env e els x ?ew new ew1"
    using ew_step_tame [OF laws env e ew x] by blast
  define s1 where "s1 = s\<lparr>th_watcher := ew1, th_world := w1, th_stack := new @ rest,
    th_taken := th_taken s @ taken_by env x (ew_queue ?ew)\<rparr>"
  have q: "taken_by env x (ew_queue ?ew) @ els (ew_queue ew1) = els (ew_queue ?ew)"
    and w: "wakes e x \<Longrightarrow> els (ew_queue ew1) \<noteq> [] \<Longrightarrow> \<exists>y \<in> set new. wakes e y"
    and sg: "\<not> wakes e x \<Longrightarrow> ew_signalled ew1 = ew_signalled ?ew"
    using p(2) by (simp_all add: tame_step_def)
  have "ring_inv els cap s1" using inv q by (simp add: th_inv_defs s1_def)
  moreover have "reg_inv e els s1" using inv p(2) rest by (simp add: th_inv_defs s1_def tame_step_def stays_tame_def)
  moreover have q0: "els (ew_queue ?ew) \<noteq> []" if "els (ew_queue ew1) \<noteq> []" using q that by auto
  then have "wake_inv e els s1"
    using inv w sg st by (cases "wakes e x") (auto simp: th_inv_defs s1_def)
  moreover have "\<forall>i. made_by i (th_made s1) @ th_todo s1 i = prog i" using inv by (simp add: th_inv_def s1_def)
  ultimately have "th_inv e els cap prog s1" by (simp add: th_inv_def)
  moreover have "th_weight R r els s1 < th_weight R r els s" if "calls_end R r env" for R r
    using that p(2) st by (simp add: th_weight_def s1_def tame_step_def)
  moreover have "\<exists>y \<in> set (th_stack s1). wakes e y"
    if "els (ew_queue ?ew) \<noteq> [] \<longrightarrow> (\<exists>y \<in> set (th_stack s). wakes e y)" "els (ew_queue (th_watcher s1)) \<noteq> []"
    using that w q0 st by (cases "wakes e x") (auto simp: s1_def)
  moreover have "th_perform env s = Some s1" using st p(1) by (simp add: th_perform_def s1_def)
  ultimately show ?thesis by (auto simp: s1_def)
qed

subsection \<open>Every interleaving\<close>

lemma th_step_inv:
  assumes laws: "queue_laws (le_queue env) els cap" and env: "tame_env e env" and e: "0 \<le> e"
    and inv: "th_inv e els cap prog s" and en: "th_enabled x s"
  shows "\<exists>s1. th_step env x s = Some s1 \<and> th_inv e els cap prog s1"
proof (cases x)
  case (ThCall i)
  with en obtain c cs where "th_todo s i = c # cs" "\<not> th_signals s i" by (cases "th_todo s i") auto
  from th_call_inv [OF laws inv this] ThCall show ?thesis by simp
next
  case (ThSignal i)
  have "ew_inv (event_signal (th_watcher s))" "ew_abs (event_signal (th_watcher s)) = ew_abs (th_watcher s)"
    using inv ew_inv_same [of "th_watcher s" "event_signal (th_watcher s)"] by (simp_all add: th_inv_defs)
  with inv ThSignal show ?thesis by (simp add: th_inv_defs th_signal_def)
next
  case (ThWait evs)
  with en have "list_all (tame_item e) (map (\<lambda>(fd, events). TEvent fd events) evs)"
    by (auto simp: list_all_iff reported_def)
  with inv en ThWait show ?thesis by (auto simp: th_inv_defs th_wait_def)
next
  case ThPerform
  with en th_perform_ok [OF laws env e inv] show ?thesis by auto
qed

lemma th_reach_inv:
  assumes "th_reach env s0 s" "queue_laws (le_queue env) els cap" "tame_env e env" "0 \<le> e" "th_inv e els cap prog s0"
  shows "th_inv e els cap prog s"
  using assms
proof (induction rule: th_reach.induct)
  case (th_trans s x s1)
  with th_step_inv [of env els cap e prog s x] show ?case by auto
qed simp

definition threads_ok :: "int \<Rightarrow> ('u, 'q, 'w) loop_env \<Rightarrow> ('q \<Rightarrow> 'u item list) \<Rightarrow> nat \<Rightarrow> (nat \<Rightarrow> 'u wcall list) \<Rightarrow> bool" where
  "threads_ok e env els cap prog \<longleftrightarrow> 0 \<le> e \<and> queue_laws (le_queue env) els cap \<and> tame_env e env
     \<and> (\<forall>i. list_all (tame_call e) (prog i))"

lemma th_reach_start:
  assumes "threads_ok e env els cap prog" "new_watcher e q = Some ew0" "els q = []"
    "th_reach env (new_threads ew0 w prog) s"
  shows "th_inv e els cap prog s"
proof -
  have "th_inv e els cap prog (new_threads ew0 w prog)"
    using assms(1-3) by (intro new_threads_inv) (simp_all add: threads_ok_def)
  with th_reach_inv [OF assms(4)] assms(1) show ?thesis by (auto simp: threads_ok_def)
qed


subsection \<open>The ring is emptied\<close>

lemma th_run_append: "th_run env (xs @ ys) s = (case th_run env xs s of None \<Rightarrow> None | Some s1 \<Rightarrow> th_run env ys s1)"
  by (induction xs arbitrary: s) (auto split: option.split Option.bind_split)

lemma th_drains:
  assumes laws: "queue_laws (le_queue env) els cap" and env: "tame_env e env" "calls_end R r env" and e: "0 \<le> e"
  shows "th_inv e els cap prog s \<Longrightarrow> (els (ew_queue (th_watcher s)) \<noteq> [] \<longrightarrow> (\<exists>x \<in> set (th_stack s). wakes e x)) \<Longrightarrow>
    \<exists>k s1. th_run env (replicate k ThPerform) s = Some s1 \<and> th_inv e els cap prog s1 \<and> th_stack s1 = []
      \<and> els (ew_queue (th_watcher s1)) = [] \<and> th_made s1 = th_made s"
proof (induction "th_weight R r els s" arbitrary: s rule: less_induct)
  case less
  show ?case
  proof (cases "th_stack s = []")
    case True
    with less.prems show ?thesis by (intro exI [of _ 0]) simp
  next
    case False
    from th_perform_ok [OF laws env(1) e less.prems(1) False] env(2) less.prems(2) obtain s1 where
      s1: "th_perform env s = Some s1" "th_inv e els cap prog s1" "th_made s1 = th_made s"
        "th_weight R r els s1 < th_weight R r els s"
        "els (ew_queue (th_watcher s1)) \<noteq> [] \<longrightarrow> (\<exists>x \<in> set (th_stack s1). wakes e x)" by blast
    from less.hyps [OF s1(4,2,5)] obtain k s2 where
      "th_run env (replicate k ThPerform) s1 = Some s2" "th_inv e els cap prog s2" "th_stack s2 = []"
      "els (ew_queue (th_watcher s2)) = []" "th_made s2 = th_made s1" by blast
    with s1(1,3) False show ?thesis by (intro exI [of _ "Suc k"] exI [of _ s2]) simp
  qed
qed

text \<open>C7: From every reachable state in which the loop is about to wait and no thread is between pushing and
  signalling, if tasks are in the ring then the kernel may report the event descriptor, and after any wait that
  reports it, whatever else is ready, the loop by itself comes back to its next wait having taken every task that
  the ring took, when the calls that callbacks make of each other end.\<close>

theorem queued_tasks_get_run:
  assumes "threads_ok e env els cap prog" "new_watcher e q = Some ew0" "els q = []"
    and "th_reach env (new_threads ew0 w prog) s" "calls_end R r env"
    and "th_stack s = []" "els (ew_queue (th_watcher s)) \<noteq> []" "\<forall>i. \<not> th_signals s i"
  shows "th_enabled (ThWait [(e, flag_bit RDONLY)]) s
    \<and> (\<forall>evs. th_enabled (ThWait evs) s \<and> (e, flag_bit RDONLY) \<in> set evs \<longrightarrow>
        (\<exists>k s1. th_run env (ThWait evs # replicate k ThPerform) s = Some s1 \<and> th_stack s1 = []
          \<and> th_taken s1 = queued_tasks (th_made s) \<and> els (ew_queue (th_watcher s1)) = []))"
proof -
  have ok: "queue_laws (le_queue env) els cap" "tame_env e env" "0 \<le> e" using assms(1) by (simp_all add: threads_ok_def)
  have inv: "th_inv e els cap prog s" by (rule th_reach_start [OF assms(1-4)])
  have "ew_inv (th_watcher s)" and abs: "ew_abs (th_watcher s) e = (Some Wakeup, None)" and fd: "ew_evfd (th_watcher s) = e"
    using inv by (simp_all add: th_inv_defs)
  from ew_inv_entry(1,2) [OF this(1) ok(3)] abs ok(3)
  have "interest (ew_ctls (th_watcher s)) e = Some (flag_bit RDONLY)" by (simp add: ew_abs_def cb_mask_def)
  moreover have "ew_signalled (th_watcher s)" using inv assms(6-8) by (simp add: th_inv_defs)
  ultimately have "th_enabled (ThWait [(e, flag_bit RDONLY)]) s" using assms(6) ok(3) fd by (simp add: reported_def)
  moreover have "\<exists>k s1. th_run env (ThWait evs # replicate k ThPerform) s = Some s1 \<and> th_stack s1 = []
      \<and> th_taken s1 = queued_tasks (th_made s) \<and> els (ew_queue (th_watcher s1)) = []"
    if evs: "th_enabled (ThWait evs) s" "(e, flag_bit RDONLY) \<in> set evs" for evs
  proof -
    have "th_inv e els cap prog (th_wait evs s)" using th_step_inv [OF ok inv evs(1)] by simp
    moreover have "\<exists>x \<in> set (th_stack (th_wait evs s)). wakes e x" using evs(2) by (force simp: th_wait_def)
    ultimately obtain k s1 where s1: "th_run env (replicate k ThPerform) (th_wait evs s) = Some s1"
        "th_inv e els cap prog s1" "th_stack s1 = []" "els (ew_queue (th_watcher s1)) = []" "th_made s1 = th_made s"
      using th_drains [OF ok(1,2) assms(5) ok(3), of prog "th_wait evs s"] by (auto simp: th_wait_def)
    then have "th_taken s1 = queued_tasks (th_made s)" by (simp add: th_inv_defs)
    with s1 evs(1) show ?thesis by (intro exI [of _ k] exI [of _ s1]) simp
  qed
  ultimately show ?thesis by blast
qed

definition demo_prog :: "nat \<Rightarrow> string wcall list" where
  "demo_prog i = (if i = 0 then [CRun ''a''] else if i = 1 then [CRun ''b''] else [])"

lemma demo_threads_ok: "threads_ok 3 demo_loop (\<lambda>q. q) 2 demo_prog" "calls_end 0 (\<lambda>_. 0) demo_loop"
  by (simp_all add: threads_ok_def demo_loop_simps demo_prog_def) (simp_all add: tame_env_def calls_end_def demo_loop_def)

lemma demo_threads_run:
  obtains ew0 s where "new_watcher 3 [] = Some ew0" "th_reach demo_loop (new_threads ew0 [] demo_prog) s"
    "th_stack s = []" "ew_queue (th_watcher s) = [TInvoke (User ''b''), TInvoke (User ''a'')]" "\<forall>i. \<not> th_signals s i"
    "th_made s = [(1, CRun ''b'', True), (0, CRun ''a'', True)]"
proof (rule new_watcher_ok [of 3 "[] :: string item list"])
  fix ew :: "(string, string item list) watcher"
  assume ew: "new_watcher 3 [] = Some ew" "ew_queue ew = []"
  obtain s where "th_run demo_loop [ThCall 1, ThCall 0, ThSignal 0, ThSignal 1] (new_threads ew [] demo_prog) = Some s"
      "th_stack s = []" "ew_queue (th_watcher s) = [TInvoke (User ''b''), TInvoke (User ''a'')]" "\<forall>i. \<not> th_signals s i"
      "th_made s = [(1, CRun ''b'', True), (0, CRun ''a'', True)]"
    using ew(2) by (simp add: new_threads_def demo_prog_def th_call_def th_signal_def demo_loop_def list_queue_def)
  with ew(1) th_run_reach [OF _ th_refl] show thesis by (intro that) blast+
qed simp


theorem queued_tasks_get_run_witness:
  "\<exists>ew0 s k s1. new_watcher 3 [] = Some ew0 \<and> th_reach demo_loop (new_threads ew0 [] demo_prog) s
    \<and> th_run demo_loop (ThWait [(3, 1)] # replicate k ThPerform) s = Some s1
    \<and> th_taken s1 = [TInvoke (User ''b''), TInvoke (User ''a'')]"
proof (rule demo_threads_run)
  fix ew0 s
  assume s: "new_watcher 3 [] = Some ew0" "th_reach demo_loop (new_threads ew0 [] demo_prog) s" "th_stack s = []"
    "ew_queue (th_watcher s) = [TInvoke (User ''b''), TInvoke (User ''a'')]" "\<forall>i. \<not> th_signals s i"
    "th_made s = [(1, CRun ''b'', True), (0, CRun ''a'', True)]"
  have "ew_queue (th_watcher s) \<noteq> []" using s(4) by simp
  note run = queued_tasks_get_run [OF demo_threads_ok(1) s(1) refl s(2) demo_threads_ok(2) s(3) this s(5)]
  from run [THEN conjunct2, rule_format, of "[(3, 1)]"] run [THEN conjunct1]
  have "\<exists>k s1. th_run demo_loop (ThWait [(3, 1)] # replicate k ThPerform) s = Some s1
      \<and> th_taken s1 = queued_tasks (th_made s)" by auto
  moreover have "queued_tasks (th_made s) = [TInvoke (User ''b''), TInvoke (User ''a'')]" by (simp add: s(6) queued_tasks_def)
  ultimately show ?thesis using s(1,2) by metis
qed

end
