(* ===== verification/LoopTransport.thy ===== *)
theory LoopTransport
  imports Pipeline Watcher
begin

section \<open>The event-loop transport\<close>

text \<open>
  Models \<open>tasks/transport/abstract_transport.hpp\<close>, \<open>abstract_transport.cpp\<close> and
  \<open>tasks/transport/tcp/tcp_transport.cpp\<close>. \<open>AbstractEventLoopTransport\<close> is the record \<open>transport\<close>; each
  member function returns what it does outside its own state, in order: calls of the watcher, bytes
  handed to the kernel, events fired into the pipeline, the flush callback, system calls. The virtual
  functions \<open>readSome\<close> and \<open>writeSome\<close> are arguments of the member functions that call them, with
  their contract in the locale \<open>stream_io\<close>; \<open>TcpTransport\<close>'s functions are defined on the results of
  \<open>recv\<close> and \<open>writev\<close> (the \<open>k\<close>-th call's result is a parameter) and meet the contract. The callbacks the
  watcher is given, \<open>onReadable\<close> and \<open>onWritable\<close>, are the member functions themselves.
\<close>

subsection \<open>State and effects\<close>

datatype effect =
    EWatch int wflag
  | EUnwatch int wflag
  | ESend "u8 list" \<comment> \<open>bytes the kernel took\<close>
  | EInbound event
  | EFlushCompleted nat
  | EShutdown int int
  | EClose int

record 's transport =
  tr_fd :: int
  tr_self :: string
  tr_other :: string
  tr_pipeline :: "'s conveyor"
  tr_wbuf :: bytebuf
  tr_on_flush :: nat \<comment> \<open>the callback \<open>on_flush_completed_\<close>, by name\<close>
  tr_on_writable_state :: nat
  tr_on_shutdown :: nat

text \<open>\<open>*bits::getSockOptHostPort(fd)\<close> and \<open>*bits::getPeerHostPort(fd)\<close> dereference an optional.\<close>

definition new_transport ::
  "(int \<Rightarrow> string option) \<Rightarrow> (int \<Rightarrow> string option) \<Rightarrow> int \<Rightarrow> 's transport option" where
  "new_transport sock_name peer_name fd =
     do { a \<leftarrow> sock_name fd; b \<leftarrow> peer_name fd;
          Some \<lparr>tr_fd = fd, tr_self = a, tr_other = b, tr_pipeline = conv_empty, tr_wbuf = bb_empty,
            tr_on_flush = 0, tr_on_writable_state = 0, tr_on_shutdown = 0\<rparr> }"

definition destroy_transport :: "'s transport \<Rightarrow> effect list" where
  "destroy_transport t = [EUnwatch (tr_fd t) RDONLY, EUnwatch (tr_fd t) WRONLY] @
     (if 0 \<le> tr_fd t then [EClose (tr_fd t)] else [])"

subsection \<open>Reading\<close>

type_synonym read_some = "nat \<Rightarrow> bytebuf \<Rightarrow> nat \<Rightarrow> (int \<times> bytebuf) option"

partial_function (option) read_loop ::
  "read_some \<Rightarrow> nat \<Rightarrow> bytebuf \<Rightarrow> (int \<times> nat \<times> bytebuf) option" where
  "read_loop readSome k buf =
     do { (n, buf1) \<leftarrow> readSome k buf 4096;
          if 0 < n then read_loop readSome (k + 1) buf1 else Some (n, k + 1, buf1) }"

definition read_events :: "int \<Rightarrow> bytebuf \<Rightarrow> event list" where
  "read_events n buf =
     (if 0 < readableBytes buf then [InboundBytes buf] else []) @
     (if n = EAGAIN then []
      else if n = EWOULDBLOCK then []
      else if n = 0 then [InboundTransportInactive]
      else [InboundTransportError n])"

definition onReadable :: "read_some \<Rightarrow> nat \<Rightarrow> 's transport \<Rightarrow> (nat \<times> effect list \<times> task list \<times> 's transport) option" where
  "onReadable readSome k t =
     do { (n, k1, buf) \<leftarrow> read_loop readSome k bb_empty;
          (done, cv) \<leftarrow> fire_all conv_fireInbound (tr_pipeline t) (read_events n buf);
          Some (k1, map EInbound (read_events n buf), done, t\<lparr>tr_pipeline := cv\<rparr>) }"

subsection \<open>Writing\<close>

type_synonym write_some = "nat \<Rightarrow> bytebuf \<Rightarrow> nat \<Rightarrow> (int \<times> int \<times> u8 list \<times> bytebuf) option"

text \<open>
  A \<open>writeSome\<close> returns its result, \<open>errno\<close>, the bytes the kernel took and the buffer.
  \<open>write_loop\<close> is the loop of \<open>onWritable\<close>, with \<open>i\<close> iterations left; it returns the error that ended it,
  if any: \<open>Some EAGAIN\<close> where the function returns to wait for the next event.
\<close>

fun write_loop :: "write_some \<Rightarrow> nat \<Rightarrow> nat \<Rightarrow> bytebuf \<Rightarrow> (int option \<times> nat \<times> effect list \<times> bytebuf) option" where
  "write_loop writeSome 0 k b = Some (None, k, [], b)"
| "write_loop writeSome (Suc i) k b =
     (if 0 < readableBytes b then do {
        (n, errno, sent, b1) \<leftarrow> writeSome k b (readableBytes b);
        if n < 0 then Some (Some errno, k + 1, [], b1)
        else do {
          (err, k1, es, b2) \<leftarrow> write_loop writeSome i (k + 1) b1;
          Some (err, k1, (if 0 < n then [ESend sent] else []) @ es, b2) } }
      else Some (None, k, [], b))"

definition onWritable :: "write_some \<Rightarrow> nat \<Rightarrow> 's transport \<Rightarrow> (nat \<times> effect list \<times> task list \<times> 's transport) option" where
  "onWritable writeSome k t =
     do { (err, k1, es, b) \<leftarrow> write_loop writeSome 256 k (tr_wbuf t);
          let t1 = t\<lparr>tr_wbuf := b\<rparr>;
          case err of
            None \<Rightarrow> Some (k1, es @ [EUnwatch (tr_fd t) WRONLY, EFlushCompleted (tr_on_flush t)], [], t1)
          | Some errno \<Rightarrow>
              if errno = EAGAIN \<or> errno = EWOULDBLOCK then Some (k1, es, [], t1)
              else do {
                (done, cv) \<leftarrow> conv_fireInbound (tr_pipeline t1) (InboundTransportError errno);
                Some (k1, es @ [EUnwatch (tr_fd t) WRONLY, EInbound (InboundTransportError errno)], done,
                      t1\<lparr>tr_pipeline := cv\<rparr>) } }"

definition tr_write :: "alloc \<Rightarrow> bytebuf \<Rightarrow> 's transport \<Rightarrow> (int \<times> effect list \<times> bytebuf \<times> 's transport) option" where
  \<comment> \<open>\<open>write\<close>: the result, \<open>buf\<close> and the transport afterwards; the size is cast to an \<open>int\<close>\<close>
  "tr_write al buf t =
     (if readableBytes buf = 0 then Some (0, [], buf, t)
      else let n = readableBytes buf in do {
        (w, buf1) \<leftarrow> bb_write_from al (tr_wbuf t) buf n;
        Some (sint (word_of_nat n :: 32 word), [EWatch (tr_fd t) WRONLY], buf1, t\<lparr>tr_wbuf := w\<rparr>) })"

definition tr_flush :: "'s transport \<Rightarrow> effect list" where
  "tr_flush t = (if 0 < readableBytes (tr_wbuf t) then [EWatch (tr_fd t) WRONLY] else [])"

definition onFlushCompleted :: "nat \<Rightarrow> 's transport \<Rightarrow> 's transport" where
  "onFlushCompleted cb t = t\<lparr>tr_on_flush := cb\<rparr>"

definition onWritableStateChanged :: "nat \<Rightarrow> 's transport \<Rightarrow> 's transport" where
  "onWritableStateChanged cb t = t\<lparr>tr_on_writable_state := cb\<rparr>"

definition onShutdownCompleted :: "nat \<Rightarrow> 's transport \<Rightarrow> 's transport" where
  "onShutdownCompleted cb t = t\<lparr>tr_on_shutdown := cb\<rparr>"

definition readableStateChanged :: "bool \<Rightarrow> 's transport \<Rightarrow> effect list" where
  "readableStateChanged readable t =
     (if readable then [EWatch (tr_fd t) RDONLY] else [EUnwatch (tr_fd t) RDONLY])"

definition tr_shutdown :: "int \<Rightarrow> 's transport \<Rightarrow> effect list" where
  "tr_shutdown how t = [EShutdown (tr_fd t) how]"

subsection \<open>The TCP transport\<close>

datatype recv_result = RecvData "u8 list" | RecvEof | RecvError int

definition tcp_readSome :: "alloc \<Rightarrow> (nat \<Rightarrow> recv_result) \<Rightarrow> read_some" where
  "tcp_readSome al recv k dst max_bytes =
     (case recv k of
        RecvData bs \<Rightarrow> do { (ok, dst1) \<leftarrow> bb_write al dst bs; Some (int (length bs), dst1) }
      | RecvEof \<Rightarrow> Some (0, dst)
      | RecvError errno \<Rightarrow> Some (-1, dst))"

text \<open>\<open>writev\<close>'s result for \<open>n\<close> bytes offered: how many it took (0 for none), or an error.\<close>

type_synonym writev_result = "nat \<Rightarrow> nat \<Rightarrow> nat + int"

fun cap_iov :: "nat \<Rightarrow> (nat \<times> nat) list \<Rightarrow> (nat \<times> nat) list" where
  \<comment> \<open>the loop over \<open>iov\<close> and its resize\<close>
  "cap_iov remaining [] = []"
| "cap_iov remaining ((base, len) # iov) =
     (if remaining = 0 then [] else (base, min len remaining) # cap_iov (remaining - min len remaining) iov)"

definition iov_bytes :: "bytebuf \<Rightarrow> (nat \<times> nat) list \<Rightarrow> u8 list option" where
  \<comment> \<open>the bytes the kernel reads from the vector\<close>
  "iov_bytes b iov =
     foldr (\<lambda>(base, len) r. do { bs \<leftarrow> vec_slice (bb_data b) base len; rest \<leftarrow> r; Some (bs @ rest) })
       iov (Some [])"

definition tcp_writeSome :: "writev_result \<Rightarrow> write_some" where
  "tcp_writeSome writev k src max_bytes =
     (let tail = readableBytes src; to_send = min tail max_bytes; iov = bb_headroom src in
      if tail = 0 then Some (0, 0, [], src)
      else if iov = [] then Some (0, 0, [], src)
      else do {
        offered \<leftarrow> iov_bytes src (cap_iov to_send iov);
        case writev k (length offered) of
          Inl n \<Rightarrow> if 0 < n then Some (int n, 0, take n offered, snd (bb_advance src n)) else Some (0, 0, [], src)
        | Inr errno \<Rightarrow> Some (-1, errno, [], src) })"

fun recv_bytes :: "recv_result \<Rightarrow> u8 list" where
  "recv_bytes (RecvData bs) = bs"
| "recv_bytes _ = []"

subsection \<open>The contract of the virtual functions\<close>

text \<open>
  \<open>writeSome\<close> takes a prefix of the buffer to the kernel and removes it; \<open>readSome\<close> appends what it
  received, \<open>got k\<close> for the \<open>k\<close>-th call, as long as the buffer stays within \<open>limit\<close> bytes.
\<close>

fun sent_in :: "effect list \<Rightarrow> u8 list" where
  "sent_in [] = []"
| "sent_in (ESend bs # es) = bs @ sent_in es"
| "sent_in (e # es) = sent_in es"

lemma sent_in_append [simp]: "sent_in (es @ es') = sent_in es @ sent_in es'"
  by (induction es rule: sent_in.induct) auto

locale stream_io =
  fixes readSome :: read_some
    and writeSome :: write_some
    and got :: "nat \<Rightarrow> u8 list"
    and limit :: nat
  assumes read_contract: "bb_wf b \<Longrightarrow> bb_w b + length (got k) \<le> limit \<Longrightarrow>
      \<exists>n b1. readSome k b 4096 = Some (n, b1) \<and> bb_wf b1
      \<and> bb_contents b1 = bb_contents b @ got k \<and> (0 < n \<longleftrightarrow> got k \<noteq> []) \<and> bb_w b1 = bb_w b + length (got k)"
    and write_contract: "bb_wf b \<Longrightarrow> 0 < readableBytes b \<Longrightarrow>
      \<exists>n errno sent b1. writeSome k b (readableBytes b) = Some (n, errno, sent, b1) \<and> bb_wf b1
      \<and> bb_contents b = sent @ bb_contents b1 \<and> (n \<le> 0 \<longrightarrow> sent = []) \<and> bb_w b1 \<le> bb_w b"
begin

lemma write_loop_conserves:
  "bb_wf b \<Longrightarrow> \<exists>err k1 es b1. write_loop writeSome i k b = Some (err, k1, es, b1) \<and> bb_wf b1
     \<and> bb_contents b = sent_in es @ bb_contents b1 \<and> bb_w b1 \<le> bb_w b"
proof (induction i arbitrary: b k)
  case 0
  then show ?case by simp
next
  case (Suc i)
  show ?case
  proof (cases "0 < readableBytes b")
    case True
    then obtain n errno sent b1 where w: "writeSome k b (readableBytes b) = Some (n, errno, sent, b1)"
        "bb_wf b1" "bb_contents b = sent @ bb_contents b1" "n \<le> 0 \<longrightarrow> sent = []" "bb_w b1 \<le> bb_w b"
      using write_contract Suc.prems by blast
    obtain err k1 es b2 where "write_loop writeSome i (k + 1) b1 = Some (err, k1, es, b2)" "bb_wf b2"
        "bb_contents b1 = sent_in es @ bb_contents b2" "bb_w b2 \<le> bb_w b1"
      using Suc.IH [OF w(2)] by blast
    with True w show ?thesis by (cases "n < 0"; cases "0 < n") auto
  next
    case False
    with Suc.prems show ?thesis by simp
  qed
qed

lemma read_loop_collects:
  "bb_wf b \<Longrightarrow> bb_w b + length (concat (map got [k..<k + m])) \<le> limit \<Longrightarrow>
     (\<And>j. k \<le> j \<Longrightarrow> j < k + m \<Longrightarrow> got j \<noteq> []) \<Longrightarrow> got (k + m) = [] \<Longrightarrow>
     \<exists>n b0 b1. read_loop readSome k b = Some (n, k + m + 1, b1) \<and> bb_wf b1
       \<and> readSome (k + m) b0 4096 = Some (n, b1)
       \<and> bb_contents b1 = bb_contents b @ concat (map got [k..<k + m])"
proof (induction m arbitrary: b k)
  case 0
  then obtain n b1 where "readSome k b 4096 = Some (n, b1)" "bb_wf b1" "bb_contents b1 = bb_contents b"
      "\<not> 0 < n"
    using read_contract [of b k] by auto
  then show ?case by (subst read_loop.simps) auto
next
  case (Suc m)
  have up: "[k..<k + Suc m] = k # [Suc k..<Suc k + m]" by (simp add: upt_conv_Cons)
  have lim: "bb_w b + length (got k) + length (concat (map got [Suc k..<Suc k + m])) \<le> limit"
    using Suc.prems(2) unfolding up by simp
  have "got k \<noteq> []" using Suc.prems(3) by simp
  then obtain n b1 where r: "readSome k b 4096 = Some (n, b1)" "bb_wf b1" "0 < n"
      "bb_contents b1 = bb_contents b @ got k" "bb_w b1 = bb_w b + length (got k)"
    using read_contract [OF Suc.prems(1), of k] lim by auto
  have "\<exists>n b0 b2. read_loop readSome (Suc k) b1 = Some (n, Suc k + m + 1, b2) \<and> bb_wf b2
       \<and> readSome (Suc k + m) b0 4096 = Some (n, b2)
       \<and> bb_contents b2 = bb_contents b1 @ concat (map got [Suc k..<Suc k + m])"
    using lim r(5) Suc.prems(3,4) by (intro Suc.IH [OF r(2)]) auto
  then obtain n' b0 b2 where "read_loop readSome (Suc k) b1 = Some (n', Suc k + m + 1, b2)" "bb_wf b2"
      "readSome (Suc k + m) b0 4096 = Some (n', b2)"
      "bb_contents b2 = bb_contents b1 @ concat (map got [Suc k..<Suc k + m])" by blast
  with r show ?case
    unfolding up by (subst read_loop.simps) (intro exI [of _ n'] exI [of _ b0] exI [of _ b2], simp)
qed

end

lemma cap_iov_headroom: "cap_iov (min (readableBytes b) (readableBytes b)) (bb_headroom b) = bb_headroom b"
  by (simp add: bb_headroom_def)

lemma iov_bytes_headroom: "bb_wf b \<Longrightarrow> iov_bytes b (bb_headroom b) = Some (bb_contents b)"
  by (auto simp: bb_headroom_def iov_bytes_def readableBytes_wf vec_slice_contents)

interpretation tcp: stream_io "tcp_readSome (\<lambda>_. True) recv" "tcp_writeSome writev"
  "\<lambda>k. recv_bytes (recv k)" vec_max for recv writev
proof
  fix b k
  assume b: "bb_wf b" "bb_w b + length (recv_bytes (recv k)) \<le> vec_max"
  have len: "length (recv_bytes (recv k)) \<le> vec_max" using b(2) by simp
  show "\<exists>n b1. tcp_readSome (\<lambda>_. True) recv k b 4096 = Some (n, b1) \<and> bb_wf b1
      \<and> bb_contents b1 = bb_contents b @ recv_bytes (recv k) \<and> (0 < n \<longleftrightarrow> recv_bytes (recv k) \<noteq> [])
      \<and> bb_w b1 = bb_w b + length (recv_bytes (recv k))"
  proof (cases "recv k")
    case (RecvData bs)
    obtain ok b1 where "bb_write (\<lambda>_. True) b bs = Some (ok, b1)" "bb_wf b1" "ok"
        "bb_contents b1 = bb_contents b @ bs" "bb_w b1 = bb_w b + length bs"
      using bb_write_wf [OF b(1), of bs "\<lambda>_. True"] len b(2) RecvData by auto
    with RecvData show ?thesis by (auto simp: tcp_readSome_def)
  qed (use b in \<open>simp_all add: tcp_readSome_def\<close>)
next
  fix b k
  assume b: "bb_wf b" "0 < readableBytes b"
  let ?c = "bb_contents b"
  have h: "bb_headroom b \<noteq> []" using b(2) by (simp add: bb_headroom_def)
  have adv: "bb_wf (snd (bb_advance b n))" "bb_contents (snd (bb_advance b n)) = drop n ?c"
      "bb_w (snd (bb_advance b n)) \<le> bb_w b" for n
    using bb_advance_wf [OF b(1), of n] by auto
  show "\<exists>n errno sent b1. tcp_writeSome writev k b (readableBytes b) = Some (n, errno, sent, b1)
      \<and> bb_wf b1 \<and> ?c = sent @ bb_contents b1 \<and> (n \<le> 0 \<longrightarrow> sent = []) \<and> bb_w b1 \<le> bb_w b"
    using b h cap_iov_headroom [of b] iov_bytes_headroom [OF b(1)] adv
    by (cases "writev k (length ?c)") (auto simp: tcp_writeSome_def Let_def)
qed

end
