(* ===== verification/TransportProps.thy ===== *)
theory TransportProps
  imports LoopTransport
begin

section \<open>What the TCP transport guarantees\<close>

text \<open>
  The write buffer is a queue of bytes: what the kernel took and what is left is what was written, in
  order. Reads are collected into one inbound event. Then the deviations: a drained read ends in an
  error event, a large buffer is reported flushed too early, and the chunker's failure code reaches
  \<open>shutdown(2)\<close> as its second argument.
\<close>

subsection \<open>The stream of bytes written\<close>

datatype tr_op = TrWrite bytebuf | TrWritable | TrFlush

fun tr_step :: "writev_result \<Rightarrow> tr_op \<Rightarrow> nat \<times> 's transport \<Rightarrow> (effect list \<times> nat \<times> 's transport) option" where
  \<comment> \<open>a member function called, or the descriptor found writable, with the number of \<open>writev\<close> calls so far\<close>
  "tr_step writev (TrWrite b) (k, t) =
     map_option (\<lambda>(n, es, b1, t1). (es, k, t1)) (tr_write (\<lambda>_. True) b t)"
| "tr_step writev TrWritable (k, t) =
     map_option (\<lambda>(k1, es, d, t1). (es, k1, t1)) (onWritable (tcp_writeSome writev) k t)"
| "tr_step writev TrFlush (k, t) = Some (tr_flush t, k, t)"

fun tr_written :: "tr_op \<Rightarrow> u8 list" where
  "tr_written (TrWrite b) = bb_contents b"
| "tr_written TrWritable = []"
| "tr_written TrFlush = []"

fun tr_op_ok :: "tr_op \<Rightarrow> bool" where
  \<comment> \<open>a write of at most 2 MiB\<close>
  "tr_op_ok (TrWrite b) \<longleftrightarrow> bb_wf b \<and> length (bb_contents b) \<le> 2097152"
| "tr_op_ok _ \<longleftrightarrow> True"

definition tr_inv :: "alloc \<Rightarrow> nat \<Rightarrow> nat \<times> chunker transport \<Rightarrow> bool" where
  \<comment> \<open>with room for \<open>n\<close> more writes before a vector is too long\<close>
  "tr_inv al n st \<longleftrightarrow>
     (let t = snd st in bb_wf (tr_wbuf t) \<and> bb_w (tr_wbuf t) + n * 2097152 \<le> vec_max
        \<and> list_all (library_stage al) (cv_stages (tr_pipeline t)))"

definition tr_spec :: "tr_op \<Rightarrow> u8 list \<Rightarrow> u8 list \<Rightarrow> u8 list \<Rightarrow> bool" where
  "tr_spec x pending sent pending1 \<longleftrightarrow> sent @ pending1 = pending @ tr_written x"

lemma tr_write_ok:
  assumes "bb_wf b" "bb_wf (tr_wbuf t)" "bb_w (tr_wbuf t) + length (bb_contents b) \<le> vec_max"
  shows "\<exists>n es b1 t1. tr_write (\<lambda>_. True) b t = Some (n, es, b1, t1) \<and> bb_wf (tr_wbuf t1)
    \<and> bb_contents (tr_wbuf t1) = bb_contents (tr_wbuf t) @ bb_contents b
    \<and> bb_w (tr_wbuf t1) \<le> bb_w (tr_wbuf t) + length (bb_contents b)
    \<and> tr_pipeline t1 = tr_pipeline t \<and> sent_in es = []"
proof (cases "readableBytes b = 0")
  case True
  then show ?thesis using assms by (simp add: tr_write_def readableBytes_wf)
next
  case False
  let ?n = "length (bb_contents b)"
  from bb_write_from_wf [OF assms(2,1), of "\<lambda>_. True" ?n] assms(3) obtain w b1 where
    "bb_write_from (\<lambda>_. True) (tr_wbuf t) b ?n = Some (w, b1)" "bb_wf w"
    "bb_contents w = bb_contents (tr_wbuf t) @ bb_contents b"
    "bb_w w = bb_w (tr_wbuf t) + length (bb_contents b)" by auto
  with False assms(1) show ?thesis by (simp add: tr_write_def Let_def readableBytes_wf)
qed

lemma onWritable_ok:
  assumes "bb_wf (tr_wbuf t)" "list_all (library_stage al) (cv_stages (tr_pipeline t))"
  shows "\<exists>k1 es d t1. onWritable (tcp_writeSome writev) k t = Some (k1, es, d, t1) \<and> bb_wf (tr_wbuf t1)
    \<and> bb_contents (tr_wbuf t) = sent_in es @ bb_contents (tr_wbuf t1)
    \<and> bb_w (tr_wbuf t1) \<le> bb_w (tr_wbuf t)
    \<and> list_all (library_stage al) (cv_stages (tr_pipeline t1))"
proof -
  obtain err k1 es b where w: "write_loop (tcp_writeSome writev) 256 k (tr_wbuf t) = Some (err, k1, es, b)"
      "bb_wf b" "bb_contents (tr_wbuf t) = sent_in es @ bb_contents b" "bb_w b \<le> bb_w (tr_wbuf t)"
    using tcp.write_loop_conserves [OF assms(1), of writev 256 k] by blast
  show ?thesis
  proof (cases err)
    case None
    with w assms show ?thesis by (simp add: onWritable_def)
  next
    case (Some errno)
    obtain d cv where f: "conv_fireInbound (tr_pipeline t) (InboundTransportError errno) = Some (d, cv)"
        "list_all (library_stage al) (cv_stages cv)"
      using lib.fireInbound_returns [OF assms(2), of "InboundTransportError errno"] by auto
    show ?thesis
    proof (cases "errno = EAGAIN \<or> errno = EWOULDBLOCK")
      case True
      with Some w assms show ?thesis by (simp add: onWritable_def)
    next
      case False
      with Some w assms f show ?thesis by (simp add: onWritable_def)
    qed
  qed
qed

lemma tr_step_ok:
  assumes "tr_op_ok x" "tr_inv al (Suc n) st"
  shows "\<exists>es st1. tr_step writev x st = Some (es, st1) \<and> tr_inv al n st1
    \<and> tr_spec x (bb_contents (tr_wbuf (snd st))) (sent_in es) (bb_contents (tr_wbuf (snd st1)))"
proof -
  obtain k t where st: "st = (k, t)" by fastforce
  have t: "bb_wf (tr_wbuf t)" "bb_w (tr_wbuf t) + (2097152 + n * 2097152) \<le> vec_max"
      "list_all (library_stage al) (cv_stages (tr_pipeline t))"
    using assms(2) by (simp_all add: tr_inv_def st)
  show ?thesis
  proof (cases x)
    case (TrWrite b)
    with assms(1) have b: "bb_wf b" "length (bb_contents b) \<le> 2097152" by simp_all
    have lim: "bb_w (tr_wbuf t) + length (bb_contents b) \<le> vec_max" using t(2) b(2) by linarith
    from tr_write_ok [OF b(1) t(1) this] obtain m es b1 t1 where
      "tr_write (\<lambda>_. True) b t = Some (m, es, b1, t1)" "bb_wf (tr_wbuf t1)"
      "bb_contents (tr_wbuf t1) = bb_contents (tr_wbuf t) @ bb_contents b"
      "bb_w (tr_wbuf t1) \<le> bb_w (tr_wbuf t) + length (bb_contents b)"
      "tr_pipeline t1 = tr_pipeline t" "sent_in es = []" by blast
    with TrWrite t b show ?thesis by (simp add: st tr_inv_def tr_spec_def)
  next
    case TrWritable
    obtain k1 es d t1 where "onWritable (tcp_writeSome writev) k t = Some (k1, es, d, t1)"
        "bb_wf (tr_wbuf t1)" "bb_contents (tr_wbuf t) = sent_in es @ bb_contents (tr_wbuf t1)"
        "bb_w (tr_wbuf t1) \<le> bb_w (tr_wbuf t)"
        "list_all (library_stage al) (cv_stages (tr_pipeline t1))"
      using onWritable_ok [OF t(1,3), of writev k] by blast
    with TrWritable t show ?thesis by (simp add: st tr_inv_def tr_spec_def)
  next
    case TrFlush
    with t show ?thesis by (simp add: st tr_inv_def tr_spec_def tr_flush_def)
  qed
qed

interpretation tr: refined_ops "tr_step writev" tr_op_ok "tr_inv al"
  "\<lambda>st. bb_contents (tr_wbuf (snd st))" sent_in tr_spec for writev al
proof
  fix x n st
  assume a: "tr_op_ok x" "tr_inv al (Suc n) st"
  show "\<exists>r s1. tr_step writev x st = Some (r, s1) \<and> tr_inv al n s1"
    using tr_step_ok [OF a] by blast
  show "tr_spec x (bb_contents (tr_wbuf (snd st))) (sent_in r) (bb_contents (tr_wbuf (snd s1)))"
    if "tr_step writev x st = Some (r, s1)" for r s1
    using tr_step_ok [OF a, of writev] that by auto
qed

lemma spec_run_tr:
  "spec_run tr_spec xs a rs a1 \<Longrightarrow> concat rs @ a1 = a @ concat (map tr_written xs)"
  by (induction xs arbitrary: a rs) (auto simp: tr_spec_def)

lemma tr_stream:
  assumes "list_all tr_op_ok ops" "length ops < 2 ^ 41"
    and "tr_wbuf t = bb_empty" "list_all (library_stage al) (cv_stages (tr_pipeline t))"
  shows "\<exists>ess k1 t1. run_ops (tr_step writev) ops (k, t) = Some (ess, k1, t1)
    \<and> concat (map sent_in ess) @ bb_contents (tr_wbuf t1) = concat (map tr_written ops)"
proof -
  have "tr_inv al (length ops + 0) (k, t)"
    using assms(2-4) by (simp add: tr_inv_def vec_max_def)
  from tr.run_safe_refines [OF assms(1) this, of writev] show ?thesis
    using assms(3) spec_run_tr by fastforce
qed

text \<open>C22: For any interleaving of writes, flushes and writable events, and whatever the kernel takes or
  refuses each time, the bytes sent followed by the bytes still buffered are the bytes written, in the
  order written: none is lost, repeated or reordered.\<close>

theorem transport_stream_order:
  assumes "list_all tr_op_ok ops" "length ops < 2 ^ 41"
    and "tr_wbuf t = bb_empty" "list_all (library_stage al) (cv_stages (tr_pipeline t))"
  shows "\<exists>ess k1 t1. run_ops (tr_step writev) ops (k, t) = Some (ess, k1, t1)
    \<and> concat (map sent_in ess) @ bb_contents (tr_wbuf t1) = concat (map tr_written ops)"
  by (rule tr_stream [OF assms])

theorem transport_stream_order_witness:
  "\<exists>ess k1 t1. run_ops (tr_step (\<lambda>k n. if even k then Inl 1 else Inr EAGAIN))
      [TrWrite (bb_of [1, 2]), TrWritable, TrWrite (bb_of [3]), TrFlush, TrWritable]
      (0, \<lparr>tr_fd = 7, tr_self = [], tr_other = [], tr_pipeline = (conv_empty :: chunker conveyor), tr_wbuf = bb_empty,
         tr_on_flush = 0, tr_on_writable_state = 0, tr_on_shutdown = 0\<rparr>) = Some (ess, k1, t1)
    \<and> concat (map sent_in ess) @ bb_contents (tr_wbuf t1) = [1, 2, 3]"
  using transport_stream_order [of "[TrWrite (bb_of [1, 2]), TrWritable, TrWrite (bb_of [3]), TrFlush,
      TrWritable]" "\<lparr>tr_fd = 7, tr_self = [], tr_other = [], tr_pipeline = (conv_empty :: chunker conveyor),
      tr_wbuf = bb_empty, tr_on_flush = 0, tr_on_writable_state = 0, tr_on_shutdown = 0\<rparr>"
      "\<lambda>_. True" "\<lambda>k n. if even k then Inl 1 else Inr EAGAIN" 0]
  by (simp add: vec_max_def conv_empty_def del: run_ops.simps)

subsection \<open>Reads\<close>

text \<open>C31: When the descriptor is readable, everything received up to the end of the stream or the first
  error is fired into the pipeline as one event, in order and complete; after it comes an inactive event
  at the end of the stream, and an error event with code -1 for every error of recv, also for EAGAIN,
  which only says that there is no more for now.\<close>

theorem onReadable_delivers:
  assumes "\<forall>j. k \<le> j \<and> j < k + m \<longrightarrow> (\<exists>bs. recv j = RecvData bs \<and> bs \<noteq> [])"
    and "recv (k + m) = RecvEof \<or> (\<exists>errno. recv (k + m) = RecvError errno)"
    and "data = concat (map (\<lambda>j. recv_bytes (recv j)) [k..<k + m])" "length data \<le> vec_max"
    and "list_all (library_stage al) (cv_stages (tr_pipeline t))"
  shows "\<exists>buf d t1. onReadable (tcp_readSome (\<lambda>_. True) recv) k t = Some (k + m + 1,
      map EInbound ((if data = [] then [] else [InboundBytes buf]) @
        [if recv (k + m) = RecvEof then InboundTransportInactive else InboundTransportError (-1)]), d, t1)
    \<and> bb_contents buf = data"
proof -
  have "\<exists>n b0 b1. read_loop (tcp_readSome (\<lambda>_. True) recv) k bb_empty = Some (n, k + m + 1, b1) \<and> bb_wf b1
      \<and> tcp_readSome (\<lambda>_. True) recv (k + m) b0 4096 = Some (n, b1)
      \<and> bb_contents b1 = bb_contents bb_empty @ concat (map (\<lambda>j. recv_bytes (recv j)) [k..<k + m])"
    using assms(1,2,4) by (intro tcp.read_loop_collects) (fastforce simp: assms(3))+
  then obtain n b0 buf where l: "read_loop (tcp_readSome (\<lambda>_. True) recv) k bb_empty = Some (n, k + m + 1, buf)"
      "bb_wf buf" "tcp_readSome (\<lambda>_. True) recv (k + m) b0 4096 = Some (n, buf)" "bb_contents buf = data"
    by (auto simp: assms(3))
  have n: "n = (if recv (k + m) = RecvEof then 0 else -1)"
    using l(3) assms(2) by (auto simp: tcp_readSome_def)
  let ?es = "(if data = [] then [] else [InboundBytes buf]) @
      [if recv (k + m) = RecvEof then InboundTransportInactive else InboundTransportError (-1)]"
  have es: "read_events n buf = ?es"
    using l(2,4) by (simp add: read_events_def readableBytes_wf n EAGAIN_def EWOULDBLOCK_def)
  have fire: "\<exists>d cv1. fire_all conv_fireInbound cv es = Some (d, cv1)"
    if "list_all wf_event es" "list_all (library_stage al) (cv_stages cv)" for es cv
    using that
  proof (induction es arbitrary: cv)
    case Nil
    then show ?case by simp
  next
    case (Cons e es)
    then show ?case using lib.fireInbound_returns [of al cv e] by fastforce
  qed
  have "list_all wf_event ?es" using l(2) by simp
  from fire [OF this assms(5)] obtain d cv where
    f: "fire_all conv_fireInbound (tr_pipeline t) ?es = Some (d, cv)" by blast
  have "onReadable (tcp_readSome (\<lambda>_. True) recv) k t =
      Some (k + m + 1, map EInbound ?es, d, t\<lparr>tr_pipeline := cv\<rparr>)"
    using l(1) f by (simp add: onReadable_def es del: fire_all.simps)
  with l(4) show ?thesis by blast
qed

theorem onReadable_delivers_witness:
  "\<exists>buf d t1. onReadable (tcp_readSome (\<lambda>_. True)
        (\<lambda>k. if k < 2 then RecvData [1, 2] else RecvError EAGAIN)) 0
      \<lparr>tr_fd = 7, tr_self = [], tr_other = [], tr_pipeline = framed_pipeline [] [] chunker_init,
         tr_wbuf = bb_empty, tr_on_flush = 0, tr_on_writable_state = 0, tr_on_shutdown = 0\<rparr> =
      Some (3, [EInbound (InboundBytes buf), EInbound (InboundTransportError (-1))], d, t1)
    \<and> bb_contents buf = [1, 2, 1, 2]"
proof -
  let ?recv = "\<lambda>k. if k < 2 then RecvData [1, 2] else RecvError EAGAIN"
  let ?t = "\<lparr>tr_fd = 7, tr_self = [], tr_other = [], tr_pipeline = framed_pipeline [] [] chunker_init,
         tr_wbuf = bb_empty, tr_on_flush = 0, tr_on_writable_state = 0, tr_on_shutdown = 0\<rparr>"
  have "[1, 2, 1, 2] = concat (map (\<lambda>j. recv_bytes (?recv j)) [0..<0 + 2])" by (simp add: upt_rec)
  moreover have "length [1, 2, 1, 2 :: u8] \<le> vec_max" by (simp add: vec_max_def)
  moreover have "list_all (library_stage (\<lambda>_. True)) (cv_stages (tr_pipeline ?t))"
    by (simp add: framed_pipeline_simps library_stage_chunker)
  ultimately show ?thesis using onReadable_delivers [of 0 2 ?recv "[1, 2, 1, 2]" "\<lambda>_. True" ?t]
    by (simp add: numeral_3_eq_3)
qed

subsection \<open>Flushing\<close>

lemma write_loop_trickle:
  "bb_wf b \<Longrightarrow> i < length (bb_contents b) \<Longrightarrow> writev = (\<lambda>k n. Inl 1) \<Longrightarrow>
     \<exists>es b1. write_loop (tcp_writeSome writev) i k b = Some (None, k + i, es, b1) \<and> bb_wf b1
       \<and> bb_contents b1 = drop i (bb_contents b) \<and> sent_in es = take i (bb_contents b)"
proof (induction i arbitrary: b k)
  case 0
  then show ?case by simp
next
  case (Suc i)
  let ?b1 = "snd (bb_advance b 1)" and ?c = "bb_contents b"
  note adv = bb_advance_wf [OF Suc.prems(1), of 1]
  have "0 < readableBytes b"
    using Suc.prems(1,2) by (cases "bb_contents b") (auto simp: readableBytes_wf)
  moreover from this have "bb_headroom b \<noteq> []" by (simp add: bb_headroom_def)
  ultimately have w: "tcp_writeSome writev k b (readableBytes b) = Some (1, 0, take 1 ?c, ?b1)"
    using cap_iov_headroom [of b] iov_bytes_headroom [OF Suc.prems(1)] Suc.prems(3)
    by (simp add: tcp_writeSome_def Let_def)
  obtain es b2 where "write_loop (tcp_writeSome writev) i (k + 1) ?b1 = Some (None, k + 1 + i, es, b2)"
      "bb_wf b2" "bb_contents b2 = drop i (bb_contents ?b1)" "sent_in es = take i (bb_contents ?b1)"
    using Suc.IH [OF adv(2) _ Suc.prems(3), of "k + 1"] Suc.prems(2) unfolding adv(3) by force
  with w \<open>0 < readableBytes b\<close> adv(3) show ?case
    using take_add [of 1 i ?c] by (auto simp: plus_1_eq_Suc)
qed

text \<open>A writable event stops after 256 partial writes: with bytes left in the buffer it still unwatches
  the descriptor and runs the flush callback, so that nothing sends the rest until the next write or
  flush.\<close>

theorem onWritable_reports_flush_early:
  assumes "bb_wf (tr_wbuf t)" "256 < length (bb_contents (tr_wbuf t))" "writev = (\<lambda>k n. Inl 1)"
  shows "\<exists>es t1. onWritable (tcp_writeSome writev) k t =
      Some (k + 256, es @ [EUnwatch (tr_fd t) WRONLY, EFlushCompleted (tr_on_flush t)], [], t1)
    \<and> sent_in es = take 256 (bb_contents (tr_wbuf t))
    \<and> bb_contents (tr_wbuf t1) = drop 256 (bb_contents (tr_wbuf t)) \<and> bb_contents (tr_wbuf t1) \<noteq> []"
proof -
  obtain es b1 where "write_loop (tcp_writeSome writev) 256 k (tr_wbuf t) = Some (None, k + 256, es, b1)"
      "bb_contents b1 = drop 256 (bb_contents (tr_wbuf t))" "sent_in es = take 256 (bb_contents (tr_wbuf t))"
    using write_loop_trickle [OF assms(1,2,3)] by blast
  with assms(2) show ?thesis by (simp add: onWritable_def)
qed

theorem onWritable_reports_flush_early_witness:
  "\<exists>es t1. onWritable (tcp_writeSome (\<lambda>k n. Inl 1)) 0
      \<lparr>tr_fd = 7, tr_self = [], tr_other = [], tr_pipeline = (conv_empty :: chunker conveyor),
         tr_wbuf = bb_of (replicate 300 5), tr_on_flush = 9, tr_on_writable_state = 0, tr_on_shutdown = 0\<rparr> =
      Some (256, es @ [EUnwatch 7 WRONLY, EFlushCompleted 9], [], t1)
    \<and> bb_contents (tr_wbuf t1) = replicate 44 5"
  using onWritable_reports_flush_early [of "\<lparr>tr_fd = 7, tr_self = [], tr_other = [],
      tr_pipeline = (conv_empty :: chunker conveyor), tr_wbuf = bb_of (replicate 300 5), tr_on_flush = 9,
      tr_on_writable_state = 0, tr_on_shutdown = 0\<rparr>" "\<lambda>k n. Inl 1" 0]
  by (auto simp: vec_max_def)

subsection \<open>Failures of the chunker\<close>

text \<open>When a chunk header is too large, the transport's shutdown is called with the chunker's error
  code -EMSGSIZE and passes it to shutdown(2) as the second argument, where only 0, 1 and 2 are valid.\<close>

theorem oversized_frame_invalid_shutdown:
  assumes "list_all byte_passive pre" "bb_wf buf" "length (bb_contents buf) \<le> vec_max"
    and "bb_contents buf = ui32_bytes v @ rest" "kChunkLimit < unat v"
  shows "\<exists>d cv. conv_fireInbound (framed_pipeline pre post chunker_init) (InboundBytes buf) = Some (d, cv)
    \<and> cv_shutdowns cv = [- EMSGSIZE]
    \<and> concat (map (\<lambda>how. tr_shutdown how t) (cv_shutdowns cv)) = [EShutdown (tr_fd t) (- EMSGSIZE)]
    \<and> - EMSGSIZE \<notin> {0, 1, 2}"
proof -
  let ?cv = "framed_pipeline pre post chunker_init" and ?e = "InboundBytes buf"
  have "drain 0 (bb_contents buf) = ([], None)"
    using assms(4,5) by (intro drain_big) simp_all
  with chunker_onInbound_drain [of chunker_init buf "[]" None] assms(2,3) obtain c1 where
    c1: "chunker_onInbound (\<lambda>_. True) chunker_init buf = Some (c1, [Failure (- EMSGSIZE)])"
    by (auto simp: limit_failure_def deliver_def)
  then have st: "conv_step ?cv (RunIn (length pre) ?e) =
      Some (framed_pipeline pre post c1, [RunShutdown (- EMSGSIZE)])"
    by (simp add: framed_pipeline_simps chunker_stage_inbound)
  have "conv_step cv (RunShutdown w) = Some (cv\<lparr>cv_shutdowns := cv_shutdowns cv @ [w]\<rparr>, [])"
    for cv :: "chunker conveyor" and w by simp
  from conv_exec_step [OF this] have
    "conv_exec ?cv [RunIn (length pre) ?e] = Some ([RunIn (length pre) ?e, RunShutdown (- EMSGSIZE)],
       (framed_pipeline pre post c1)\<lparr>cv_shutdowns := [- EMSGSIZE]\<rparr>)"
    by (simp add: conv_exec_step [OF st] del: conv_step.simps) (simp add: framed_pipeline_def)
  moreover have "conv_exec ?cv [RunIn 0 ?e] = map_option (\<lambda>(d, cv2).
      (map (\<lambda>j. RunIn j ?e) [0..<length pre] @ d, cv2)) (conv_exec ?cv [RunIn (length pre) ?e])"
    using assms(1) by (intro conv_exec_in_skip)
      (auto simp: framed_pipeline_simps byte_passive_def nth_append list_all_length)
  ultimately show ?thesis
    by (simp add: conv_fireInbound_def framed_pipeline_simps tr_shutdown_def EMSGSIZE_def)
qed

theorem oversized_frame_invalid_shutdown_witness:
  "\<exists>d cv. conv_fireInbound (framed_pipeline [] [] chunker_init) (InboundBytes (bb_of [255, 255, 255, 0])) =
      Some (d, cv) \<and> cv_shutdowns cv = [- EMSGSIZE]"
  using oversized_frame_invalid_shutdown [of "[]" "bb_of [255, 255, 255, 0]" 16777215 "[]" "[]" undefined]
  by (auto simp: vec_max_def ui32_bytes_def kChunkLimit_def)

end
