(* ===== verification/TransportMessages.thy ===== *)
theory TransportMessages
  imports TransportProps "HOL-Library.Sublist"
begin

section \<open>Messages across a TCP connection\<close>

text \<open>
  Composes the two ends of a connection: messages framed by the chunker of one pipeline, handed to the
  transport's write buffer, taken by the kernel in any portions, received by the other transport in any
  portions over any number of readable events, and cut up again by the chunker of its pipeline. What the
  kernel does between the two ends is documented: TCP delivers the bytes it took, in their order.
\<close>

subsection \<open>A receiver over several readable events\<close>

fun read_rounds :: "read_some \<Rightarrow> nat \<Rightarrow> nat \<Rightarrow> 's transport \<Rightarrow> (task list \<times> nat \<times> 's transport) option" where
  \<comment> \<open>\<open>onReadable\<close> called \<open>n\<close> times, from the \<open>k\<close>-th call of \<open>recv\<close> on\<close>
  "read_rounds readSome 0 k t = Some ([], k, t)"
| "read_rounds readSome (Suc n) k t =
     do { (k1, es, d, t1) \<leftarrow> onReadable readSome k t;
          (d2, k2, t2) \<leftarrow> read_rounds readSome n k1 t1;
          Some (d @ d2, k2, t2) }"

type_synonym recv_round = "u8 list list \<times> recv_result"

definition recv_script :: "recv_round list \<Rightarrow> recv_result list" where
  \<comment> \<open>the results of \<open>recv\<close>: in each round pieces of the stream, then what ends the round\<close>
  "recv_script rounds = concat (map (\<lambda>(ps, stop). map RecvData ps @ [stop]) rounds)"

fun stops :: "recv_result \<Rightarrow> bool" where
  "stops (RecvData bs) = False"
| "stops r = True"

definition rounds_ok :: "recv_round list \<Rightarrow> bool" where
  "rounds_ok rounds \<longleftrightarrow> list_all (\<lambda>(ps, stop). [] \<notin> set ps \<and> stops stop) rounds"

definition received :: "recv_round list \<Rightarrow> u8 list" where
  "received rounds = concat (concat (map fst rounds))"

subsection \<open>Events that pass through\<close>

fun end_event :: "event \<Rightarrow> bool" where
  "end_event InboundTransportInactive = True"
| "end_event (InboundTransportError n) = True"
| "end_event e = False"

definition end_passive :: "'s stage \<Rightarrow> bool" where
  "end_passive st \<longleftrightarrow> on_inbound st KInboundTransportInactive = None \<and> on_inbound st KInboundTransportError = None"

fun bufs_in :: "event list \<Rightarrow> bytebuf list" where
  "bufs_in [] = []"
| "bufs_in (InboundBytes b # es) = b # bufs_in es"
| "bufs_in (e # es) = bufs_in es"

fun read_event :: "event \<Rightarrow> bool" where
  "read_event (InboundBytes b) = bb_wf b"
| "read_event e = end_event e"

lemma bufs_in_append [simp]: "bufs_in (es @ es') = bufs_in es @ bufs_in es'"
  by (induction es rule: bufs_in.induct) simp_all

lemma bytes_in_at_end: "end_event e \<Longrightarrow> bytes_in_at k (map (\<lambda>j. RunIn j e) js) = []"
  by (induction js) (cases e; simp)+

lemma pipeline_end:
  assumes "list_all end_passive pre" "list_all end_passive post" "end_event e"
  shows "\<exists>d. conv_fireInbound (framed_pipeline pre post c) e = Some (d, framed_pipeline pre post c)
    \<and> bytes_in_at k d = []"
proof -
  let ?cv = "framed_pipeline pre post c"
  have "end_passive (chunker_stage (\<lambda>_. True) c)" by (simp add: end_passive_def chunker_stage_def)
  then have "list_all end_passive (cv_stages ?cv)" using assms(1,2) by (simp add: framed_pipeline_simps)
  then have "on_inbound (cv_stages ?cv ! j) (kind_of e) = None" if "j < length (cv_stages ?cv)" for j
    using that assms(3) by (cases e) (auto simp: list_all_length end_passive_def)
  then have "conv_exec ?cv [RunIn 0 e] = Some (map (\<lambda>j. RunIn j e) [0..<Suc (length (cv_stages ?cv))], ?cv)"
    using conv_exec_in_end [of 0 ?cv e "[]"] by (simp del: upt_Suc)
  then show ?thesis
    using bytes_in_at_end [OF assms(3)] by (simp add: conv_fireInbound_def framed_pipeline_simps del: upt_Suc)
qed

lemma pipeline_read:
  assumes "list_all byte_passive pre" "list_all byte_passive post" "list_all end_passive pre" "list_all end_passive post"
    and "list_all read_event es" "chunker_feed (\<lambda>_. True) c (bufs_in es) = Some (c1, deliver fs)"
  shows "\<exists>d. fire_all conv_fireInbound (framed_pipeline pre post c) es = Some (d, framed_pipeline pre post c1)
    \<and> bytes_in_at (Suc (length pre)) d = fs"
  using assms(5,6)
proof (induction es arbitrary: c fs)
  case Nil
  then show ?case by (simp add: deliver_def)
next
  case (Cons e es)
  show ?case
  proof (cases "end_event e")
    case True
    obtain d1 where d1: "conv_fireInbound (framed_pipeline pre post c) e = Some (d1, framed_pipeline pre post c)"
        "bytes_in_at (Suc (length pre)) d1 = []"
      using pipeline_end [OF assms(3,4) True] by blast
    have "chunker_feed (\<lambda>_. True) c (bufs_in es) = Some (c1, deliver fs)" using Cons.prems(2) True by (cases e) simp_all
    with Cons.IH Cons.prems(1) d1 show ?thesis by fastforce
  next
    case False
    then obtain b where e: "e = InboundBytes b" using Cons.prems(1) by (cases e) simp_all
    from Cons.prems(2) obtain c2 k1 k2 where 1: "chunker_onInbound (\<lambda>_. True) c b = Some (c2, k1)"
        "chunker_feed (\<lambda>_. True) c2 (bufs_in es) = Some (c1, k2)" "deliver fs = k1 @ k2"
      by (auto simp: e split: Option.bind_splits prod.splits)
    from 1(3) obtain f1 f2 where f: "k1 = deliver f1" "k2 = deliver f2" "fs = f1 @ f2"
      by (auto simp: deliver_def map_eq_append_conv)
    obtain d1 where d1: "conv_fireInbound (framed_pipeline pre post c) e =
        Some (d1, framed_pipeline pre post c2)" "bytes_in_at (Suc (length pre)) d1 = f1"
      using pipeline_in [OF assms(1,2)] 1(1) f(1) e by blast
    obtain d2 where "fire_all conv_fireInbound (framed_pipeline pre post c2) es = Some (d2, framed_pipeline pre post c1)"
        "bytes_in_at (Suc (length pre)) d2 = f2"
      using Cons.IH 1(2) f(2) Cons.prems(1) by fastforce
    with d1 f(3) show ?thesis by simp
  qed
qed

lemma fire_all_append:
  "fire_all fire cv (es @ es') =
     do { (d1, cv1) \<leftarrow> fire_all fire cv es; (d2, cv2) \<leftarrow> fire_all fire cv1 es'; Some (d1 @ d2, cv2) }"
  by (induction es arbitrary: cv) (auto split: Option.bind_splits prod.splits)

subsection \<open>What a receiver fires\<close>

lemma onReadable_round:
  assumes "\<forall>j < length ps. recv (k + j) = RecvData (ps ! j)" "[] \<notin> set ps" "recv (k + length ps) = stop" "stops stop"
    and "length (concat ps) \<le> vec_max"
  obtains n buf where "read_loop (tcp_readSome (\<lambda>_. True) recv) k bb_empty = Some (n, k + length ps + 1, buf)"
    "bb_wf buf" "bb_contents buf = concat ps"
proof -
  have got: "map (\<lambda>j. recv_bytes (recv j)) [k..<k + length ps] = ps"
    using assms(1) by (intro nth_equalityI) simp_all
  have "recv_bytes (recv j) \<noteq> []" if "k \<le> j" "j < k + length ps" for j
    using assms(1) [rule_format, of "j - k"] that assms(2) by (auto simp: in_set_conv_nth)
  moreover have "recv_bytes (recv (k + length ps)) = []" using assms(3,4) by (cases stop) simp_all
  ultimately have "\<exists>n b0 b1. read_loop (tcp_readSome (\<lambda>_. True) recv) k bb_empty = Some (n, k + length ps + 1, b1) \<and> bb_wf b1
       \<and> tcp_readSome (\<lambda>_. True) recv (k + length ps) b0 4096 = Some (n, b1)
       \<and> bb_contents b1 = bb_contents bb_empty @ concat (map (\<lambda>j. recv_bytes (recv j)) [k..<k + length ps])"
    using assms(5) got by (intro tcp.read_loop_collects) simp_all
  with that got show thesis by auto
qed

lemma read_rounds_events:
  assumes "rounds_ok rounds" "\<forall>j < length (recv_script rounds). recv (k + j) = recv_script rounds ! j"
    and "length (received rounds) \<le> vec_max"
  shows "\<exists>es. list_all read_event es \<and> stream_of (bufs_in es) = received rounds
    \<and> (\<forall>(t :: 's transport) d cv. fire_all conv_fireInbound (tr_pipeline t) es = Some (d, cv) \<longrightarrow>
        read_rounds (tcp_readSome (\<lambda>_. True) recv) (length rounds) k t =
          Some (d, k + length (recv_script rounds), t\<lparr>tr_pipeline := cv\<rparr>))"
  using assms
proof (induction rounds arbitrary: k)
  case Nil
  then show ?case by (intro exI [of _ "[]"]) (simp add: received_def recv_script_def)
next
  case (Cons r rounds)
  obtain ps stop where r: "r = (ps, stop)" by fastforce
  have ok: "[] \<notin> set ps" "stops stop" "rounds_ok rounds" using Cons.prems(1) by (simp_all add: rounds_ok_def r)
  have script: "recv_script (r # rounds) = map RecvData ps @ stop # recv_script rounds"
    by (simp add: recv_script_def r)
  have rec: "received (r # rounds) = concat ps @ received rounds" by (simp add: received_def r)
  have at: "recv (k + j) = (map RecvData ps @ stop # recv_script rounds) ! j"
    if "j < length ps + Suc (length (recv_script rounds))" for j
    using Cons.prems(2) that by (simp add: script)
  have a1: "\<forall>j < length ps. recv (k + j) = RecvData (ps ! j)" using at by (simp add: nth_append)
  have a2: "recv (k + length ps) = stop" using at [of "length ps"] by (simp add: nth_append)
  have a3: "\<forall>j < length (recv_script rounds). recv (k + length ps + 1 + j) = recv_script rounds ! j"
    using at [of "length ps + Suc j" for j] by (simp add: nth_append ac_simps)
  have len: "length (concat ps) \<le> vec_max" "length (received rounds) \<le> vec_max"
    using Cons.prems(3) by (simp_all add: rec)
  obtain n buf where l: "read_loop (tcp_readSome (\<lambda>_. True) recv) k bb_empty = Some (n, k + length ps + 1, buf)"
      "bb_wf buf" "bb_contents buf = concat ps"
    using onReadable_round [OF a1 ok(1) a2 ok(2) len(1)] by blast
  obtain es where es: "list_all read_event es" "stream_of (bufs_in es) = received rounds"
      "\<And>(t :: 's transport) d cv. fire_all conv_fireInbound (tr_pipeline t) es = Some (d, cv) \<Longrightarrow>
        read_rounds (tcp_readSome (\<lambda>_. True) recv) (length rounds) (k + length ps + 1) t =
          Some (d, k + length ps + 1 + length (recv_script rounds), t\<lparr>tr_pipeline := cv\<rparr>)"
    using Cons.IH [OF ok(3) a3 len(2)] by blast
  have ev: "list_all read_event (read_events n buf)" "stream_of (bufs_in (read_events n buf)) = concat ps"
    using l(2,3) by (auto simp: read_events_def readableBytes_wf)
  show ?case
  proof (intro exI conjI allI impI)
    show "list_all read_event (read_events n buf @ es)" using ev(1) es(1) by simp
    show "stream_of (bufs_in (read_events n buf @ es)) = received (r # rounds)"
      using ev(2) es(2) by (simp add: rec stream_of_def)
    fix t :: "'s transport" and d cv
    assume "fire_all conv_fireInbound (tr_pipeline t) (read_events n buf @ es) = Some (d, cv)"
    then obtain d1 cv1 d2 where f: "fire_all conv_fireInbound (tr_pipeline t) (read_events n buf) = Some (d1, cv1)"
        "fire_all conv_fireInbound cv1 es = Some (d2, cv)" "d = d1 @ d2"
      by (auto simp: fire_all_append split: Option.bind_splits)
    have "onReadable (tcp_readSome (\<lambda>_. True) recv) k t =
        Some (k + length ps + 1, map EInbound (read_events n buf), d1, t\<lparr>tr_pipeline := cv1\<rparr>)"
      using l(1) f(1) by (simp add: onReadable_def)
    with es(3) [of "t\<lparr>tr_pipeline := cv1\<rparr>" d2 cv] f(2,3)
    show "read_rounds (tcp_readSome (\<lambda>_. True) recv) (length (r # rounds)) k t =
        Some (d, k + length (recv_script (r # rounds)), t\<lparr>tr_pipeline := cv\<rparr>)"
      by (simp add: script)
  qed
qed

subsection \<open>Part of a framed stream\<close>

lemma drain_prefix:
  assumes "\<forall>m \<in> set ms. length m \<le> kChunkLimit" "wire @ rest = concat (map frame ms)"
  obtains fs x where "drain 0 wire = (fs, Some x)" "prefix fs ms" "rest = [] \<Longrightarrow> fs = ms"
proof -
  have full: "drain 0 (wire @ rest) = (ms, Some (0, []))"
    using drain_frames [OF assms(1), of "[]"] assms(2) by simp
  have "snd (drain 0 wire) \<noteq> None"
  proof
    assume none: "snd (drain 0 wire) = None"
    from drain_append_None [OF this, of rest] full have "drain 0 wire = (ms, Some (0, []))" by simp
    with none show False by simp
  qed
  then obtain q r where st: "snd (drain 0 wire) = Some (q, r)" by auto
  from drain_append [OF st, of rest] full have "ms = fst (drain 0 wire) @ fst (drain q (r @ rest))" by simp
  moreover have "rest = [] \<Longrightarrow> fst (drain 0 wire) = ms" using full by simp
  ultimately show thesis using that [of "fst (drain 0 wire)" "(q, r)"] st by (auto simp: prefix_def prod_eq_iff)
qed

lemma receiver_delivers:
  assumes "list_all byte_passive pre" "list_all byte_passive post" "list_all end_passive pre" "list_all end_passive post"
    and "tr_pipeline t = framed_pipeline pre post chunker_init" "rounds_ok rounds"
    and "\<forall>j < length (recv_script rounds). recv j = recv_script rounds ! j"
    and "length (received rounds) \<le> vec_max" "drain 0 (received rounds) = (fs, Some x)"
  shows "\<exists>d t1. read_rounds (tcp_readSome (\<lambda>_. True) recv) (length rounds) 0 t =
      Some (d, length (recv_script rounds), t1) \<and> bytes_in_at (Suc (length pre)) d = fs"
proof -
  have "\<forall>j < length (recv_script rounds). recv (0 + j) = recv_script rounds ! j" using assms(7) by simp
  from read_rounds_events [OF assms(6) this assms(8)] obtain es where es: "list_all read_event es"
      "stream_of (bufs_in es) = received rounds"
      "\<And>(t :: chunker transport) d cv. fire_all conv_fireInbound (tr_pipeline t) es = Some (d, cv) \<Longrightarrow>
        read_rounds (tcp_readSome (\<lambda>_. True) recv) (length rounds) 0 t =
          Some (d, 0 + length (recv_script rounds), t\<lparr>tr_pipeline := cv\<rparr>)" by blast
  have wf: "list_all bb_wf (bufs_in es)" using es(1) by (induction es rule: bufs_in.induct) simp_all
  obtain c1 where "chunker_feed (\<lambda>_. True) chunker_init (bufs_in es) = Some (c1, deliver fs)"
    using chunker_feed_init [OF wf] es(2) assms(8,9) by auto
  from pipeline_read [OF assms(1-4) es(1) this] obtain d where
    "fire_all conv_fireInbound (tr_pipeline t) es = Some (d, framed_pipeline pre post c1)"
    "bytes_in_at (Suc (length pre)) d = fs" by (auto simp: assms(5))
  with es(3) show ?thesis by fastforce
qed

text \<open>C2: Messages framed by one end and written to its transport, whatever portions the kernel takes, arrive
  at the stage after the other end's chunker as a prefix of the messages, in order and whole, however the
  bytes that have arrived are cut up by recv and over readable events; once everything written has been
  sent and received, they are the messages.\<close>

theorem messages_cross_tcp:
  assumes "list_all byte_passive pre" "list_all byte_passive post" "pre \<noteq> []"
    and "\<forall>m \<in> set ms. length m \<le> kChunkLimit"
    and "fire_all conv_fireOutbound (framed_pipeline pre post c) (map (\<lambda>m. OutboundBytes (bb_of m)) ms) = Some (d, cv)"
    and "tr_pipeline t = cv" "list_all (library_stage al) (cv_stages cv)" "tr_wbuf t = bb_empty"
    and "list_all tr_op_ok ops" "length ops < 2 ^ 41" "concat (map tr_written ops) = concat (bytes_out_at 0 d)"
    and "list_all byte_passive pre'" "list_all byte_passive post'" "list_all end_passive pre'" "list_all end_passive post'"
    and "tr_pipeline t' = framed_pipeline pre' post' chunker_init"
  shows "\<exists>ess k1 t1. run_ops (tr_step writev) ops (0, t) = Some (ess, k1, t1) \<and>
    (\<forall>rounds recv. rounds_ok rounds \<and> (\<forall>j < length (recv_script rounds). recv j = recv_script rounds ! j)
        \<and> prefix (received rounds) (concat (map sent_in ess)) \<and> length (received rounds) \<le> vec_max \<longrightarrow>
      (\<exists>d' t2. read_rounds (tcp_readSome (\<lambda>_. True) recv) (length rounds) 0 t' =
          Some (d', length (recv_script rounds), t2)
        \<and> prefix (bytes_in_at (Suc (length pre')) d') ms
        \<and> (received rounds = concat (map sent_in ess) \<and> bb_contents (tr_wbuf t1) = []
           \<longrightarrow> bytes_in_at (Suc (length pre')) d' = ms)))"
proof -
  obtain d0 where "fire_all conv_fireOutbound (framed_pipeline pre post c)
        (map (\<lambda>m. OutboundBytes (bb_of m)) ms) = Some (d0, framed_pipeline pre post c)"
      "bytes_out_at 0 d0 = map frame ms"
    using pipeline_out_all [OF assms(1-4)] by blast
  with assms(5) have frames: "bytes_out_at 0 d = map frame ms" by simp
  have "list_all (library_stage al) (cv_stages (tr_pipeline t))" using assms(6,7) by simp
  from tr_stream [OF assms(9,10,8) this, of writev 0] obtain ess k1 t1 where
    run: "run_ops (tr_step writev) ops (0, t) = Some (ess, k1, t1)"
      "concat (map sent_in ess) @ bb_contents (tr_wbuf t1) = concat (map frame ms)"
    using assms(11) frames by auto
  have "\<exists>d' t2. read_rounds (tcp_readSome (\<lambda>_. True) recv) (length rounds) 0 t' =
          Some (d', length (recv_script rounds), t2)
        \<and> prefix (bytes_in_at (Suc (length pre')) d') ms
        \<and> (received rounds = concat (map sent_in ess) \<and> bb_contents (tr_wbuf t1) = []
           \<longrightarrow> bytes_in_at (Suc (length pre')) d' = ms)"
    if r: "rounds_ok rounds" "\<forall>j < length (recv_script rounds). recv j = recv_script rounds ! j"
      "prefix (received rounds) (concat (map sent_in ess))" "length (received rounds) \<le> vec_max" for rounds recv
  proof -
    from r(3) obtain zs where zs: "concat (map sent_in ess) = received rounds @ zs" by (auto simp: prefix_def)
    have "received rounds @ zs @ bb_contents (tr_wbuf t1) = concat (map frame ms)" using run(2) zs by simp
    from drain_prefix [OF assms(4) this] obtain fs x where fs: "drain 0 (received rounds) = (fs, Some x)"
        "prefix fs ms" "zs @ bb_contents (tr_wbuf t1) = [] \<Longrightarrow> fs = ms" by blast
    from receiver_delivers [OF assms(12-16) r(1,2,4) fs(1)] fs(2,3) zs show ?thesis by auto
  qed
  with run(1) show ?thesis by blast
qed

definition demo_conn :: "chunker conveyor \<Rightarrow> chunker transport" where
  "demo_conn cv = \<lparr>tr_fd = 7, tr_self = [], tr_other = [], tr_pipeline = cv, tr_wbuf = bb_empty,
     tr_on_flush = 0, tr_on_writable_state = 0, tr_on_shutdown = 0\<rparr>"

lemma write_loop_at_once:
  assumes "bb_wf b" "bb_contents b \<noteq> []"
  shows "\<exists>k1 b1. write_loop (tcp_writeSome (\<lambda>k n. Inl n)) (Suc (Suc i)) k b = Some (None, k1, [ESend (bb_contents b)], b1)
    \<and> bb_contents b1 = []"
proof -
  let ?b1 = "snd (bb_advance b (length (bb_contents b)))"
  have r: "0 < readableBytes b" using assms by (simp add: readableBytes_wf)
  then have h: "bb_headroom b \<noteq> []" by (simp add: bb_headroom_def)
  have b1: "bb_contents ?b1 = []" "bb_wf ?b1" using bb_advance_wf [OF assms(1), of "length (bb_contents b)"] by auto
  have w: "tcp_writeSome (\<lambda>k n. Inl n) k b (readableBytes b) = Some (int (length (bb_contents b)), 0, bb_contents b, ?b1)"
    using r h assms cap_iov_headroom [of b] iov_bytes_headroom [OF assms(1)] by (simp add: tcp_writeSome_def Let_def)
  have "readableBytes ?b1 = 0" using b1 by (simp add: readableBytes_wf)
  with r w assms(2) b1 show ?thesis by simp
qed

lemma send_at_once:
  assumes "tr_wbuf t = bb_empty" "xs \<noteq> []" "length xs \<le> vec_max"
  shows "\<exists>ess k1 t1. run_ops (tr_step (\<lambda>k n. Inl n)) [TrWrite (bb_of xs), TrWritable] (0, t) = Some (ess, k1, t1)
    \<and> concat (map sent_in ess) = xs"
proof -
  obtain n es b1 t1 where w: "tr_write (\<lambda>_. True) (bb_of xs) t = Some (n, es, b1, t1)" "bb_wf (tr_wbuf t1)"
      "bb_contents (tr_wbuf t1) = xs" "sent_in es = []"
    using tr_write_ok [of "bb_of xs" t] assms by auto
  then obtain k1 b2 where l: "write_loop (tcp_writeSome (\<lambda>k n. Inl n)) 256 0 (tr_wbuf t1) = Some (None, k1, [ESend xs], b2)"
    using write_loop_at_once [of "tr_wbuf t1" 254 0] assms(2) by (auto simp: eval_nat_numeral simp del: write_loop.simps)
  from w l show ?thesis by (simp add: onWritable_def del: write_loop.simps)
qed

theorem messages_cross_tcp_witness:
  "\<exists>ess k1 t1 d' t2. run_ops (tr_step (\<lambda>k n. Inl n)) [TrWrite (bb_of (frame [1, 2] @ frame [3])), TrWritable]
      (0, demo_conn (framed_pipeline [passive_stage chunker_init] [] chunker_init)) = Some (ess, k1, t1)
    \<and> read_rounds (tcp_readSome (\<lambda>_. True) (\<lambda>j. recv_script [([[2, 0], [0, 0, 1]], RecvError EAGAIN), ([[2, 1]], RecvEof)] ! j))
          2 0 (demo_conn (framed_pipeline [] [passive_stage chunker_init] chunker_init)) = Some (d', 5, t2)
    \<and> prefix (bytes_in_at 1 d') [[1, 2], [3]]"
proof -
  let ?p = "framed_pipeline [passive_stage chunker_init] [] chunker_init"
  let ?q = "framed_pipeline [] [passive_stage chunker_init] chunker_init"
  let ?w = "frame [1, 2] @ frame [3 :: u8]" and ?ms = "[[1, 2], [3 :: u8]]"
  let ?ops = "[TrWrite (bb_of ?w), TrWritable]"
  let ?rounds = "[([[2, 0], [0, 0, 1]], RecvError EAGAIN), ([[2, 1]], RecvEof)]"
  have pas: "list_all byte_passive [passive_stage chunker_init]" "list_all end_passive [passive_stage chunker_init]"
    by (simp_all add: byte_passive_def end_passive_def passive_stage_def)
  have lim: "\<forall>m \<in> set ?ms. length m \<le> kChunkLimit" by (simp add: kChunkLimit_def)
  obtain d where d: "fire_all conv_fireOutbound ?p (map (\<lambda>m. OutboundBytes (bb_of m)) ?ms) = Some (d, ?p)"
      "bytes_out_at 0 d = map frame ?ms"
    using pipeline_out_all [OF pas(1) _ _ lim, of "[]"] by auto
  have lib: "list_all (library_stage (\<lambda>_. True)) (cv_stages ?p)"
    by (simp add: framed_pipeline_simps library_stage_passive library_stage_chunker chunker_wf_def chunker_init_def)
  have w: "?w = [2, 0, 0, 0, 1, 2, 1, 0, 0, 0, 3]" by (simp add: frame_def ui32_bytes_def)
  have ops: "list_all tr_op_ok ?ops" "length ?ops < 2 ^ 41" "concat (map tr_written ?ops) = concat (bytes_out_at 0 d)"
    by (simp_all add: d(2) w vec_max_def)
  obtain ess k1 t1 where run: "run_ops (tr_step (\<lambda>k n. Inl n)) ?ops (0, demo_conn ?p) = Some (ess, k1, t1)"
      "concat (map sent_in ess) = ?w"
    using send_at_once [of "demo_conn ?p" ?w] by (auto simp: demo_conn_def w vec_max_def simp del: run_ops.simps)
  have rounds: "rounds_ok ?rounds" "received ?rounds = [2, 0, 0, 0, 1, 2, 1]" "length (recv_script ?rounds) = 5"
    by (simp_all add: rounds_ok_def received_def recv_script_def)
  have pre: "prefix (received ?rounds) (concat (map sent_in ess))" by (simp add: rounds(2) run(2) w)
  have all: "\<exists>d' t2. read_rounds (tcp_readSome (\<lambda>_. True) recv) (length rounds) 0 (demo_conn ?q) =
        Some (d', length (recv_script rounds), t2) \<and> prefix (bytes_in_at (Suc (length ([] :: chunker stage list))) d') ?ms"
    if "rounds_ok rounds" "\<forall>j < length (recv_script rounds). recv j = recv_script rounds ! j"
      "prefix (received rounds) (concat (map sent_in ess))" "length (received rounds) \<le> vec_max" for rounds recv
    using messages_cross_tcp [OF pas(1) _ _ lim d(1) _ lib _ ops(1-3) _ pas(1) _ pas(2), of "demo_conn ?p" "[]" "demo_conn ?q"
        "\<lambda>k n. Inl n"] run(1) that
    by (simp add: demo_conn_def del: run_ops.simps read_rounds.simps) blast
  from all [OF rounds(1) _ pre, of "\<lambda>j. recv_script ?rounds ! j"] obtain d' t2 where
    "read_rounds (tcp_readSome (\<lambda>_. True) (\<lambda>j. recv_script ?rounds ! j)) (length ?rounds) 0 (demo_conn ?q) = Some (d', 5, t2)"
    "prefix (bytes_in_at (Suc (length ([] :: chunker stage list))) d') ?ms"
    unfolding rounds(2,3) by (auto simp: vec_max_def simp del: read_rounds.simps)
  with run(1) show ?thesis by (auto simp: numeral_2_eq_2 simp del: run_ops.simps read_rounds.simps)
qed

end
