(* ===== verification/TransportLoop.thy ===== *)
theory TransportLoop
  imports TransportProps WatcherProps
begin

section \<open>A transport in its event loop\<close>

text \<open>
  Composes the transport with the watcher that drives it, as \<open>abstract_transport.cpp\<close> wires them: the
  functions given to \<open>watch\<close> call \<open>onReadable\<close> and \<open>onWritable\<close>, which run in the loop's thread and whose
  calls of the watcher take effect at once; \<open>write\<close>, \<open>flush\<close>, \<open>readableStateChanged\<close> and the destructor are
  called in another thread, so that their calls of the watcher are queued. A step is one of these members,
  or one call of \<open>loop\<close> with the events that the kernel reports. The world of the callbacks is the transport
  with the number of calls of \<open>recv\<close> and \<open>writev\<close> so far and what it did to the outside; it is \<open>None\<close> once a
  callback was undefined, as it is when the transport is gone.
\<close>

record 's tl_world =
  tl_reads :: nat
  tl_writes :: nat
  tl_transport :: "'s transport"
  tl_effects :: "effect list"
  tl_alive :: bool

definition new_world :: "'s transport \<Rightarrow> 's tl_world" where
  "new_world t = \<lparr>tl_reads = 0, tl_writes = 0, tl_transport = t, tl_effects = [], tl_alive = True\<rparr>"

fun watcher_calls :: "effect list \<Rightarrow> wflag wcall list" where
  \<comment> \<open>the members of the watcher that the transport calls; a callback is named by its flag\<close>
  "watcher_calls [] = []"
| "watcher_calls (EWatch fd flag # es) = CWatch fd flag flag # watcher_calls es"
| "watcher_calls (EUnwatch fd flag # es) = CUnwatch fd flag # watcher_calls es"
| "watcher_calls (e # es) = watcher_calls es"

fun tl_act :: "read_some \<Rightarrow> write_some \<Rightarrow> wflag \<Rightarrow> 's tl_world option \<Rightarrow> 's tl_world option \<times> wflag wcall list" where
  \<comment> \<open>the functions given to \<open>watch\<close>\<close>
  "tl_act readSome writeSome flag None = (None, [])"
| "tl_act readSome writeSome RDONLY (Some w) =
     (if \<not> tl_alive w then (None, [])
      else case onReadable readSome (tl_reads w) (tl_transport w) of
        None \<Rightarrow> (None, [])
      | Some (k, es, d, t) \<Rightarrow>
          (Some (w\<lparr>tl_reads := k, tl_transport := t, tl_effects := tl_effects w @ es\<rparr>), watcher_calls es))"
| "tl_act readSome writeSome WRONLY (Some w) =
     (if \<not> tl_alive w then (None, [])
      else case onWritable writeSome (tl_writes w) (tl_transport w) of
        None \<Rightarrow> (None, [])
      | Some (k, es, d, t) \<Rightarrow>
          (Some (w\<lparr>tl_writes := k, tl_transport := t, tl_effects := tl_effects w @ es\<rparr>), watcher_calls es))"

definition loop_for :: "read_some \<Rightarrow> write_some \<Rightarrow> (wflag item, 'q) queue_ops \<Rightarrow> (wflag, 'q, 's tl_world option) loop_env" where
  "loop_for readSome writeSome Q = \<lparr>le_act = tl_act readSome writeSome, le_queue = Q\<rparr>"

type_synonym ('q, 's) tl_state = "(wflag, 'q) watcher \<times> 's tl_world option"

fun call_all :: "('u, 'q, 'w) loop_env \<Rightarrow> 'u wcall list \<Rightarrow> ('u, 'q) watcher \<times> 'w \<Rightarrow> (('u, 'q) watcher \<times> 'w) option" where
  \<comment> \<open>calls from a thread that runs no loop\<close>
  "call_all env [] st = Some st"
| "call_all env (c # cs) st = do { (d, st1) \<leftarrow> ew_call env 0 None c st; call_all env cs st1 }"

datatype tl_event =
    TlWrite bytebuf
  | TlFlush
  | TlReadable bool
  | TlDestroy
  | TlLoop "(int \<times> u32) list"

fun member_call :: "alloc \<Rightarrow> tl_event \<Rightarrow> 's transport \<Rightarrow> (effect list \<times> 's transport) option" where
  "member_call al (TlWrite b) t = map_option (\<lambda>(n, es, b1, t1). (es, t1)) (tr_write al b t)"
| "member_call al TlFlush t = Some (tr_flush t, t)"
| "member_call al (TlReadable readable) t = Some (readableStateChanged readable t, t)"
| "member_call al TlDestroy t = Some (destroy_transport t, t)"
| "member_call al (TlLoop evs) t = None"

definition tl_step :: "alloc \<Rightarrow> read_some \<Rightarrow> write_some \<Rightarrow> (wflag item, 'q) queue_ops \<Rightarrow> tl_event \<Rightarrow>
    ('q, 's) tl_state \<Rightarrow> ('q, 's) tl_state option" where
  "tl_step al readSome writeSome Q x st = (case x of
      TlLoop evs \<Rightarrow>
        map_option (snd \<circ> snd) (ew_loop True (loop_for readSome writeSome Q) (\<lambda>_. (int (length evs), 0, evs)) 0 None st)
    | _ \<Rightarrow> do {
        w \<leftarrow> snd st;
        (es, t1) \<leftarrow> member_call al x (tl_transport w);
        call_all (loop_for readSome writeSome Q) (watcher_calls es)
          (fst st, Some (w\<lparr>tl_transport := t1, tl_effects := tl_effects w @ es, tl_alive := (x \<noteq> TlDestroy)\<rparr>)) })"

end
