(* ===== verification/TransportLoopProps.thy ===== *)
theory TransportLoopProps
  imports TransportLoop
begin

section \<open>What a transport in its loop guarantees\<close>

text \<open>
  Bytes that wait in the write buffer are not forgotten: whatever the order of writes, flushes and loop
  iterations, the descriptor is registered for output, or the watch that registers it is queued and the
  loop is signalled. This needs room in the watcher's queue and a kernel that takes enough in a writable
  event; the cases without end the theory, with that of a transport destroyed in another thread.
\<close>

subsection \<open>One writable event\<close>

definition kernel_ok :: "nat \<Rightarrow> writev_result \<Rightarrow> bool" where
  \<comment> \<open>\<open>writev\<close> takes at least \<open>q\<close> bytes if there are so many, or would block\<close>
  "kernel_ok q writev \<longleftrightarrow> 0 < q \<and> (\<forall>k n. case writev k n of
     Inl m \<Rightarrow> min n q \<le> m | Inr errno \<Rightarrow> errno = EAGAIN \<or> errno = EWOULDBLOCK)"

lemma write_loop_quiet: "write_loop writeSome i k b = Some (err, k1, es, b1) \<Longrightarrow> watcher_calls es = []"
  by (induction i arbitrary: k b err k1 es b1) (auto split: if_splits Option.bind_splits)

lemma write_loop_empties:
  "kernel_ok q writev \<Longrightarrow> bb_wf b \<Longrightarrow> length (bb_contents b) \<le> i * q \<Longrightarrow>
     write_loop (tcp_writeSome writev) i k b = Some (err, k1, es, b1) \<Longrightarrow>
     err = None \<and> bb_contents b1 = [] \<or> err = Some EAGAIN \<or> err = Some EWOULDBLOCK"
proof (induction i arbitrary: b k es)
  case (Suc i)
  let ?c = "bb_contents b"
  show ?case
  proof (cases "?c = []")
    case False
    then have pos: "0 < readableBytes b" using Suc.prems(2) by (simp add: readableBytes_wf)
    then have h: "bb_headroom b \<noteq> []" by (simp add: bb_headroom_def)
    note adv = bb_advance_wf [OF Suc.prems(2)]
    have w: "tcp_writeSome writev k b (readableBytes b) = (case writev k (length ?c) of
        Inl n \<Rightarrow> if 0 < n then Some (int n, 0, take n ?c, snd (bb_advance b n)) else Some (0, 0, [], b)
      | Inr errno \<Rightarrow> Some (-1, errno, [], b))"
      using pos h cap_iov_headroom [of b] iov_bytes_headroom [OF Suc.prems(2)]
      by (simp add: tcp_writeSome_def Let_def)
    have kern: "case writev k (length ?c) of
        Inl m \<Rightarrow> min (length ?c) q \<le> m | Inr errno \<Rightarrow> errno = EAGAIN \<or> errno = EWOULDBLOCK" and q: "0 < q"
      using Suc.prems(1) by (simp_all add: kernel_ok_def)
    show ?thesis
    proof (cases "writev k (length ?c)")
      case (Inl m)
      with kern have m: "min (length ?c) q \<le> m" by simp
      moreover from this have "0 < m" using q False by (cases ?c) (auto simp: min_def split: if_splits)
      ultimately have m: "min (length ?c) q \<le> m" "0 < m" by simp_all
      have "length (bb_contents (snd (bb_advance b m))) \<le> i * q"
        using Suc.prems(3) m(1) unfolding adv(3) by (auto simp: min_def split: if_splits)
      from Suc.IH [OF Suc.prems(1) adv(2) this, of "k + 1"] Suc.prems(4) pos w Inl m(2) show ?thesis
        by (auto split: Option.bind_splits)
    next
      case (Inr errno)
      with Suc.prems(4) pos w kern show ?thesis by auto
    qed
  qed (use Suc.prems in \<open>auto simp: readableBytes_wf\<close>)
qed auto


lemma watcher_calls_append [simp]: "watcher_calls (es @ es') = watcher_calls es @ watcher_calls es'"
  by (induction es rule: watcher_calls.induct) auto

lemma onWritable_watched:
  assumes k: "kernel_ok q writev" and b: "bb_wf (tr_wbuf t)" "length (bb_contents (tr_wbuf t)) \<le> 256 * q"
    and w: "onWritable (tcp_writeSome writev) k t = Some (k1, es, d, t1)"
  shows "tr_fd t1 = tr_fd t \<and> (watcher_calls es = []
    \<or> watcher_calls es = [CUnwatch (tr_fd t) WRONLY] \<and> bb_contents (tr_wbuf t1) = [])"
proof -
  obtain err k2 es2 b2 where l: "write_loop (tcp_writeSome writev) 256 k (tr_wbuf t) = Some (err, k2, es2, b2)"
    using w by (auto simp: onWritable_def split: Option.bind_splits)
  have "err = None \<and> bb_contents b2 = [] \<or> err = Some EAGAIN \<or> err = Some EWOULDBLOCK"
    by (rule write_loop_empties [OF k b(1) _ l]) (use b(2) in simp)
  with w l write_loop_quiet [OF l] show ?thesis
    by (auto simp: onWritable_def Let_def)
qed

subsection \<open>One readable event\<close>

definition reads_end :: "(nat \<Rightarrow> recv_result) \<Rightarrow> bool" where
  \<comment> \<open>from any call on, a burst of data that fits into a vector, and then none for now\<close>
  "reads_end recv \<longleftrightarrow> (\<forall>k. \<exists>m. (\<forall>j. k \<le> j \<and> j < k + m \<longrightarrow> recv_bytes (recv j) \<noteq> []) \<and> recv_bytes (recv (k + m)) = []
     \<and> length (concat (map (\<lambda>j. recv_bytes (recv j)) [k..<k + m])) \<le> vec_max)"

lemma onReadable_returns:
  assumes "reads_end recv" "list_all (library_stage al) (cv_stages (tr_pipeline t))"
  shows "\<exists>k1 es d cv. onReadable (tcp_readSome (\<lambda>_. True) recv) k t = Some (k1, es, d, t\<lparr>tr_pipeline := cv\<rparr>)
    \<and> list_all (library_stage al) (cv_stages cv) \<and> watcher_calls es = [] \<and> sent_in es = []"
proof -
  obtain m where m: "\<forall>j. k \<le> j \<and> j < k + m \<longrightarrow> recv_bytes (recv j) \<noteq> []" "recv_bytes (recv (k + m)) = []"
      "length (concat (map (\<lambda>j. recv_bytes (recv j)) [k..<k + m])) \<le> vec_max"
    using assms(1) by (auto simp: reads_end_def)
  have "\<exists>n b0 b1. read_loop (tcp_readSome (\<lambda>_. True) recv) k bb_empty = Some (n, k + m + 1, b1) \<and> bb_wf b1
      \<and> tcp_readSome (\<lambda>_. True) recv (k + m) b0 4096 = Some (n, b1)
      \<and> bb_contents b1 = bb_contents bb_empty @ concat (map (\<lambda>j. recv_bytes (recv j)) [k..<k + m])"
    using m by (intro tcp.read_loop_collects) auto
  then obtain n buf where l: "read_loop (tcp_readSome (\<lambda>_. True) recv) k bb_empty = Some (n, k + m + 1, buf)" "bb_wf buf"
    by blast
  have fire: "\<exists>d cv1. fire_all conv_fireInbound cv es = Some (d, cv1) \<and> list_all (library_stage al) (cv_stages cv1)"
    if "list_all wf_event es" "list_all (library_stage al) (cv_stages cv)" for es cv
    using that
  proof (induction es arbitrary: cv)
    case (Cons e es)
    then show ?case using lib.fireInbound_returns [of al cv e] by fastforce
  qed simp
  have "list_all wf_event (read_events n buf)" using l(2) by (simp add: read_events_def)
  from fire [OF this assms(2)] obtain d cv where
    "fire_all conv_fireInbound (tr_pipeline t) (read_events n buf) = Some (d, cv)"
    "list_all (library_stage al) (cv_stages cv)" by blast
  moreover have "watcher_calls (map EInbound es) = []" "sent_in (map EInbound es) = []" for es
    by (induction es) simp_all
  ultimately show ?thesis
    using l(1) by (intro exI [of _ "k + m + 1"] exI [of _ "map EInbound (read_events n buf)"] exI [of _ d] exI [of _ cv])
      (simp add: onReadable_def del: fire_all.simps)
qed

subsection \<open>What the loop keeps\<close>

fun queued_item :: "int \<Rightarrow> wflag item \<Rightarrow> bool" where
  \<comment> \<open>a task that another thread submits for the descriptor \<open>f\<close>\<close>
  "queued_item f (TWatch fd flag c) \<longleftrightarrow> fd = f \<and> c = User flag"
| "queued_item f (TUnwatch fd flag) \<longleftrightarrow> fd = f \<and> flag = RDONLY"
| "queued_item f _ \<longleftrightarrow> False"

fun stack_item :: "int \<Rightarrow> int \<Rightarrow> wflag item \<Rightarrow> bool" where
  \<comment> \<open>what the loop may have to perform, with the event descriptor \<open>e\<close>\<close>
  "stack_item f e (TWatch fd flag c) \<longleftrightarrow> fd = f \<and> c = User flag"
| "stack_item f e (TUnwatch fd flag) \<longleftrightarrow> fd = f"
| "stack_item f e TUnwatchAll \<longleftrightarrow> False"
| "stack_item f e (TEvent fd evs) \<longleftrightarrow> fd \<in> {f, e}"
| "stack_item f e (TWriter fd ready) \<longleftrightarrow> fd \<in> {f, e}"
| "stack_item f e _ \<longleftrightarrow> True"

abbreviation out_watch :: "int \<Rightarrow> wflag item" where
  "out_watch f \<equiv> TWatch f WRONLY (User WRONLY)"

abbreviation unsent :: "'s tl_world \<Rightarrow> u8 list" where
  "unsent w \<equiv> bb_contents (tr_wbuf (tl_transport w))"

definition world_inv :: "nat \<Rightarrow> int \<Rightarrow> u8 list \<Rightarrow> chunker tl_world \<Rightarrow> bool" where
  \<comment> \<open>\<open>written\<close> so far\<close>
  "world_inv q f written w \<longleftrightarrow> tl_alive w \<and> tr_fd (tl_transport w) = f
     \<and> tr_inv (\<lambda>_. True) 0 (tl_writes w, tl_transport w)
     \<and> sent_in (tl_effects w) @ unsent w = written \<and> length (unsent w) \<le> 256 * q"

definition watch_inv :: "int \<Rightarrow> int \<Rightarrow> ('q \<Rightarrow> wflag item list) \<Rightarrow> bool \<Rightarrow> wflag item list \<Rightarrow> (wflag, 'q) watcher \<Rightarrow> bool" where
  "watch_inv f e els waiting items ew \<longleftrightarrow> ew_inv ew \<and> ew_evfd ew = e \<and> ew_abs ew e = (Some Wakeup, None)
     \<and> (fst (ew_abs ew f) = None \<or> fst (ew_abs ew f) = Some (User RDONLY))
     \<and> (snd (ew_abs ew f) = None \<or> snd (ew_abs ew f) = Some (User WRONLY))
     \<and> list_all (queued_item f) (els (ew_queue ew)) \<and> list_all (stack_item f e) items
     \<and> (els (ew_queue ew) \<noteq> [] \<longrightarrow> ew_signalled ew \<or> TDrain \<in> set items)
     \<and> (waiting \<longrightarrow> TUnwatch f WRONLY \<notin> set items
          \<and> (snd (ew_abs ew f) \<noteq> None \<or> out_watch f \<in> set items \<or> out_watch f \<in> set (els (ew_queue ew))))"

definition tl_inv :: "nat \<Rightarrow> int \<Rightarrow> int \<Rightarrow> ('q \<Rightarrow> wflag item list) \<Rightarrow> u8 list \<Rightarrow> wflag item list \<Rightarrow>
    ('q, chunker) tl_state \<Rightarrow> bool" where
  "tl_inv q f e els written items st \<longleftrightarrow>
     (\<exists>w. snd st = Some w \<and> world_inv q f written w \<and> watch_inv f e els (unsent w \<noteq> []) items (fst st))"

fun weight :: "'u item \<Rightarrow> nat" where
  "weight (TEvent fd evs) = 6"
| "weight (TWriter fd ready) = 3"
| "weight (TInvoke c) = 2"
| "weight _ = 1"

definition load :: "('q \<Rightarrow> wflag item list) \<Rightarrow> wflag item list \<Rightarrow> (wflag, 'q) watcher \<times> 'w \<Rightarrow> nat" where
  "load els items st = (\<Sum>x \<leftarrow> items. weight x) + 2 * length (els (ew_queue (fst st)))"

lemma act_reader:
  assumes "reads_end recv" "world_inv q f written w"
  shows "\<exists>w1. tl_act (tcp_readSome (\<lambda>_. True) recv) writeSome RDONLY (Some w) = (Some w1, [])
    \<and> world_inv q f written w1 \<and> unsent w1 = unsent w"
  using onReadable_returns [OF assms(1), of "\<lambda>_. True" "tl_transport w" "tl_reads w"] assms(2)
  by (fastforce simp: world_inv_def tr_inv_def Let_def)

lemma act_writer:
  assumes k: "kernel_ok q writev" and w: "world_inv q f written w"
  shows "\<exists>w1 cs. tl_act readSome (tcp_writeSome writev) WRONLY (Some w) = (Some w1, cs) \<and> world_inv q f written w1
    \<and> (unsent w1 \<noteq> [] \<longrightarrow> unsent w \<noteq> []) \<and> (cs = [] \<or> cs = [CUnwatch f WRONLY] \<and> unsent w1 = [])"
proof -
  let ?t = "tl_transport w"
  have t: "bb_wf (tr_wbuf ?t)" "list_all (library_stage (\<lambda>_. True)) (cv_stages (tr_pipeline ?t))"
    using w by (simp_all add: world_inv_def tr_inv_def Let_def)
  obtain k1 es d t1 where r: "onWritable (tcp_writeSome writev) (tl_writes w) ?t = Some (k1, es, d, t1)"
      "bb_wf (tr_wbuf t1)" "bb_contents (tr_wbuf ?t) = sent_in es @ bb_contents (tr_wbuf t1)"
      "bb_w (tr_wbuf t1) \<le> bb_w (tr_wbuf ?t)" "list_all (library_stage (\<lambda>_. True)) (cv_stages (tr_pipeline t1))"
    using onWritable_ok [OF t, of writev "tl_writes w"] by blast
  have "length (unsent w) \<le> 256 * q" using w by (auto simp: world_inv_def)
  from onWritable_watched [OF k t(1) this r(1)] r w show ?thesis
    by (auto simp: world_inv_def tr_inv_def Let_def)
qed

definition tl_env_ok :: "(wflag item, 'q) queue_ops \<Rightarrow> ('q \<Rightarrow> wflag item list) \<Rightarrow> nat \<Rightarrow> (nat \<Rightarrow> recv_result) \<Rightarrow>
    writev_result \<Rightarrow> nat \<Rightarrow> int \<Rightarrow> int \<Rightarrow> bool" where
  "tl_env_ok Q els cap recv writev q f e \<longleftrightarrow> queue_laws Q els cap \<and> reads_end recv \<and> kernel_ok q writev
     \<and> 0 \<le> f \<and> 0 \<le> e \<and> f \<noteq> e"

abbreviation tcp_loop :: "(nat \<Rightarrow> recv_result) \<Rightarrow> writev_result \<Rightarrow> (wflag item, 'q) queue_ops \<Rightarrow>
    (wflag, 'q, chunker tl_world option) loop_env" where
  "tcp_loop recv writev Q \<equiv> loop_for (tcp_readSome (\<lambda>_. True) recv) (tcp_writeSome writev) Q"

abbreviation goes_on :: "(wflag item, 'q) queue_ops \<Rightarrow> (nat \<Rightarrow> recv_result) \<Rightarrow> writev_result \<Rightarrow> nat \<Rightarrow> int \<Rightarrow> int \<Rightarrow>
    ('q \<Rightarrow> wflag item list) \<Rightarrow> u8 list \<Rightarrow> wflag item \<Rightarrow> wflag item list \<Rightarrow> ('q, chunker) tl_state \<Rightarrow> bool" where
  "goes_on Q recv writev q f e els written x rest st \<equiv>
     \<exists>new st1. ew_step (tcp_loop recv writev Q) x st = Some (new, st1) \<and> tl_inv q f e els written (new @ rest) st1
       \<and> load els (new @ rest) st1 < load els (x # rest) st"

lemma watch_inv_frame:
  assumes "watch_inv f e els p items ew" "ew_inv ew1" "ew_abs ew1 = ew_abs ew" "ew_queue ew1 = ew_queue ew"
    "ew_evfd ew1 = ew_evfd ew" "ew_signalled ew1 = ew_signalled ew"
  shows "watch_inv f e els p items ew1"
  using assms by (simp add: watch_inv_def)

lemma watch_inv_push:
  assumes "watch_inv f e els p (x # rest) ew" "list_all (stack_item f e) new"
    and "x \<noteq> TDrain" "x \<noteq> out_watch f" "TUnwatch f WRONLY \<notin> set new"
  shows "watch_inv f e els p (new @ rest) ew"
  using assms by (auto simp: watch_inv_def)

lemma load_simps [simp]:
  "load els (x # rest) st = weight x + load els rest st"
  "load els (new @ rest) st = (\<Sum>x \<leftarrow> new. weight x) + load els rest st"
  by (simp_all add: load_def)

lemma tl_step_watching:
  assumes ok: "tl_env_ok Q els cap recv writev q f e" and inv: "tl_inv q f e els written (x # rest) (ew, v)"
    and x: "x = TWatch fd flag c \<or> x = TUnwatch fd flag"
  shows "goes_on Q recv writev q f e els written x rest (ew, v)"
proof -
  obtain w where w: "v = Some w" "world_inv q f written w" "watch_inv f e els (unsent w \<noteq> []) (x # rest) ew"
    using inv by (auto simp: tl_inv_def)
  have f: "0 \<le> f" "f \<noteq> e" using ok by (simp_all add: tl_env_ok_def)
  have fd: "fd = f" "x = TWatch fd flag c \<Longrightarrow> c = User flag" using w(3) x by (auto simp: watch_inv_def)
  have ew: "ew_inv ew" using w(3) by (simp add: watch_inv_def)
  obtain ew1 where ew1: "ew_step (tcp_loop recv writev Q) x (ew, v) = Some ([], ew1, v)" "ew_inv ew1"
      "ew_abs ew1 = (ew_abs ew)(f := upd_cb flag (if x = TWatch fd flag c then Some (User flag) else None) (ew_abs ew f))"
      "ew_queue ew1 = ew_queue ew" "ew_evfd ew1 = ew_evfd ew" "ew_signalled ew1 = ew_signalled ew"
  proof (cases "x = TWatch fd flag c")
    case True
    obtain ew2 where "handleWatch ew f flag (User flag) = Some ew2" "ew_inv ew2"
        "ew_abs ew2 = (ew_abs ew)(f := upd_cb flag (Some (User flag)) (ew_abs ew f))"
        "ew_queue ew2 = ew_queue ew" "ew_evfd ew2 = ew_evfd ew" "ew_signalled ew2 = ew_signalled ew"
      by (rule handleWatch_ok [OF ew f(1)])
    with that [of ew2] True fd show thesis by (auto simp del: fun_upd_apply)
  next
    case False
    obtain ew2 where "handleUnwatch ew f flag = Some ew2" "ew_inv ew2"
        "ew_abs ew2 = (ew_abs ew)(f := upd_cb flag None (ew_abs ew f))"
        "ew_queue ew2 = ew_queue ew" "ew_evfd ew2 = ew_evfd ew" "ew_signalled ew2 = ew_signalled ew"
      by (rule handleUnwatch_ok [OF ew f(1)])
    with that [of ew2] False x fd show thesis by (auto simp del: fun_upd_apply)
  qed
  have "watch_inv f e els (unsent w \<noteq> []) rest ew1"
    using w(3) x fd f(2) ew1(2-6) by (cases "ew_abs ew f"; cases flag) (auto simp: watch_inv_def)
  with ew1 w(1,2) x show ?thesis by (auto simp: tl_inv_def load_def)
qed

lemma tl_step_invoke:
  assumes ok: "tl_env_ok Q els cap recv writev q f e" and inv: "tl_inv q f e els written (TInvoke c # rest) (ew, v)"
  shows "goes_on Q recv writev q f e els written (TInvoke c) rest (ew, v)"
proof -
  obtain w where w: "v = Some w" "world_inv q f written w" "watch_inv f e els (unsent w \<noteq> []) (TInvoke c # rest) ew"
    using inv by (auto simp: tl_inv_def)
  have k: "kernel_ok q writev" "reads_end recv" "0 \<le> f" using ok by (simp_all add: tl_env_ok_def)
  show ?thesis
  proof (cases c)
    case Wakeup
    have "watch_inv f e els (unsent w \<noteq> []) (TDrain # rest) (event_clear ew)"
      using w(3) ew_inv_same [of ew "event_clear ew"] by (auto simp: watch_inv_def)
    with w Wakeup show ?thesis by (auto simp: tl_inv_def load_def)
  next
    case (User flag)
    obtain w1 cs where r: "tl_act (tcp_readSome (\<lambda>_. True) recv) (tcp_writeSome writev) flag (Some w) = (Some w1, cs)"
        "world_inv q f written w1" "unsent w1 \<noteq> [] \<longrightarrow> unsent w \<noteq> []"
        "cs = [] \<or> cs = [CUnwatch f WRONLY] \<and> unsent w1 = []"
      using act_reader [OF k(2) w(2), of "tcp_writeSome writev"] act_writer [OF k(1) w(2)]
      by (cases flag) fastforce+
    let ?new = "concat (map call_items cs)"
    have "ew_step (tcp_loop recv writev Q) (TInvoke (User flag)) (ew, v) = Some (?new, ew, Some w1)"
      using r(1) w(1) by (simp add: loop_for_def)
    moreover have "watch_inv f e els (unsent w1 \<noteq> []) (?new @ rest) ew"
      using r(3,4) w(3) k(3) User by (auto simp: watch_inv_def)
    moreover have "load els (?new @ rest) (ew, Some w1) < load els (TInvoke (User flag) # rest) (ew, v)"
      using r(4) k(3) by (auto simp: load_def)
    ultimately show ?thesis using r(2) User by (auto simp: tl_inv_def)
  qed
qed

lemma tl_step_drain:
  assumes ok: "tl_env_ok Q els cap recv writev q f e" and inv: "tl_inv q f e els written (TDrain # rest) (ew, v)"
  shows "goes_on Q recv writev q f e els written TDrain rest (ew, v)"
proof -
  obtain w where w: "v = Some w" "world_inv q f written w" "watch_inv f e els (unsent w \<noteq> []) (TDrain # rest) ew"
    using inv by (auto simp: tl_inv_def)
  have laws: "queue_laws Q els cap" using ok by (simp add: tl_env_ok_def)
  obtain t q1 where pop: "q_pop Q (ew_queue ew) = (t, q1)" by fastforce
  then have t: "t = (case els (ew_queue ew) of [] \<Rightarrow> None | t # ts \<Rightarrow> Some t)" "els q1 = tl (els (ew_queue ew))"
    using laws unfolding queue_laws_def by (metis fst_conv, metis snd_conv)
  let ?ew = "ew\<lparr>ew_queue := q1\<rparr>"
  have same: "ew_inv ?ew" "ew_abs ?ew = ew_abs ew" using w(3) ew_inv_same [of ew ?ew] by (auto simp: watch_inv_def)
  have st: "ew_step (tcp_loop recv writev Q) TDrain (ew, v) =
      Some (case t of None \<Rightarrow> [] | Some x \<Rightarrow> [x, TDrain], ?ew, v)" by (simp add: loop_for_def pop)
  show ?thesis
  proof (cases "els (ew_queue ew)")
    case Nil
    then have "watch_inv f e els (unsent w \<noteq> []) rest ?ew" using w(3) same t(2) by (auto simp: watch_inv_def)
    with st w Nil t show ?thesis by (auto simp: tl_inv_def load_def)
  next
    case (Cons y ys)
    then have y: "queued_item f y" "list_all (queued_item f) ys" using w(3) by (simp_all add: watch_inv_def)
    then have "stack_item f e y" "y \<noteq> TUnwatch f WRONLY" "weight y = 1" by (cases y; simp)+
    then have "watch_inv f e els (unsent w \<noteq> []) (y # TDrain # rest) ?ew"
      using w(3) same t(2) y Cons by (auto simp: watch_inv_def)
    with st w Cons t \<open>weight y = 1\<close> show ?thesis by (auto simp: tl_inv_def load_def)
  qed
qed

lemma tl_step_event:
  assumes ok: "tl_env_ok Q els cap recv writev q f e" and inv: "tl_inv q f e els written (x # rest) (ew, v)"
    and x: "x = TEvent fd evs \<or> x = TWriter fd ready"
  shows "goes_on Q recv writev q f e els written x rest (ew, v)"
proof -
  obtain w where w: "v = Some w" "world_inv q f written w" "watch_inv f e els (unsent w \<noteq> []) (x # rest) ew"
    using inv by (auto simp: tl_inv_def)
  have ew: "ew_inv ew" and fd: "fd \<in> {f, e}" using w(3) x by (auto simp: watch_inv_def)
  have "0 \<le> f" "0 \<le> e" using ok by (simp_all add: tl_env_ok_def)
  with fd have pos: "0 \<le> fd" by auto
  have new: "watch_inv f e els (unsent w \<noteq> []) (new @ rest) ew" if "list_all (stack_item f e) new" "TUnwatch f WRONLY \<notin> set new" for new
    using watch_inv_push [OF w(3) that(1)] that(2) x by auto
  have cb: "list_all (stack_item f e) (cb_list b c)" "TUnwatch f WRONLY \<notin> set (cb_list b c)"
      "(\<Sum>x \<leftarrow> cb_list b c. weight x) < 3" for b c
    by (cases c; cases b; simp add: cb_list_def)+
  show ?thesis
  proof (cases "x = TEvent fd evs")
    case True
    obtain ew1 where ew1: "ew_step (tcp_loop recv writev Q) (TEvent fd evs) (ew, v) =
        Some (cb_list (evs AND EPOLL_FAILED \<noteq> 0 \<or> evs AND 1 \<noteq> 0) (fst (ew_abs ew fd))
          @ [TWriter fd (evs AND EPOLL_FAILED \<noteq> 0 \<or> evs AND 4 \<noteq> 0)], ew1, v)"
      "ew_inv ew1" "ew_abs ew1 = ew_abs ew" "ew_queue ew1 = ew_queue ew" "ew_evfd ew1 = ew_evfd ew"
      "ew_signalled ew1 = ew_signalled ew" "ew_ctls ew1 = ew_ctls ew"
      by (rule ew_step_event [OF ew pos])
    let ?new = "cb_list (evs AND EPOLL_FAILED \<noteq> 0 \<or> evs AND 1 \<noteq> 0) (fst (ew_abs ew fd))
          @ [TWriter fd (evs AND EPOLL_FAILED \<noteq> 0 \<or> evs AND 4 \<noteq> 0)]"
    have "watch_inv f e els (unsent w \<noteq> []) (?new @ rest) ew" using cb fd by (intro new) auto
    from watch_inv_frame [OF this ew1(2-6)] ew1(1,4) w(1,2) True cb(3) show ?thesis
      by (auto simp: tl_inv_def load_def simp del: ew_step.simps)
  next
    case False
    with x have xw: "x = TWriter fd ready" by simp
    let ?new = "cb_list ready (snd (ew_abs ew fd))"
    have "ew_step (tcp_loop recv writev Q) x (ew, v) = Some (?new, ew, v)"
      unfolding xw by (rule ew_step_writer [OF ew pos])
    with new [OF cb(1,2)] w(1,2) xw cb(3) show ?thesis
      by (fastforce simp: tl_inv_def load_def simp del: ew_step.simps)
  qed
qed

lemma tl_goes_on:
  assumes ok: "tl_env_ok Q els cap recv writev q f e" and inv: "tl_inv q f e els written (x # rest) st"
  shows "goes_on Q recv writev q f e els written x rest st"
proof -
  obtain ew v where st: "st = (ew, v)" by fastforce
  note i = inv [unfolded st]
  show ?thesis
    unfolding st
  proof (cases x)
    case TUnwatchAll
    with i show "goes_on Q recv writev q f e els written x rest (ew, v)"
      by (auto simp: tl_inv_def watch_inv_def)
  next
    case (TInvoke c)
    from tl_step_invoke [OF ok i [unfolded this]] TInvoke
    show "goes_on Q recv writev q f e els written x rest (ew, v)" by simp
  next
    case TDrain
    from tl_step_drain [OF ok i [unfolded this]] TDrain
    show "goes_on Q recv writev q f e els written x rest (ew, v)" by simp
  qed (rule tl_step_watching [OF ok i] tl_step_event [OF ok i]; simp)+
qed

lemma tl_exec:
  assumes ok: "tl_env_ok Q els cap recv writev q f e" and inv: "tl_inv q f e els written items st"
  shows "\<exists>d st1. ew_exec (tcp_loop recv writev Q) items st = Some (d, st1) \<and> tl_inv q f e els written [] st1"
  by (rule ew_exec_inv [where J = "tl_inv q f e els written" and m = "load els", OF tl_goes_on [OF ok] inv])

subsection \<open>Reachable states\<close>

fun tl_enabled :: "('q \<Rightarrow> wflag item list) \<Rightarrow> nat \<Rightarrow> nat \<Rightarrow> int \<Rightarrow> int \<Rightarrow> tl_event \<Rightarrow> ('q, chunker) tl_state \<Rightarrow> bool" where
  \<comment> \<open>the queue of the watcher has room, the write buffer stays within \<open>256 * q\<close> bytes and its vector
    within its limit, and the kernel reports the descriptor or the event descriptor\<close>
  "tl_enabled els cap q f e (TlWrite b) (ew, v) \<longleftrightarrow> length (els (ew_queue ew)) < cap \<and> bb_wf b
     \<and> (case v of None \<Rightarrow> False | Some w \<Rightarrow> length (unsent w) + length (bb_contents b) \<le> 256 * q
          \<and> bb_w (tr_wbuf (tl_transport w)) + length (bb_contents b) \<le> vec_max)"
| "tl_enabled els cap q f e TlFlush (ew, v) \<longleftrightarrow> length (els (ew_queue ew)) < cap"
| "tl_enabled els cap q f e (TlReadable readable) (ew, v) \<longleftrightarrow> length (els (ew_queue ew)) < cap"
| "tl_enabled els cap q f e TlDestroy (ew, v) \<longleftrightarrow> False"
| "tl_enabled els cap q f e (TlLoop evs) (ew, v) \<longleftrightarrow> list_all (\<lambda>(fd, m). fd \<in> {f, e}) evs"

abbreviation tcp_step :: "(nat \<Rightarrow> recv_result) \<Rightarrow> writev_result \<Rightarrow> (wflag item, 'q) queue_ops \<Rightarrow> tl_event \<Rightarrow>
    ('q, chunker) tl_state \<Rightarrow> ('q, chunker) tl_state option" where
  "tcp_step recv writev Q \<equiv> tl_step (\<lambda>_. True) (tcp_readSome (\<lambda>_. True) recv) (tcp_writeSome writev) Q"

inductive tl_reach :: "('q, chunker) tl_state \<Rightarrow> (wflag item, 'q) queue_ops \<Rightarrow> ('q \<Rightarrow> wflag item list) \<Rightarrow> nat \<Rightarrow>
    (nat \<Rightarrow> recv_result) \<Rightarrow> writev_result \<Rightarrow> nat \<Rightarrow> int \<Rightarrow> int \<Rightarrow> ('q, chunker) tl_state \<Rightarrow> bool"
  for st0 Q els cap recv writev q f e where
  tl_refl: "tl_reach st0 Q els cap recv writev q f e st0"
| tl_trans: "tl_reach st0 Q els cap recv writev q f e st \<Longrightarrow> tl_enabled els cap q f e x st \<Longrightarrow>
    tcp_step recv writev Q x st = Some st1 \<Longrightarrow> tl_reach st0 Q els cap recv writev q f e st1"

lemma call_queued:
  assumes "queue_laws Q els cap" "length (els (ew_queue ew)) < cap" "call_items c = [x]"
  shows "\<exists>q1. call_all (loop_for readSome writeSome Q) [c] (ew, v) = Some (ew\<lparr>ew_queue := q1, ew_signalled := True\<rparr>, v)
    \<and> els q1 = els (ew_queue ew) @ [x]"
  using assms by (auto simp: ew_call_def runInEventWatcherLoop_def queue_laws_def loop_for_def split_beta Let_def)

lemma watch_inv_queued:
  assumes inv: "watch_inv f e els p [] ew" and q1: "els q1 = els (ew_queue ew) @ [x]" and x: "queued_item f x"
    and p: "p1 \<longrightarrow> p \<or> x = out_watch f"
  shows "watch_inv f e els p1 [] (ew\<lparr>ew_queue := q1, ew_signalled := True\<rparr>)"
proof -
  let ?ew = "ew\<lparr>ew_queue := q1, ew_signalled := True\<rparr>"
  have "ew_inv ?ew" "ew_abs ?ew = ew_abs ew" using inv ew_inv_same [of ew ?ew] by (auto simp: watch_inv_def)
  with inv q1 x p show ?thesis by (auto simp: watch_inv_def)
qed

lemma member_call_ok:
  assumes w: "world_inv q f written w" and en: "tl_enabled els cap q f e x (ew, Some w)" and x: "\<forall>evs. x \<noteq> TlLoop evs"
  shows "\<exists>es t1 cs. member_call (\<lambda>_. True) x (tl_transport w) = Some (es, t1) \<and> watcher_calls es = cs
    \<and> (\<exists>written1. world_inv q f written1 (w\<lparr>tl_transport := t1, tl_effects := tl_effects w @ es, tl_alive := (x \<noteq> TlDestroy)\<rparr>))
    \<and> (cs = [] \<and> t1 = tl_transport w
       \<or> cs = [CWatch f WRONLY WRONLY]
       \<or> t1 = tl_transport w \<and> (cs = [CWatch f RDONLY RDONLY] \<or> cs = [CUnwatch f RDONLY]))"
proof (cases x)
  case (TlWrite b)
  let ?t = "tl_transport w"
  have b: "bb_wf b" "bb_wf (tr_wbuf ?t)" "bb_w (tr_wbuf ?t) + length (bb_contents b) \<le> vec_max"
      "length (unsent w) + length (bb_contents b) \<le> 256 * q"
    using en w TlWrite by (auto simp: world_inv_def tr_inv_def Let_def)
  from tr_write_ok [OF b(1-3)] obtain n es b1 t1 where t1: "tr_write (\<lambda>_. True) b ?t = Some (n, es, b1, t1)"
      "bb_wf (tr_wbuf t1)" "bb_contents (tr_wbuf t1) = unsent w @ bb_contents b"
      "bb_w (tr_wbuf t1) \<le> bb_w (tr_wbuf ?t) + length (bb_contents b)" "tr_pipeline t1 = tr_pipeline ?t" "sent_in es = []"
    by blast
  have "tr_fd t1 = tr_fd ?t" "watcher_calls es = [] \<and> t1 = ?t \<or> watcher_calls es = [CWatch (tr_fd ?t) WRONLY WRONLY]"
    using t1(1) by (auto simp: tr_write_def Let_def split: if_splits Option.bind_splits)
  with t1 b w TlWrite show ?thesis by (auto simp: world_inv_def tr_inv_def Let_def)
qed (use w en x in \<open>auto simp: world_inv_def tr_inv_def Let_def tr_flush_def readableStateChanged_def\<close>)

lemma tl_step_ok:
  assumes ok: "tl_env_ok Q els cap recv writev q f e" and inv: "tl_inv q f e els written [] st"
    and en: "tl_enabled els cap q f e x st"
  shows "\<exists>st1 written1. tcp_step recv writev Q x st = Some st1 \<and> tl_inv q f e els written1 [] st1"
proof -
  obtain ew w where st: "st = (ew, Some w)" and w: "world_inv q f written w" "watch_inv f e els (unsent w \<noteq> []) [] ew"
    using inv by (cases st) (auto simp: tl_inv_def)
  have f: "0 \<le> f" and laws: "queue_laws Q els cap" using ok by (simp_all add: tl_env_ok_def)
  show ?thesis
  proof (cases "\<exists>evs. x = TlLoop evs")
    case True
    then obtain evs where x: "x = TlLoop evs" by blast
    have "tl_inv q f e els written (map (\<lambda>(fd, m). TEvent fd m) evs) st"
      using w en x by (auto simp: tl_inv_def watch_inv_def st list_all_iff)
    from tl_exec [OF ok this] show ?thesis
      by (auto simp: tl_step_def x ew_loop_def kMaxEpollRetries_def numeral_eq_Suc Let_def)
  next
    case False
    then have nl: "\<forall>evs. x \<noteq> TlLoop evs" by blast
    have room: "length (els (ew_queue ew)) < cap" using en st False by (cases x) auto
    obtain es t1 cs written1 where m: "member_call (\<lambda>_. True) x (tl_transport w) = Some (es, t1)" "watcher_calls es = cs"
        "world_inv q f written1 (w\<lparr>tl_transport := t1, tl_effects := tl_effects w @ es, tl_alive := (x \<noteq> TlDestroy)\<rparr>)"
        "cs = [] \<and> t1 = tl_transport w \<or> cs = [CWatch f WRONLY WRONLY]
         \<or> t1 = tl_transport w \<and> (cs = [CWatch f RDONLY RDONLY] \<or> cs = [CUnwatch f RDONLY])"
      using member_call_ok [OF w(1) en [unfolded st] nl] by blast
    let ?w = "w\<lparr>tl_transport := t1, tl_effects := tl_effects w @ es, tl_alive := (x \<noteq> TlDestroy)\<rparr>"
    have "\<exists>ew1. call_all (tcp_loop recv writev Q) cs (ew, Some ?w) = Some (ew1, Some ?w)
        \<and> watch_inv f e els (unsent ?w \<noteq> []) [] ew1"
    proof (cases cs)
      case Nil
      with m(4) w(2) show ?thesis by auto
    next
      case (Cons c cs')
      with m(4) f obtain y where y: "cs = [c]" "call_items c = [y]" "queued_item f y"
          "unsent ?w \<noteq> [] \<longrightarrow> unsent w \<noteq> [] \<or> y = out_watch f" by auto
      from call_queued [OF laws room y(2)] watch_inv_queued [OF w(2) _ y(3,4)] y(1) show ?thesis by blast
    qed
    then obtain ew1 where "call_all (tcp_loop recv writev Q) cs (ew, Some ?w) = Some (ew1, Some ?w)"
        "watch_inv f e els (unsent ?w \<noteq> []) [] ew1" by blast
    with m(1-3) nl show ?thesis by (cases x) (auto simp: tl_step_def st tl_inv_def)
  qed
qed

lemma tl_start:
  fixes q0 :: 'q
  assumes "tl_env_ok Q els cap recv writev q f e" "new_watcher e q0 = Some ew0" "els q0 = []"
    and "tr_fd t = f" "tr_wbuf t = bb_empty" "list_all (library_stage (\<lambda>_. True)) (cv_stages (tr_pipeline t))"
  shows "tl_inv q f e els [] [] (ew0, Some (new_world t))"
proof -
  have pos: "0 \<le> e" "e \<noteq> f" using assms(1) by (auto simp: tl_env_ok_def)
  obtain ew :: "(wflag, 'q) watcher" where "new_watcher e q0 = Some ew" "ew_inv ew" "ew_queue ew = q0"
    "ew_abs ew = (\<lambda>_. (None, None))(e := (Some Wakeup, None))" "ew_evfd ew = e" "\<not> ew_signalled ew"
    by (rule new_watcher_ok [OF pos(1)])
  with assms(2-6) pos show ?thesis
    by (auto simp: tl_inv_def new_world_def world_inv_def watch_inv_def tr_inv_def vec_max_def)
qed

lemma tl_reach_inv:
  assumes "tl_reach st0 Q els cap recv writev q f e st" "tl_env_ok Q els cap recv writev q f e"
    and "tl_inv q f e els written [] st0"
  shows "\<exists>written1. tl_inv q f e els written1 [] st"
  using assms
proof (induction rule: tl_reach.induct)
  case (tl_trans st x st1)
  then obtain written1 where "tl_inv q f e els written1 [] st" by blast
  from tl_step_ok [OF tl_trans.prems(1) this tl_trans.hyps(2)] tl_trans.hyps(3) show ?case by auto
qed blast


subsection \<open>Sending what waits\<close>

fun calm :: "int \<Rightarrow> wflag item \<Rightarrow> bool" where
  \<comment> \<open>does not call the transport\<close>
  "calm e (TInvoke (User flag)) = False"
| "calm e (TEvent fd evs) = False"
| "calm e (TWriter fd ready) \<longleftrightarrow> fd = e"
| "calm e _ = True"

lemma queued_calm: "queued_item f x \<Longrightarrow> calm e x"
  by (cases x) simp_all

lemma calm_step:
  assumes ok: "tl_env_ok Q els cap recv writev q f e" and inv: "tl_inv q f e els written (x # rest) (ew, v)"
    and c: "list_all (calm e) (x # rest)" and d: "els (ew_queue ew) \<noteq> [] \<longrightarrow> TDrain \<in> set (x # rest) \<or> TInvoke Wakeup \<in> set (x # rest)"
    and st: "ew_step (tcp_loop recv writev Q) x (ew, v) = Some (new, ew1, v1)"
  shows "v1 = v \<and> list_all (calm e) new
    \<and> (els (ew_queue ew1) \<noteq> [] \<longrightarrow> TDrain \<in> set (new @ rest) \<or> TInvoke Wakeup \<in> set (new @ rest))"
proof (cases x)
  case (TWatch fd flag cb)
  with inv ok obtain ew2 where "handleWatch ew fd flag cb = Some ew2" "ew_queue ew2 = ew_queue ew"
    by (auto simp: tl_inv_def watch_inv_def tl_env_ok_def elim: handleWatch_ok)
  with TWatch st d show ?thesis by auto
next
  case (TUnwatch fd flag)
  with inv ok obtain ew2 where "handleUnwatch ew fd flag = Some ew2" "ew_queue ew2 = ew_queue ew"
    by (auto simp: tl_inv_def watch_inv_def tl_env_ok_def elim: handleUnwatch_ok)
  with TUnwatch st d show ?thesis by auto
next
  case TDrain
  obtain t q1 where pop: "q_pop Q (ew_queue ew) = (t, q1)" by fastforce
  have "queue_laws Q els cap" using ok by (simp add: tl_env_ok_def)
  with pop have t: "t = (case els (ew_queue ew) of [] \<Rightarrow> None | t # ts \<Rightarrow> Some t)" "els q1 = tl (els (ew_queue ew))"
    unfolding queue_laws_def by (metis fst_conv, metis snd_conv)
  have "list_all (queued_item f) (els (ew_queue ew))" using inv by (auto simp: tl_inv_def watch_inv_def)
  with TDrain st t pop show ?thesis
    by (cases "els (ew_queue ew)") (auto simp: loop_for_def queued_calm)
next
  case (TInvoke cb)
  with c st show ?thesis by (cases cb) auto
next
  case (TWriter fd ready)
  have ew: "ew_inv ew" "0 \<le> e" and none: "snd (ew_abs ew e) = None"
    using inv ok by (auto simp: tl_inv_def watch_inv_def tl_env_ok_def)
  have fd: "fd = e" using c TWriter by simp
  have "ew_step (tcp_loop recv writev Q) x (ew, v) = Some ([], ew, v)"
    unfolding TWriter fd ew_step_writer [OF ew] none by (simp add: cb_list_def)
  then have "new = [] \<and> ew1 = ew \<and> v1 = v" using st by (simp del: ew_step.simps)
  with d TWriter show ?thesis by auto
qed (use c st d inv in \<open>auto simp: tl_inv_def watch_inv_def\<close>)

lemma calm_exec:
  assumes ok: "tl_env_ok Q els cap recv writev q f e" and inv: "tl_inv q f e els written items (ew, v)"
    and c: "list_all (calm e) items" "els (ew_queue ew) \<noteq> [] \<longrightarrow> TDrain \<in> set items \<or> TInvoke Wakeup \<in> set items"
  shows "\<exists>d ew1. ew_exec (tcp_loop recv writev Q) items (ew, v) = Some (d, ew1, v)
    \<and> tl_inv q f e els written [] (ew1, v) \<and> els (ew_queue ew1) = []"
proof -
  let ?E = "tcp_loop recv writev Q"
  let ?J = "\<lambda>items st. tl_inv q f e els written items st \<and> snd st = v \<and> list_all (calm e) items
    \<and> (els (ew_queue (fst st)) \<noteq> [] \<longrightarrow> TDrain \<in> set items \<or> TInvoke Wakeup \<in> set items)"
  have "\<exists>new st1. ew_step ?E x st = Some (new, st1) \<and> ?J (new @ rest) st1
      \<and> load els (new @ rest) st1 < load els (x # rest) st" if J: "?J (x # rest) st" for x rest st
  proof -
    obtain ew2 where st: "st = (ew2, v)" using J by (cases st) simp
    obtain new st1 where s: "ew_step ?E x st = Some (new, st1)" "tl_inv q f e els written (new @ rest) st1"
        "load els (new @ rest) st1 < load els (x # rest) st"
      using tl_goes_on [OF ok] J by blast
    obtain ew3 v3 where st1: "st1 = (ew3, v3)" by fastforce
    from calm_step [OF ok, of written x rest ew2 v new ew3 v3] J s show ?thesis
      by (auto simp: st st1 simp del: ew_step.simps)
  qed
  moreover have "?J items (ew, v)" using inv c by simp
  ultimately obtain d st1 where "ew_exec ?E items (ew, v) = Some (d, st1)" "?J [] st1"
    using ew_exec_inv [where J = ?J and m = "load els" and env = ?E] by blast
  then show ?thesis by (cases st1) auto
qed

lemma wakeup_ok:
  assumes ok: "tl_env_ok Q els cap recv writev q f e" and inv: "tl_inv q f e els written [] (ew, v)"
  shows "\<exists>d ew1. ew_exec (tcp_loop recv writev Q) [TEvent e 1] (ew, v) = Some (d, ew1, v)
    \<and> tl_inv q f e els written [] (ew1, v) \<and> els (ew_queue ew1) = []"
proof -
  let ?E = "tcp_loop recv writev Q" and ?items = "[TInvoke Wakeup, TWriter e False] :: wflag item list"
  have e: "0 \<le> e" "ew_inv ew" "ew_abs ew e = (Some Wakeup, None)"
    using ok inv by (auto simp: tl_env_ok_def tl_inv_def watch_inv_def)
  have mask: "(1 :: u32) AND EPOLL_FAILED = 0" "(1 :: u32) AND 4 = 0" by (simp_all add: EPOLL_FAILED_def)
  obtain ew1 where ew1: "ew_step ?E (TEvent e 1) (ew, v) = Some (cb_list (1 AND EPOLL_FAILED \<noteq> 0 \<or> (1 :: u32) AND 1 \<noteq> 0)
        (fst (ew_abs ew e)) @ [TWriter e (1 AND EPOLL_FAILED \<noteq> 0 \<or> (1 :: u32) AND 4 \<noteq> 0)], ew1, v)"
      "ew_inv ew1" "ew_abs ew1 = ew_abs ew" "ew_queue ew1 = ew_queue ew" "ew_evfd ew1 = ew_evfd ew"
      "ew_signalled ew1 = ew_signalled ew" "ew_ctls ew1 = ew_ctls ew"
    by (rule ew_step_event [OF e(2,1)])
  have s1: "ew_step ?E (TEvent e 1) (ew, v) = Some (?items, ew1, v)"
    using ew1(1) e(3) mask by (simp add: cb_list_def del: ew_step.simps)
  have "tl_inv q f e els written ?items (ew1, v)"
    using inv ew1(2-6) by (auto simp: tl_inv_def watch_inv_def)
  from calm_exec [OF ok this] obtain d ew2 where "ew_exec ?E ?items (ew1, v) = Some (d, ew2, v)"
      "tl_inv q f e els written [] (ew2, v)" "els (ew_queue ew2) = []" by auto
  with ew_exec_step [OF s1, of "[]"] show ?thesis by simp
qed

lemma onWritable_takes_all:
  assumes "\<forall>n. writev k n = Inl n" "bb_wf (tr_wbuf t)" "bb_contents (tr_wbuf t) \<noteq> []"
    and "onWritable (tcp_writeSome writev) k t = Some (k1, es, d, t1)"
  shows "bb_contents (tr_wbuf t1) = []"
proof -
  let ?b = "tr_wbuf t" and ?c = "bb_contents (tr_wbuf t)"
  note adv = bb_advance_wf [OF assms(2), of "length ?c"]
  have pos: "0 < readableBytes ?b" using assms(2,3) by (simp add: readableBytes_wf)
  then have "tcp_writeSome writev k ?b (readableBytes ?b) = Some (int (length ?c), 0, ?c, snd (bb_advance ?b (length ?c)))"
    using cap_iov_headroom [of ?b] iov_bytes_headroom [OF assms(2)] assms(1,3) by (simp add: tcp_writeSome_def bb_headroom_def Let_def)
  moreover have "readableBytes (snd (bb_advance ?b (length ?c))) = 0"
    using adv by (simp add: readableBytes_wf)
  moreover have "write_loop (tcp_writeSome writev) i (k + 1) b = Some (None, k + 1, [], b)" if "readableBytes b = 0" for i b
    using that by (cases i) simp_all
  ultimately have "write_loop (tcp_writeSome writev) (Suc i) k ?b =
      Some (None, k + 1, [ESend ?c], snd (bb_advance ?b (length ?c)))" for i
    using pos assms(3) by simp
  from this [of 255] assms(4) adv show ?thesis by (auto simp: onWritable_def simp del: write_loop.simps)
qed

lemma writable_dispatch:
  assumes "ew_inv ew" "0 \<le> f" "snd (ew_abs ew f) = Some (User WRONLY)"
  obtains ew1 where "ew_exec env [TEvent f 4] (ew, v) =
      map_option (\<lambda>(d, st). (TEvent f 4 # TWriter f True # d, st)) (ew_exec env [TInvoke (User WRONLY)] (ew1, v))"
    "ew_inv ew1" "ew_abs ew1 = ew_abs ew" "ew_queue ew1 = ew_queue ew" "ew_evfd ew1 = ew_evfd ew"
    "ew_signalled ew1 = ew_signalled ew"
proof -
  have mask: "(4 :: u32) AND EPOLL_FAILED = 0" "(4 :: u32) AND 1 = 0" "(4 :: u32) AND 4 \<noteq> 0" by (simp_all add: EPOLL_FAILED_def)
  obtain ew1 where ew1: "ew_step env (TEvent f 4) (ew, v) = Some (cb_list (4 AND EPOLL_FAILED \<noteq> 0 \<or> (4 :: u32) AND 1 \<noteq> 0)
        (fst (ew_abs ew f)) @ [TWriter f (4 AND EPOLL_FAILED \<noteq> 0 \<or> (4 :: u32) AND 4 \<noteq> 0)], ew1, v)"
      "ew_inv ew1" "ew_abs ew1 = ew_abs ew" "ew_queue ew1 = ew_queue ew" "ew_evfd ew1 = ew_evfd ew"
      "ew_signalled ew1 = ew_signalled ew" "ew_ctls ew1 = ew_ctls ew"
    by (rule ew_step_event [OF assms(1,2)])
  have s1: "ew_step env (TEvent f 4) (ew, v) = Some ([TWriter f True], ew1, v)"
    using ew1(1) mask by (simp add: cb_list_def del: ew_step.simps)
  have s2: "ew_step env (TWriter f True) (ew1, v) = Some ([TInvoke (User WRONLY)], ew1, v)"
    using ew_step_writer [OF ew1(2) assms(2), of env True v] assms(3) ew1(3) by (simp add: cb_list_def del: ew_step.simps)
  have "ew_exec env [TEvent f 4] (ew, v) =
      map_option (\<lambda>(d, st). (TEvent f 4 # TWriter f True # d, st)) (ew_exec env [TInvoke (User WRONLY)] (ew1, v))"
    using ew_exec_step [OF s1, of "[]"] ew_exec_step [OF s2, of "[]"]
    by (cases "ew_exec env [TInvoke (User WRONLY)] (ew1, v)") auto
  from that [OF this ew1(2-6)] show thesis .
qed

lemma send_ok:
  assumes ok: "tl_env_ok Q els cap recv writev q f e" and inv: "tl_inv q f e els written [] (ew, Some w)"
    and q: "els (ew_queue ew) = []" and w: "unsent w \<noteq> []" "\<forall>n. writev (tl_writes w) n = Inl n"
  shows "\<exists>d ew1 w1. ew_exec (tcp_loop recv writev Q) [TEvent f 4] (ew, Some w) = Some (d, ew1, Some w1)
    \<and> tl_inv q f e els written [] (ew1, Some w1) \<and> unsent w1 = []"
proof -
  let ?E = "tcp_loop recv writev Q"
  have wi: "world_inv q f written w" "watch_inv f e els True [] ew" using inv w(1) by (simp_all add: tl_inv_def)
  have f: "0 \<le> f" "ew_inv ew" "snd (ew_abs ew f) = Some (User WRONLY)"
    using ok wi(2) q by (auto simp: tl_env_ok_def watch_inv_def)
  obtain ew1 where ew1: "ew_exec ?E [TEvent f 4] (ew, Some w) =
      map_option (\<lambda>(d, st). (TEvent f 4 # TWriter f True # d, st)) (ew_exec ?E [TInvoke (User WRONLY)] (ew1, Some w))"
      "ew_inv ew1" "ew_abs ew1 = ew_abs ew" "ew_queue ew1 = ew_queue ew" "ew_evfd ew1 = ew_evfd ew"
      "ew_signalled ew1 = ew_signalled ew"
    by (rule writable_dispatch [OF f(2,1,3)])
  have "tl_inv q f e els written [TInvoke (User WRONLY)] (ew1, Some w)"
    using inv ew1(2-6) by (auto simp: tl_inv_def watch_inv_def)
  from tl_step_invoke [OF ok this] obtain new st1 where
    s3: "ew_step ?E (TInvoke (User WRONLY)) (ew1, Some w) = Some (new, st1)" "tl_inv q f e els written (new @ []) st1"
    by blast
  have k: "kernel_ok q writev" using ok by (simp add: tl_env_ok_def)
  from act_writer [OF k wi(1)] obtain w1 cs where r: "tl_act (tcp_readSome (\<lambda>_. True) recv) (tcp_writeSome writev) WRONLY (Some w) = (Some w1, cs)"
      "cs = [] \<or> cs = [CUnwatch f WRONLY]" by blast
  have bb: "bb_wf (tr_wbuf (tl_transport w))" "tl_alive w" using wi(1) by (simp_all add: world_inv_def tr_inv_def Let_def)
  have "unsent w1 = []"
    using r(1) bb(2) onWritable_takes_all [OF _ bb(1) w(1)] w(2) by (auto split: option.splits)
  moreover have st1: "st1 = (ew1, Some w1)" "list_all (calm e) new"
    using s3(1) r f(1) by (auto simp: loop_for_def)
  moreover obtain d ew2 where "ew_exec ?E new (ew1, Some w1) = Some (d, ew2, Some w1)" "tl_inv q f e els written [] (ew2, Some w1)"
    using calm_exec [OF ok, of written new ew1 "Some w1"] s3(2) st1 q ew1(4) by auto
  ultimately show ?thesis
    using ew1(1) ew_exec_step [OF s3(1), of "[]"] by simp
qed


subsection \<open>What goes wrong between the two\<close>

lemma ew_call_full:
  assumes "queue_laws Q els cap" "cap \<le> length (els (ew_queue ew))" "call_items c = [x]"
  shows "\<exists>q1. call_all (loop_for readSome writeSome Q) [c] (ew, v) = Some (ew\<lparr>ew_queue := q1\<rparr>, v) \<and> els q1 = els (ew_queue ew)"
  using assms by (auto simp: ew_call_def runInEventWatcherLoop_def queue_laws_def loop_for_def split_beta Let_def)

text \<open>Where the queue of the watcher is full, the watch of a write is dropped: the bytes stay in the buffer, and
  neither the kernel's interest list nor the queue has anything for them.\<close>

lemma full_queue_forgets_write:
  assumes "tl_env_ok Q els cap recv writev q f e" "tl_inv q f e els written [] (ew, Some w)"
    and "cap \<le> length (els (ew_queue ew))" "bb_wf b" "bb_contents b \<noteq> []"
    and "bb_w (tr_wbuf (tl_transport w)) + length (bb_contents b) \<le> vec_max"
  shows "\<exists>q1 w1. tcp_step recv writev Q (TlWrite b) (ew, Some w) = Some (ew\<lparr>ew_queue := q1\<rparr>, Some w1)
    \<and> els q1 = els (ew_queue ew) \<and> unsent w1 = unsent w @ bb_contents b"
proof -
  let ?t = "tl_transport w"
  have t: "bb_wf (tr_wbuf ?t)" "tr_fd ?t = f" and f: "0 \<le> f" and laws: "queue_laws Q els cap"
    using assms(1,2) by (auto simp: tl_env_ok_def tl_inv_def world_inv_def tr_inv_def Let_def)
  from tr_write_ok [OF assms(4) t(1) assms(6)] obtain n es b1 t1 where t1: "tr_write (\<lambda>_. True) b ?t = Some (n, es, b1, t1)"
      "bb_contents (tr_wbuf t1) = unsent w @ bb_contents b" by blast
  have "watcher_calls es = [CWatch f WRONLY WRONLY]"
    using t1(1) t(2) assms(4,5) by (auto simp: tr_write_def Let_def readableBytes_wf split: if_splits Option.bind_splits)
  with t1 f ew_call_full [OF laws assms(3), of "CWatch f WRONLY WRONLY" "out_watch f"] show ?thesis
    by (fastforce simp: tl_step_def)
qed


subsection \<open>A transport of the demonstration\<close>

definition demo_out :: "chunker transport" where
  "demo_out = \<lparr>tr_fd = 7, tr_self = [], tr_other = [], tr_pipeline = conv_empty, tr_wbuf = bb_empty,
     tr_on_flush = 0, tr_on_writable_state = 0, tr_on_shutdown = 0\<rparr>"

abbreviation demo_recv :: "nat \<Rightarrow> recv_result" where "demo_recv \<equiv> \<lambda>k. RecvError EAGAIN"

abbreviation demo_writev :: writev_result where "demo_writev \<equiv> \<lambda>k n. Inl n"

abbreviation demo_queue :: "(wflag item, wflag item list) queue_ops" where "demo_queue \<equiv> list_queue 2"

abbreviation demo_tl_reach :: "(wflag, wflag item list) watcher \<Rightarrow> (wflag item list, chunker) tl_state \<Rightarrow> bool" where
  "demo_tl_reach ew0 \<equiv> tl_reach (ew0, Some (new_world demo_out)) demo_queue (\<lambda>q. q) 2 demo_recv demo_writev 1 7 3"

lemma demo_tl_env: "tl_env_ok demo_queue (\<lambda>q. q) 2 demo_recv demo_writev 1 7 3"
  by (auto simp: tl_env_ok_def list_queue_laws reads_end_def kernel_ok_def vec_max_def intro!: exI [of _ 0])

lemma demo_out_ok:
  "tr_fd demo_out = 7" "tr_wbuf demo_out = bb_empty" "list_all (library_stage al) (cv_stages (tr_pipeline demo_out))"
  by (simp_all add: demo_out_def conv_empty_def)

lemma demo_watcher:
  obtains ew0 :: "(wflag, wflag item list) watcher" where "new_watcher 3 ([] :: wflag item list) = Some ew0" "ew_queue ew0 = []"
  by (rule new_watcher_ok [of 3 "[] :: wflag item list"]) auto

lemma demo_two_bytes:
  assumes "new_watcher 3 ([] :: wflag item list) = Some ew0" "ew_queue ew0 = []"
  shows "\<exists>ew w. tcp_step demo_recv demo_writev demo_queue (TlWrite (bb_of [1, 2])) (ew0, Some (new_world demo_out)) = Some (ew, Some w)
    \<and> unsent w = [1, 2] \<and> ew_queue ew = [out_watch 7] \<and> demo_tl_reach ew0 (ew, Some w)"
proof -
  have "\<exists>n es b1 t1. tr_write (\<lambda>_. True) (bb_of [1, 2]) demo_out = Some (n, es, b1, t1) \<and> bb_wf (tr_wbuf t1)
      \<and> bb_contents (tr_wbuf t1) = bb_contents (tr_wbuf demo_out) @ bb_contents (bb_of [1, 2])
      \<and> bb_w (tr_wbuf t1) \<le> bb_w (tr_wbuf demo_out) + length (bb_contents (bb_of [1, 2]))
      \<and> tr_pipeline t1 = tr_pipeline demo_out \<and> sent_in es = []"
    by (rule tr_write_ok) (simp_all add: demo_out_ok vec_max_def)
  then obtain n es b1 t1 where t1: "tr_write (\<lambda>_. True) (bb_of [1, 2]) demo_out = Some (n, es, b1, t1)"
      "bb_contents (tr_wbuf t1) = [1, 2]" by (auto simp: demo_out_ok)
  have es: "watcher_calls es = [CWatch 7 WRONLY WRONLY]"
    using t1 by (auto simp: tr_write_def Let_def demo_out_ok split: if_splits Option.bind_splits)
  obtain ew w where s: "tcp_step demo_recv demo_writev demo_queue (TlWrite (bb_of [1, 2])) (ew0, Some (new_world demo_out)) = Some (ew, Some w)"
      "unsent w = [1, 2]" "ew_queue ew = [out_watch 7]"
    using t1 es assms(2) call_queued [OF list_queue_laws, of ew0 2 "CWatch 7 WRONLY WRONLY" "out_watch 7"]
    by (fastforce simp: tl_step_def new_world_def)
  have "tl_enabled (\<lambda>q. q) 2 1 7 3 (TlWrite (bb_of [1, 2])) (ew0, Some (new_world demo_out))"
    using assms(2) by (simp add: new_world_def demo_out_ok vec_max_def)
  from tl_trans [OF tl_refl this s(1)] s show ?thesis by blast
qed




end
