(* ===== verification/Endpoints.thy ===== *)
theory Endpoints
  imports LoopTransport
begin

section \<open>Dialling and listening\<close>

text \<open>
  Models \<open>tasks/transport/tcp/tcp_dialer.*\<close> and \<open>tasks/transport/tcp/tcp_listener.*\<close>. The socket helpers
  of \<open>bits\<close> are the fields of \<open>sock_sys\<close>: a descriptor or 0, negative for an error, with \<open>errno\<close>.
  Effects are listed in the order they happen. The listener's work is split between
  \<open>listenAndWait\<close>, which posts tasks, and the tasks, which the loop's thread runs; the latch that
  \<open>listenAndWait\<close> waits on is a counter.
\<close>

record sock_sys =
  ss_parse :: "string \<Rightarrow> (string \<times> nat) option"
  ss_make :: "int \<times> int"
  ss_nonblock :: "int \<Rightarrow> int \<times> int"
  ss_connect :: "int \<Rightarrow> nat \<Rightarrow> string \<Rightarrow> int \<times> int"
  ss_error :: "int \<Rightarrow> int"
  ss_bind :: "int \<Rightarrow> nat \<Rightarrow> string \<Rightarrow> int \<times> int"
  ss_listen :: "int \<Rightarrow> int \<times> int"
  ss_name :: "int \<Rightarrow> string option"
  ss_name_errno :: int
  ss_peer :: "int \<Rightarrow> string option"
  ss_accept :: "nat \<Rightarrow> int \<times> int"

datatype net_effect =
    NWatch int wflag
  | NUnwatch int wflag
  | NClose int
  | NConnected int \<comment> \<open>with a transport on this descriptor\<close>
  | NFailure int
  | NError int
  | NAccepted "int option" \<comment> \<open>with a transport, or a null pointer\<close>
  | NStarted string
  | NShutdown

subsection \<open>The dialer\<close>

record dialer =
  dl_address :: string
  dl_fd :: int

definition new_dialer :: "string \<Rightarrow> dialer" where
  "new_dialer address = \<lparr>dl_address = address, dl_fd = -1\<rparr>"

definition destroy_dialer :: "dialer \<Rightarrow> net_effect list" where
  "destroy_dialer d =
     (if 0 \<le> dl_fd d then [NUnwatch (dl_fd d) WRONLY, NClose (dl_fd d)] else [])"

definition dialer_onWritable :: "sock_sys \<Rightarrow> dialer \<Rightarrow> (net_effect list \<times> dialer) option" where
  "dialer_onWritable ss d =
     (let fd = dl_fd d; error = ss_error ss fd in
      if error \<noteq> 0
      then Some ([NUnwatch fd WRONLY, NClose fd, NFailure error], d\<lparr>dl_fd := -1\<rparr>)
      else do {
        t \<leftarrow> (new_transport (ss_name ss) (ss_peer ss) fd :: unit transport option);
        Some ([NUnwatch fd WRONLY, NConnected (tr_fd t)], d\<lparr>dl_fd := -1\<rparr>) })"

definition dial :: "sock_sys \<Rightarrow> dialer \<Rightarrow> (net_effect list \<times> dialer) option" where
  "dial ss d =
     (case ss_parse ss (dl_address d) of
        None \<Rightarrow> Some ([NFailure EINVAL], d)
      | Some (host, port) \<Rightarrow>
          let (fd, errno) = ss_make ss; d1 = d\<lparr>dl_fd := fd\<rparr> in
          if fd < 0 then Some ([NFailure errno], d1)
          else let (nb, nb_errno) = ss_nonblock ss fd in
          if nb < 0 then Some ([NClose fd, NFailure nb_errno], d1\<lparr>dl_fd := -1\<rparr>)
          else let (result, c_errno) = ss_connect ss fd port host in
          if result = 0 then dialer_onWritable ss d1
          else if c_errno = EINPROGRESS then Some ([NWatch fd WRONLY], d1)
          else Some ([NClose fd, NFailure c_errno], d1\<lparr>dl_fd := -1\<rparr>))"

subsection \<open>The listener\<close>

record listener =
  ln_address :: string
  ln_fd :: int
  ln_bound :: string
  ln_latch :: nat
  ln_on_failure :: bool \<comment> \<open>the callbacks that hold a target\<close>
  ln_on_shutdown :: bool

definition new_listener :: "string \<Rightarrow> listener" where
  "new_listener address = \<lparr>ln_address = address, ln_fd = -1, ln_bound = [], ln_latch = 1,
     ln_on_failure = True, ln_on_shutdown = True\<rparr>"

definition listener_onFailure :: "bool \<Rightarrow> listener \<Rightarrow> listener" where
  \<comment> \<open>the setters replace a callback, perhaps by one without a target\<close>
  "listener_onFailure target ln = ln\<lparr>ln_on_failure := target\<rparr>"

definition listener_onShutdown :: "bool \<Rightarrow> listener \<Rightarrow> listener" where
  "listener_onShutdown target ln = ln\<lparr>ln_on_shutdown := target\<rparr>"

definition destroy_listener :: "listener \<Rightarrow> net_effect list" where
  "destroy_listener ln = (if 0 \<le> ln_fd ln then [NClose (ln_fd ln)] else [])"

datatype ltask =
    LFail int bool \<comment> \<open>with guards against empty callbacks, or without\<close>
  | LStarted string
  | LWatch
  | LShutdown

definition latch_count_down :: "listener \<Rightarrow> listener option" where
  \<comment> \<open>\<open>std::latch::count_down\<close> below zero is undefined\<close>
  "latch_count_down ln = (if 0 < ln_latch ln then Some (ln\<lparr>ln_latch := ln_latch ln - 1\<rparr>) else None)"

fun run_ltask :: "ltask \<Rightarrow> listener \<Rightarrow> (net_effect list \<times> listener) option" where
  "run_ltask (LFail err guarded) ln =
     (if \<not> guarded \<and> \<not> (ln_on_failure ln \<and> ln_on_shutdown ln) then None
      else do {
        ln1 \<leftarrow> latch_count_down ln;
        Some ((if ln_on_failure ln then [NFailure err] else []) @
              (if ln_on_shutdown ln then [NShutdown] else []), ln1) })"
| "run_ltask (LStarted address) ln = Some ([NStarted address], ln)"
| "run_ltask LWatch ln = Some ([NWatch (ln_fd ln) RDONLY], ln)"
| "run_ltask LShutdown ln =
     do { let closing = (if 0 \<le> ln_fd ln then [NUnwatch (ln_fd ln) RDONLY, NClose (ln_fd ln)] else []);
          ln1 \<leftarrow> latch_count_down (if 0 \<le> ln_fd ln then ln\<lparr>ln_fd := -1\<rparr> else ln);
          Some (closing @ (if ln_on_shutdown ln then [NShutdown] else []), ln1) }"

definition listenAndWait :: "sock_sys \<Rightarrow> listener \<Rightarrow> net_effect list \<times> ltask list \<times> listener" where
  \<comment> \<open>up to the wait: the effects, the tasks posted\<close>
  "listenAndWait ss ln =
     (case ss_parse ss (ln_address ln) of
        None \<Rightarrow> ([], [LFail EINVAL False], ln)
      | Some (host, port) \<Rightarrow>
          let (fd, errno) = ss_make ss; ln1 = ln\<lparr>ln_fd := fd\<rparr>; closed = ln\<lparr>ln_fd := -1\<rparr> in
          if fd < 0 then ([], [LFail errno False], ln1)
          else let (nb, nb_errno) = ss_nonblock ss fd in
          if nb < 0 then ([NClose fd], [LFail nb_errno True], closed)
          else let (b, b_errno) = ss_bind ss fd port host in
          if b < 0 then ([NClose fd], [LFail b_errno False], closed)
          else let (l, l_errno) = ss_listen ss fd in
          if l < 0 then ([NClose fd], [LFail l_errno False], closed)
          else case ss_name ss fd of
              None \<Rightarrow> ([NClose fd], [LFail (ss_name_errno ss) False], closed)
            | Some bound \<Rightarrow> ([], [LStarted bound, LWatch], ln1\<lparr>ln_bound := bound\<rparr>))"

definition listener_shutdown :: "ltask list" where
  "listener_shutdown = [LShutdown]"

definition createTransport :: "sock_sys \<Rightarrow> int \<Rightarrow> (net_effect list \<times> int option) option" where
  "createTransport ss fd =
     (if fst (ss_nonblock ss fd) < 0 then Some ([NClose fd], None)
      else do {
        t \<leftarrow> (new_transport (ss_name ss) (ss_peer ss) fd :: unit transport option);
        Some ([], Some (tr_fd t)) })"

definition transient :: "int \<Rightarrow> bool" where
  "transient errno \<longleftrightarrow> errno = EMFILE \<or> errno = ENFILE \<or> errno = ENOMEM \<or> errno = EAGAIN \<or> errno = EWOULDBLOCK"

fun accept_loop :: "sock_sys \<Rightarrow> nat \<Rightarrow> nat \<Rightarrow> net_effect list option" where
  \<comment> \<open>with the iterations left and the number of \<open>accept\<close> calls so far\<close>
  "accept_loop ss 0 k = Some []"
| "accept_loop ss (Suc i) k =
     (let (fd, errno) = ss_accept ss k in
      if fd < 0 then
        if errno = EINTR then accept_loop ss i (k + 1)
        else if transient errno then Some [NError errno]
        else Some [NFailure errno]
      else do {
        (es, t) \<leftarrow> createTransport ss fd;
        rest \<leftarrow> accept_loop ss i (k + 1);
        Some (es @ NAccepted t # rest) })"

definition listener_onReadable :: "sock_sys \<Rightarrow> nat \<Rightarrow> net_effect list option" where
  "listener_onReadable ss k = accept_loop ss 256 k"

subsection \<open>Dialling ends once\<close>

definition outcomes :: "net_effect list \<Rightarrow> net_effect list" where
  \<comment> \<open>the callbacks of the dialer's user\<close>
  "outcomes es = filter (\<lambda>e. case e of NConnected fd \<Rightarrow> True | NFailure err \<Rightarrow> True | _ \<Rightarrow> False) es"

definition names_known :: "sock_sys \<Rightarrow> bool" where
  \<comment> \<open>a connected socket has a name and a peer\<close>
  "names_known ss \<longleftrightarrow> (\<forall>fd \<ge> 0. ss_name ss fd \<noteq> None \<and> ss_peer ss fd \<noteq> None)"

lemma new_transport_ok:
  "names_known ss \<Longrightarrow> 0 \<le> fd \<Longrightarrow>
     \<exists>t. new_transport (ss_name ss) (ss_peer ss) fd = Some t \<and> tr_fd t = fd"
  by (fastforce simp: names_known_def new_transport_def)

lemma dialer_onWritable_ok:
  assumes "names_known ss" "0 \<le> dl_fd d"
  shows "dialer_onWritable ss d = Some ((if ss_error ss (dl_fd d) \<noteq> 0
      then [NUnwatch (dl_fd d) WRONLY, NClose (dl_fd d), NFailure (ss_error ss (dl_fd d))]
      else [NUnwatch (dl_fd d) WRONLY, NConnected (dl_fd d)]), d\<lparr>dl_fd := -1\<rparr>)"
  using new_transport_ok [OF assms, where 'a = unit] by (auto simp: dialer_onWritable_def Let_def)

text \<open>C23: Dialling reports exactly one outcome, connected or failed: at once, or, when the connection is in
  progress and the descriptor watched, at the first writable event. A failure after the socket was made
  closes it, a success hands it to the transport, and in both cases the dialer lets go of it.\<close>

theorem dial_resolves_once:
  assumes "names_known ss" "dl_fd d < 0"
  shows "\<exists>es d1. dial ss d = Some (es, d1) \<and>
    ((\<exists>err. outcomes es = [NFailure err]) \<and> dl_fd d1 < 0
        \<and> (\<forall>fd. ss_make ss = (fd, snd (ss_make ss)) \<and> 0 \<le> fd \<and> ss_parse ss (dl_address d) \<noteq> None \<longrightarrow> NClose fd \<in> set es)
     \<or> outcomes es = [NConnected (fst (ss_make ss))] \<and> dl_fd d1 < 0 \<and> (\<forall>fd. NClose fd \<notin> set es)
     \<or> outcomes es = [] \<and> es = [NWatch (dl_fd d1) WRONLY] \<and> 0 \<le> dl_fd d1
        \<and> (\<exists>es2 d2. dialer_onWritable ss d1 = Some (es2, d2) \<and> dl_fd d2 < 0 \<and>
            ((\<exists>err. outcomes es2 = [NFailure err]) \<and> NClose (dl_fd d1) \<in> set es2
             \<or> outcomes es2 = [NConnected (dl_fd d1)] \<and> (\<forall>fd. NClose fd \<notin> set es2))))"
proof (cases "ss_parse ss (dl_address d)")
  case None
  then show ?thesis using assms by (simp add: dial_def outcomes_def)
next
  case (Some hp)
  obtain host port fd errno where hp: "hp = (host, port)" and mk: "ss_make ss = (fd, errno)"
    by (metis surj_pair)
  show ?thesis
  proof (cases "fd < 0")
    case True
    with Some hp mk show ?thesis by (simp add: dial_def outcomes_def)
  next
    case False
    then have fd: "0 \<le> fd" by simp
    have w: "dialer_onWritable ss (d\<lparr>dl_fd := fd\<rparr>) = Some ((if ss_error ss fd \<noteq> 0
        then [NUnwatch fd WRONLY, NClose fd, NFailure (ss_error ss fd)]
        else [NUnwatch fd WRONLY, NConnected fd]), d\<lparr>dl_fd := -1\<rparr>)"
      using dialer_onWritable_ok [OF assms(1), of "d\<lparr>dl_fd := fd\<rparr>"] fd by simp
    obtain nb nb_errno c c_errno where nb: "ss_nonblock ss fd = (nb, nb_errno)"
        and c: "ss_connect ss fd port host = (c, c_errno)" by fastforce
    consider "nb < 0" | "0 \<le> nb" "c = 0" | "0 \<le> nb" "c \<noteq> 0" "c_errno = EINPROGRESS"
      | "0 \<le> nb" "c \<noteq> 0" "c_errno \<noteq> EINPROGRESS" by linarith
    then show ?thesis
    proof cases
      case 3
      then have "dial ss d = Some ([NWatch fd WRONLY], d\<lparr>dl_fd := fd\<rparr>)"
        using False Some hp mk nb c by (simp add: dial_def)
      then show ?thesis using w fd by (simp add: outcomes_def)
    qed (use False Some hp mk nb c w in \<open>simp_all add: dial_def outcomes_def\<close>)
  qed
qed

definition demo_sys :: sock_sys where
  \<comment> \<open>a connection that is in progress and then made; accepts descriptors 20 and 21 and runs dry\<close>
  "demo_sys = \<lparr>ss_parse = (\<lambda>a. Some (a, 80)), ss_make = (5, 0), ss_nonblock = (\<lambda>fd. (if fd = 21 then -1 else 0, 0)),
     ss_connect = (\<lambda>fd port host. (-1, EINPROGRESS)), ss_error = (\<lambda>fd. 0),
     ss_bind = (\<lambda>fd port host. (0, 0)), ss_listen = (\<lambda>fd. (0, 0)), ss_name = (\<lambda>fd. Some ''me''),
     ss_name_errno = 0, ss_peer = (\<lambda>fd. Some ''you''),
     ss_accept = (\<lambda>k. if k < 2 then (20 + int k, 0) else (-1, EAGAIN))\<rparr>"

lemma demo_sys_names: "names_known demo_sys"
  by (simp add: names_known_def demo_sys_def)

theorem dial_resolves_once_witness:
  "\<exists>d1 es2 d2. dial demo_sys (new_dialer ''h'') = Some ([NWatch 5 WRONLY], d1)
    \<and> dialer_onWritable demo_sys d1 = Some (es2, d2) \<and> outcomes es2 = [NConnected 5]"
proof -
  have d: "dial demo_sys (new_dialer ''h'') = Some ([NWatch 5 WRONLY], \<lparr>dl_address = ''h'', dl_fd = 5\<rparr>)"
    by (simp add: dial_def demo_sys_def new_dialer_def)
  have w: "dialer_onWritable demo_sys \<lparr>dl_address = ''h'', dl_fd = 5\<rparr> \<noteq> None \<Longrightarrow>
      outcomes (fst (the (dialer_onWritable demo_sys \<lparr>dl_address = ''h'', dl_fd = 5\<rparr>))) = [NConnected 5]"
    by (simp add: dialer_onWritable_def demo_sys_def new_transport_def outcomes_def)
  have "dl_fd (new_dialer ''h'') < 0" by (simp add: new_dialer_def)
  from dial_resolves_once [OF demo_sys_names this] d w show ?thesis
    by (auto simp: outcomes_def)
qed

subsection \<open>Listening\<close>

text \<open>C24: Listening either fails, and then reports one failure and one shutdown, closes the socket if it
  was made, and lets listenAndWait return; or it reports the bound address, watches the socket, and waits
  until shutdown unwatches and closes it and reports the shutdown once.\<close>

theorem listener_lifecycle:
  assumes "listenAndWait ss (new_listener address) = (es, ts, ln)"
  shows "(\<exists>err ln1. run_ops run_ltask ts ln = Some ([[NFailure err, NShutdown]], ln1)
        \<and> ln_latch ln1 = 0 \<and> ln_fd ln1 < 0
        \<and> es = (if ss_parse ss address \<noteq> None \<and> 0 \<le> fst (ss_make ss) then [NClose (fst (ss_make ss))] else []))
    \<or> (\<exists>bound fd ln1 ln2. es = [] \<and> fd = fst (ss_make ss) \<and> 0 \<le> fd \<and> ss_name ss fd = Some bound
        \<and> run_ops run_ltask ts ln = Some ([[NStarted bound], [NWatch fd RDONLY]], ln1) \<and> ln_latch ln1 = 1
        \<and> run_ops run_ltask listener_shutdown ln1 =
            Some ([[NUnwatch fd RDONLY, NClose fd, NShutdown]], ln2)
        \<and> ln_latch ln2 = 0 \<and> ln_fd ln2 < 0 \<and> destroy_listener ln2 = [])"
  using assms
  by (auto simp: listenAndWait_def new_listener_def latch_count_down_def listener_shutdown_def
      destroy_listener_def Let_def split: option.splits prod.splits if_splits)

theorem listener_lifecycle_witness:
  "\<exists>es ts ln ln1. listenAndWait demo_sys (new_listener ''a'') = (es, ts, ln)
    \<and> run_ops run_ltask ts ln = Some ([[NStarted ''me''], [NWatch 5 RDONLY]], ln1) \<and> ln_latch ln1 = 1"
proof -
  obtain es ts ln where l: "listenAndWait demo_sys (new_listener ''a'') = (es, ts, ln)"
    using prod_cases3 by blast
  then have "es = []" by (simp add: listenAndWait_def demo_sys_def)
  with listener_lifecycle [OF l] l show ?thesis by (auto simp: demo_sys_def)
qed

text \<open>A second shutdown of a listener counts its latch down below zero: undefined behaviour.\<close>

theorem listener_second_shutdown:
  assumes "run_ltask LShutdown ln = Some (es, ln1)" "ln_latch ln = 1"
  shows "run_ltask LShutdown ln1 = None"
  using assms by (auto simp: latch_count_down_def split: if_splits)

theorem listener_second_shutdown_witness:
  "run_ltask LShutdown \<lparr>ln_address = ''a'', ln_fd = -1, ln_bound = [], ln_latch = 0, ln_on_failure = True,
     ln_on_shutdown = True\<rparr> = None"
proof (rule listener_second_shutdown)
  show "run_ltask LShutdown (new_listener ''a'') = Some ([NShutdown], \<lparr>ln_address = ''a'', ln_fd = -1,
      ln_bound = [], ln_latch = 0, ln_on_failure = True, ln_on_shutdown = True\<rparr>)"
    by (simp add: new_listener_def latch_count_down_def)
qed (simp add: new_listener_def)

text \<open>A readable listening socket hands over every pending connection in order, up to 256 at a time;
  a connection that cannot be made non-blocking is closed and handed over as a null pointer, and running
  out of connections is reported as the error EAGAIN.\<close>

theorem accept_batch:
  assumes "m < 256" "\<forall>j < m. 0 \<le> fst (ss_accept ss (k + j))" "ss_accept ss (k + m) = (fd, errno)" "fd < 0"
    and "errno = EAGAIN" "names_known ss"
  shows "listener_onReadable ss k = Some (concat (map (\<lambda>j. let c = fst (ss_accept ss (k + j)) in
      if fst (ss_nonblock ss c) < 0 then [NClose c, NAccepted None] else [NAccepted (Some c)]) [0..<m])
    @ [NError EAGAIN])"
proof -
  let ?one = "\<lambda>c. if fst (ss_nonblock ss c) < 0 then [NClose c, NAccepted None] else [NAccepted (Some c)]"
  have create: "\<exists>es t. createTransport ss c = Some (es, t) \<and> es @ [NAccepted t] = ?one c" if "0 \<le> c" for c
    using new_transport_ok [OF assms(6) that, where 'a = unit] by (auto simp: createTransport_def)
  have "accept_loop ss i k = Some (concat (map (\<lambda>j. ?one (fst (ss_accept ss (k + j)))) [0..<m]) @ [NError EAGAIN])"
    if "m < i" "\<forall>j < m. 0 \<le> fst (ss_accept ss (k + j))" "ss_accept ss (k + m) = (fd, EAGAIN)" for i k m
    using that
  proof (induction m arbitrary: i k)
    case 0
    then show ?case
      using assms(4) by (cases i) (simp_all add: transient_def errno_defs)
  next
    case (Suc m)
    obtain i' where i: "i = Suc i'" "m < i'" using Suc.prems(1) by (cases i) auto
    obtain c e where c: "ss_accept ss k = (c, e)" "0 \<le> c"
      using Suc.prems(2) by (metis add.right_neutral fst_conv surj_pair zero_less_Suc)
    obtain es t where cr: "createTransport ss c = Some (es, t)" "es @ [NAccepted t] = ?one c"
      using create [OF c(2)] by blast
    have "accept_loop ss i' (Suc k) = Some (concat (map (\<lambda>j. ?one (fst (ss_accept ss (Suc k + j)))) [0..<m])
        @ [NError EAGAIN])"
      using Suc.prems(2,3) i(2) by (intro Suc.IH) auto
    moreover have "map (\<lambda>j. ?one (fst (ss_accept ss (k + j)))) [0..<Suc m] =
        ?one c # map (\<lambda>j. ?one (fst (ss_accept ss (Suc k + j)))) [0..<m]"
      using c(1) by (simp add: map_Suc_upt [symmetric] upt_conv_Cons [OF zero_less_Suc] o_def del: upt_Suc)
    ultimately show ?case
      using c cr unfolding i(1) by (simp del: upt_Suc)
  qed
  from this [OF assms(1,2)] assms(3,5) show ?thesis by (simp add: listener_onReadable_def Let_def)
qed

theorem accept_batch_witness:
  "listener_onReadable demo_sys 0 = Some [NAccepted (Some 20), NClose 21, NAccepted None, NError EAGAIN]"
  using accept_batch [of 2 demo_sys 0 "-1" EAGAIN] demo_sys_names
  by (simp add: demo_sys_def upt_rec)

end
