(* ===== verification/RpcTransport.thy ===== *)
theory RpcTransport
  imports Watcher
begin

section \<open>The TCP transport of the rpc sockets\<close>

text \<open>
  Models \<open>tasks/socket/transport.hpp\<close> and \<open>tasks/socket/tcp_transport.*\<close>. The transport keeps a table of
  connections by descriptor and a table of descriptors by peer; \<open>hot_read_peer_\<close> is the connection that
  became readable last. The record \<open>rpc_env\<close> holds what is not the transport's: the system calls, as
  functions of the state \<open>'w\<close> of the system, the allocator, and the order in which the hash table of
  connections is visited. Calls of the watcher, of \<open>close\<close> and of the socket's \<open>replay_\<close> are logged in
  the order they happen. Socket options whose failure is only logged are left out.
\<close>

subsection \<open>Events of a socket\<close>

datatype iostatus = IoOk | IoWouldBlock | IoFatal | IoError | IoEof

type_synonym cb = "nat option" \<comment> \<open>a user's function object by name; \<open>None\<close> is the empty one\<close>

datatype io_event =
    BindReq cb
  | BindRep iostatus string
  | ConnectReq cb
  | ConnectRep iostatus
  | ReadReq cb
  | ReadReadyRep
  | WriteReq "u8 list" string cb
  | WriteReadyRep string
  | CloseReq cb

text \<open>What \<open>resumeRead\<close> leaves in its result and its reference parameters; the result is a \<open>size_t\<close>.\<close>

record read_out =
  ro_n :: nat
  ro_data :: "u8 list"
  ro_peer :: string
  ro_status :: iostatus

definition minus_one :: nat where
  \<comment> \<open>\<open>return -1\<close> from a function that returns a \<open>size_t\<close>\<close>
  "minus_one = 2 ^ 64 - 1"

subsection \<open>State\<close>

record conn =
  cn_fd :: int
  cn_peer :: string
  cn_read_armed :: bool
  cn_write_armed :: bool

datatype rpc_effect = RWatch int wflag | RUnwatch int wflag | RClose int | RReplay io_event

record 'w rpc_tcp =
  rt_host :: string
  rt_port :: nat
  rt_listen_fd :: int
  rt_client_fd :: int
  rt_hot_read :: string
  rt_hot_write :: string
  rt_connected :: bool
  rt_fd_by_peer :: "(string \<times> int) list"
  rt_conns :: "(int \<times> conn) list"
  rt_log :: "rpc_effect list"
  rt_world :: 'w

text \<open>
  System calls return their result and the state of the system. \<open>re_accept\<close> gives a descriptor with the
  peer's address as \<open>inet_ntop\<close> prints it and its port, or nothing; \<open>re_recv fd n\<close> up to \<open>n\<close> bytes, none
  at the end of the stream, or \<open>errno\<close>; \<open>re_send\<close> the number of bytes taken, or \<open>errno\<close>; \<open>re_so_error\<close>
  the pending error, or nothing when \<open>getsockopt\<close> fails.
\<close>

record 'w rpc_env =
  re_parse :: "string \<Rightarrow> (string \<times> nat) option"
  re_make :: "'w \<Rightarrow> int \<times> 'w"
  re_nonblock :: "int \<Rightarrow> 'w \<Rightarrow> int \<times> 'w"
  re_bind :: "int \<Rightarrow> nat \<Rightarrow> string \<Rightarrow> 'w \<Rightarrow> int \<times> 'w"
  re_listen :: "int \<Rightarrow> 'w \<Rightarrow> int \<times> 'w"
  re_name :: "int \<Rightarrow> 'w \<Rightarrow> string option \<times> 'w"
  re_connect :: "int \<Rightarrow> nat \<Rightarrow> string \<Rightarrow> 'w \<Rightarrow> (int \<times> int) \<times> 'w"
  re_so_error :: "int \<Rightarrow> 'w \<Rightarrow> int option \<times> 'w"
  re_accept :: "int \<Rightarrow> 'w \<Rightarrow> (int \<times> string \<times> nat) option \<times> 'w"
  re_recv :: "int \<Rightarrow> nat \<Rightarrow> 'w \<Rightarrow> (u8 list + int) \<times> 'w"
  re_send :: "int \<Rightarrow> u8 list \<Rightarrow> 'w \<Rightarrow> (nat + int) \<times> 'w"
  re_close :: "int \<Rightarrow> 'w \<Rightarrow> 'w"
  re_alloc :: alloc
  re_order :: "int list \<Rightarrow> int list"

definition sys :: "('w \<Rightarrow> 'r \<times> 'w) \<Rightarrow> 'w rpc_tcp \<Rightarrow> 'r \<times> 'w rpc_tcp" where
  "sys call t = (let (r, w) = call (rt_world t) in (r, t\<lparr>rt_world := w\<rparr>))"

definition emit :: "rpc_effect \<Rightarrow> 'w rpc_tcp \<Rightarrow> 'w rpc_tcp" where
  "emit e t = t\<lparr>rt_log := rt_log t @ [e]\<rparr>"

definition sys_close :: "'w rpc_env \<Rightarrow> int \<Rightarrow> 'w rpc_tcp \<Rightarrow> 'w rpc_tcp" where
  "sys_close E fd t = emit (RClose fd) (t\<lparr>rt_world := re_close E fd (rt_world t)\<rparr>)"

definition rpc_new :: "'w rpc_env \<Rightarrow> string \<Rightarrow> 'w \<Rightarrow> string + 'w rpc_tcp" where
  \<comment> \<open>the constructor, which throws for an address it cannot parse\<close>
  "rpc_new E address w =
     (case re_parse E address of
        None \<Rightarrow> Inl ''Invalid address format''
      | Some (host, port) \<Rightarrow> Inr \<lparr>rt_host = host, rt_port = port, rt_listen_fd = -1, rt_client_fd = -1,
          rt_hot_read = [], rt_hot_write = [], rt_connected = False, rt_fd_by_peer = [], rt_conns = [],
          rt_log = [], rt_world = w\<rparr>)"

subsection \<open>Registration with the watcher\<close>

definition watchAccept :: "'w rpc_tcp \<Rightarrow> 'w rpc_tcp" where
  "watchAccept t = emit (RWatch (rt_listen_fd t) RDONLY) t"

definition unwatchAccept :: "'w rpc_tcp \<Rightarrow> 'w rpc_tcp" where
  "unwatchAccept t = (if 0 \<le> rt_listen_fd t then emit (RUnwatch (rt_listen_fd t) RDONLY) t else t)"

definition watchConnect :: "'w rpc_tcp \<Rightarrow> 'w rpc_tcp" where
  "watchConnect t = emit (RWatch (rt_client_fd t) WRONLY) t"

definition unwatchConnect :: "'w rpc_tcp \<Rightarrow> 'w rpc_tcp" where
  "unwatchConnect t = (if 0 \<le> rt_client_fd t then emit (RUnwatch (rt_client_fd t) WRONLY) t else t)"

text \<open>The functions on a \<open>Connection&\<close> return the connection; \<open>on_conn\<close> applies one to a table entry.\<close>

definition watchRead :: "conn \<Rightarrow> 'w rpc_tcp \<Rightarrow> conn \<times> 'w rpc_tcp" where
  "watchRead c t =
     (if \<not> cn_read_armed c then (c\<lparr>cn_read_armed := True\<rparr>, emit (RWatch (cn_fd c) RDONLY) t) else (c, t))"

definition unwatchRead :: "conn \<Rightarrow> 'w rpc_tcp \<Rightarrow> conn \<times> 'w rpc_tcp" where
  "unwatchRead c t =
     (if cn_read_armed c then (c\<lparr>cn_read_armed := False\<rparr>, emit (RUnwatch (cn_fd c) RDONLY) t) else (c, t))"

definition watchWrite :: "conn \<Rightarrow> 'w rpc_tcp \<Rightarrow> conn \<times> 'w rpc_tcp" where
  "watchWrite c t =
     (if \<not> cn_write_armed c then (c\<lparr>cn_write_armed := True\<rparr>, emit (RWatch (cn_fd c) WRONLY) t) else (c, t))"

definition unwatchWrite :: "conn \<Rightarrow> 'w rpc_tcp \<Rightarrow> conn \<times> 'w rpc_tcp" where
  "unwatchWrite c t =
     (if cn_write_armed c then (c\<lparr>cn_write_armed := False\<rparr>, emit (RUnwatch (cn_fd c) WRONLY) t) else (c, t))"

definition on_conn :: "int \<Rightarrow> (conn \<Rightarrow> 'w rpc_tcp \<Rightarrow> conn \<times> 'w rpc_tcp) \<Rightarrow> 'w rpc_tcp \<Rightarrow> 'w rpc_tcp" where
  "on_conn fd f t =
     (case map_of (rt_conns t) fd of
        None \<Rightarrow> t
      | Some c \<Rightarrow> let (c1, t1) = f c t in t1\<lparr>rt_conns := AList.update fd c1 (rt_conns t1)\<rparr>)"

definition conn_fds :: "'w rpc_env \<Rightarrow> 'w rpc_tcp \<Rightarrow> int list" where
  \<comment> \<open>the keys a loop over \<open>connection_by_fd_\<close> visits, in order\<close>
  "conn_fds E t = re_order E (map fst (rt_conns t))"

subsection \<open>Lifecycle\<close>

definition bind_failed :: "'w rpc_env \<Rightarrow> 'w rpc_tcp \<Rightarrow> 'w rpc_tcp" where
  "bind_failed E t =
     emit (RReplay (BindRep IoFatal [])) ((sys_close E (rt_listen_fd t) t)\<lparr>rt_listen_fd := -1\<rparr>)"

definition rpc_bind :: "'w rpc_env \<Rightarrow> 'w rpc_tcp \<Rightarrow> 'w rpc_tcp" where
  "rpc_bind E t =
     (let (fd, t1) = sys (re_make E) t; t1 = t1\<lparr>rt_listen_fd := fd\<rparr> in
      if fd < 0 then emit (RReplay (BindRep IoFatal [])) t1
      else let (nb, t2) = sys (re_nonblock E fd) t1 in
      if nb < 0 then bind_failed E t2
      else let (b, t3) = sys (re_bind E fd (rt_port t2) (rt_host t2)) t2 in
      if b < 0 then bind_failed E t3
      else let (l, t4) = sys (re_listen E fd) t3 in
      if l < 0 then bind_failed E t4
      else let (hostPort, t5) = sys (re_name E fd) t4 in
      case hostPort of
        None \<Rightarrow> bind_failed E t5
      | Some name \<Rightarrow> emit (RReplay (BindRep IoOk name)) (watchAccept t5))"

definition rpc_connect :: "'w rpc_env \<Rightarrow> 'w rpc_tcp \<Rightarrow> 'w rpc_tcp" where
  "rpc_connect E t =
     (let (fd, t1) = sys (re_make E) t; t1 = t1\<lparr>rt_client_fd := fd\<rparr> in
      if fd < 0 then t1
      else let (nb, t2) = sys (re_nonblock E fd) t1 in
      if nb < 0 then (sys_close E fd t2)\<lparr>rt_client_fd := -1\<rparr>
      else let ((rc, errno), t3) = sys (re_connect E fd (rt_port t2) (rt_host t2)) t2 in
      if rc < 0 \<and> errno \<noteq> EINPROGRESS then (sys_close E fd t3)\<lparr>rt_client_fd := -1\<rparr>
      else watchConnect t3)"

definition rpc_close :: "'w rpc_env \<Rightarrow> 'w rpc_tcp \<Rightarrow> 'w rpc_tcp" where
  "rpc_close E t =
     (let t1 = (if 0 \<le> rt_listen_fd t
                then (sys_close E (rt_listen_fd t) (unwatchAccept t))\<lparr>rt_listen_fd := -1\<rparr> else t);
          t2 = (if 0 \<le> rt_client_fd t1 then (unwatchConnect t1)\<lparr>rt_client_fd := -1\<rparr> else t1);
          t3 = fold (\<lambda>fd t. sys_close E fd (on_conn fd unwatchWrite (on_conn fd unwatchRead t)))
                 (conn_fds E t2) t2
      in t3\<lparr>rt_conns := [], rt_fd_by_peer := [], rt_hot_read := [], rt_hot_write := []\<rparr>)"

fun dec :: "nat \<Rightarrow> string" where
  \<comment> \<open>\<open>std::to_string\<close>\<close>
  "dec n = (if n < 10 then [char_of (48 + n)] else dec (n div 10) @ [char_of (48 + n mod 10)])"

definition new_conn :: "int \<Rightarrow> string \<Rightarrow> 'w rpc_tcp \<Rightarrow> 'w rpc_tcp" where
  "new_conn fd peer t =
     t\<lparr>rt_conns := AList.update fd
         \<lparr>cn_fd = fd, cn_peer = peer, cn_read_armed = False, cn_write_armed = False\<rparr> (rt_conns t),
       rt_fd_by_peer := AList.update peer fd (rt_fd_by_peer t)\<rparr>"

fun accept_conns :: "'w rpc_env \<Rightarrow> nat \<Rightarrow> 'w rpc_tcp \<Rightarrow> 'w rpc_tcp" where
  "accept_conns E 0 t = t"
| "accept_conns E (Suc i) t =
     (let (r, t1) = sys (re_accept E (rt_listen_fd t)) t in
      case r of
        None \<Rightarrow> t1
      | Some (fd, ip, port) \<Rightarrow>
          accept_conns E i (on_conn fd watchRead (new_conn fd (ip @ '':'' @ dec port) t1)))"

definition onAcceptReady :: "'w rpc_env \<Rightarrow> 'w rpc_tcp \<Rightarrow> 'w rpc_tcp" where
  "onAcceptReady E t = accept_conns E 10 t"

definition connect_failed :: "'w rpc_env \<Rightarrow> 'w rpc_tcp \<Rightarrow> 'w rpc_tcp" where
  "connect_failed E t =
     emit (RReplay (ConnectRep IoFatal)) ((sys_close E (rt_client_fd t) t)\<lparr>rt_client_fd := -1\<rparr>)"

definition onConnectReady :: "'w rpc_env \<Rightarrow> 'w rpc_tcp \<Rightarrow> 'w rpc_tcp" where
  "onConnectReady E t =
     (let t1 = unwatchConnect t; fd = rt_client_fd t1; (error, t2) = sys (re_so_error E fd) t1 in
      if error \<noteq> Some 0 then connect_failed E t2
      else let (peer_addr, t3) = sys (re_name E fd) t2 in
      case peer_addr of
        None \<Rightarrow> connect_failed E t3
      | Some peer \<Rightarrow> emit (RReplay (ConnectRep IoOk)) ((new_conn fd peer t3)\<lparr>rt_connected := True\<rparr>))"

definition onReadReady :: "int \<Rightarrow> 'w rpc_tcp \<Rightarrow> 'w rpc_tcp" where
  "onReadReady fd t =
     (case map_of (rt_conns t) fd of
        None \<Rightarrow> t
      | Some c \<Rightarrow> emit (RReplay ReadReadyRep) (t\<lparr>rt_hot_read := cn_peer c\<rparr>))"

definition onWriteReady :: "int \<Rightarrow> 'w rpc_tcp \<Rightarrow> 'w rpc_tcp" where
  "onWriteReady fd t =
     (case map_of (rt_conns t) fd of
        None \<Rightarrow> t
      | Some c \<Rightarrow> emit (RReplay (WriteReadyRep (cn_peer c))) (t\<lparr>rt_hot_write := cn_peer c\<rparr>))"

definition releaseConnection :: "'w rpc_env \<Rightarrow> int \<Rightarrow> 'w rpc_tcp \<Rightarrow> 'w rpc_tcp" where
  "releaseConnection E fd t =
     (case map_of (rt_conns t) fd of
        None \<Rightarrow> t
      | Some c \<Rightarrow>
          let peer = cn_peer c;
              t1 = sys_close E fd (on_conn fd unwatchWrite (on_conn fd unwatchRead t));
              t2 = t1\<lparr>rt_conns := AList.delete fd (rt_conns t1),
                      rt_fd_by_peer := AList.delete peer (rt_fd_by_peer t1)\<rparr>;
              t3 = (if rt_hot_read t2 = peer then t2\<lparr>rt_hot_read := []\<rparr> else t2)
          in if rt_hot_write t3 = peer then t3\<lparr>rt_hot_write := []\<rparr> else t3)"

subsection \<open>Reading and writing\<close>

definition would_block :: "int \<Rightarrow> bool" where
  "would_block errno \<longleftrightarrow> errno = EAGAIN \<or> errno = EWOULDBLOCK"

definition read_hot :: "'w rpc_env \<Rightarrow> read_out \<Rightarrow> nat \<Rightarrow> nat \<Rightarrow> int \<Rightarrow> conn \<Rightarrow> 'w rpc_tcp \<Rightarrow>
    (read_out \<times> 'w rpc_tcp) option" where
  \<comment> \<open>the fast path once \<open>hot_read_peer_\<close> is found, with the out-parameters so far\<close>
  "read_hot E out offset capacity fd c t =
     (let (r, t1) = sys (re_recv E fd capacity) t; cold = t1\<lparr>rt_hot_read := []\<rparr> in
      case r of
        Inl bs \<Rightarrow>
          if bs \<noteq> [] then do {
            data \<leftarrow> blit (ro_data out) offset bs;
            Some (\<lparr>ro_n = length bs, ro_data = data, ro_peer = cn_peer c, ro_status = IoOk\<rparr>,
              if length bs < capacity then cold else t1) }
          else Some (out\<lparr>ro_n := 0, ro_status := IoEof\<rparr>, releaseConnection E fd cold)
      | Inr errno \<Rightarrow>
          if would_block errno
          then Some (out\<lparr>ro_n := 0, ro_status := IoWouldBlock\<rparr>,
                     (on_conn fd watchRead t1)\<lparr>rt_hot_read := []\<rparr>)
          else Some (out\<lparr>ro_n := minus_one, ro_status := IoFatal\<rparr>, releaseConnection E fd cold))"

fun read_scan :: "'w rpc_env \<Rightarrow> read_out \<Rightarrow> nat \<Rightarrow> nat \<Rightarrow> int list \<Rightarrow> 'w rpc_tcp \<Rightarrow>
    (read_out \<times> 'w rpc_tcp) option" where
  \<comment> \<open>the loop over the connections that are left\<close>
  "read_scan E out offset capacity [] t = Some (out\<lparr>ro_n := 0, ro_status := IoWouldBlock\<rparr>, t)"
| "read_scan E out offset capacity (fd # fds) t =
     (case map_of (rt_conns t) fd of
        None \<Rightarrow> read_scan E out offset capacity fds t
      | Some c \<Rightarrow>
          let (r, t1) = sys (re_recv E fd capacity) (on_conn fd watchRead t) in
          case r of
            Inl bs \<Rightarrow>
              if bs \<noteq> [] then do {
                data \<leftarrow> blit (ro_data out) offset bs;
                Some (\<lparr>ro_n = length bs, ro_data = data, ro_peer = cn_peer c, ro_status = IoOk\<rparr>, t1) }
              else Some (out\<lparr>ro_n := 0, ro_status := IoEof\<rparr>, releaseConnection E fd t1)
          | Inr errno \<Rightarrow>
              if would_block errno then read_scan E out offset capacity fds t1
              else Some (out\<lparr>ro_n := minus_one, ro_status := IoFatal\<rparr>, releaseConnection E fd t1))"

definition rpc_resumeRead :: "'w rpc_env \<Rightarrow> u8 list \<Rightarrow> string \<Rightarrow> nat \<Rightarrow> nat \<Rightarrow> 'w rpc_tcp \<Rightarrow>
    (read_out \<times> 'w rpc_tcp) option" where
  \<comment> \<open>\<open>noexcept\<close>: a failed \<open>resize\<close> terminates the program\<close>
  "rpc_resumeRead E out_data out_peer offset max_len t =
     (let capacity = (if 0 < max_len then max_len else 1024); want = size_add offset capacity in do {
        data \<leftarrow> (if length out_data < want
          then if vec_can_grow (re_alloc E) want then Some (vec_resize out_data want 0) else None
          else Some out_data);
        let out = \<lparr>ro_n = 0, ro_data = data, ro_peer = out_peer, ro_status = IoOk\<rparr>;
        case (if rt_hot_read t \<noteq> []
              then do { fd \<leftarrow> map_of (rt_fd_by_peer t) (rt_hot_read t);
                        c \<leftarrow> map_of (rt_conns t) fd; Some (fd, c) }
              else None) of
          Some (fd, c) \<Rightarrow> read_hot E out offset capacity fd c t
        | None \<Rightarrow> let t1 = t\<lparr>rt_hot_read := []\<rparr> in
            read_scan E out offset capacity (conn_fds E t1) t1 })"

definition rpc_resolve :: "string \<Rightarrow> 'w rpc_tcp \<Rightarrow> iostatus + int" where
  \<comment> \<open>the connection a write goes to, as the key of its entry, or the status of the failure\<close>
  "rpc_resolve peer t =
     (if peer \<noteq> [] then
        (case map_of (rt_fd_by_peer t) peer of
           None \<Rightarrow> Inl IoFatal
         | Some fd \<Rightarrow> if map_of (rt_conns t) fd = None then Inl IoFatal else Inr fd)
      else if rt_connected t \<and> map_of (rt_conns t) (rt_client_fd t) \<noteq> None then Inr (rt_client_fd t)
      else if length (rt_conns t) = 1 then Inr (fst (hd (rt_conns t)))
      else Inl IoError)"

definition rpc_resumeWrite :: "'w rpc_env \<Rightarrow> u8 list \<Rightarrow> string \<Rightarrow> 'w rpc_tcp \<Rightarrow>
    nat \<times> iostatus \<times> u8 list \<times> 'w rpc_tcp" where
  \<comment> \<open>the result, the status, the buffer afterwards, the transport\<close>
  "rpc_resumeWrite E data peer t =
     (case rpc_resolve peer t of
        Inl status \<Rightarrow> (minus_one, status, data, t)
      | Inr key \<Rightarrow>
          let fd = cn_fd (the (map_of (rt_conns t) key)); (r, t1) = sys (re_send E fd data) t in
          case r of
            Inl n \<Rightarrow> if 0 < n then (n, IoOk, data, t1)
                     else (0, IoEof, data, releaseConnection E fd t1)
          | Inr errno \<Rightarrow>
              if would_block errno then (0, IoWouldBlock, data, on_conn key watchWrite t1)
              else (minus_one, IoFatal, data, releaseConnection E fd t1))"

definition rpc_suspendRead :: "'w rpc_env \<Rightarrow> 'w rpc_tcp \<Rightarrow> 'w rpc_tcp" where
  "rpc_suspendRead E t = fold (\<lambda>fd. on_conn fd unwatchRead) (conn_fds E t) t"

definition rpc_suspendWrite :: "string \<Rightarrow> 'w rpc_tcp \<Rightarrow> 'w rpc_tcp" where
  "rpc_suspendWrite peer t =
     (case map_of (rt_fd_by_peer t) peer of
        None \<Rightarrow> t
      | Some fd \<Rightarrow> on_conn fd unwatchWrite t)"

end
