(* ===== verification/RpcTransportProps.thy ===== *)
theory RpcTransportProps
  imports RpcTransport "HOL-Library.Multiset"
begin

section \<open>What the rpc transport keeps\<close>

text \<open>
  The invariant of the transport: what is registered with the watcher is exactly the armed connections,
  the listening socket and the socket being connected; the open descriptors are the ones the transport
  holds; a descriptor is closed only once it is no longer registered; the table of peers points at
  connections of those peers. Then the outcomes of binding and connecting.
\<close>

declare map_of_eq_Some_iff [simp del]

subsection \<open>The system\<close>

definition keeps_open :: "('w \<Rightarrow> int set) \<Rightarrow> ('w \<Rightarrow> 'r \<times> 'w) \<Rightarrow> bool" where
  "keeps_open op call \<longleftrightarrow> (\<forall>w. op (snd (call w)) = op w)"

definition system_ok :: "'w rpc_env \<Rightarrow> ('w \<Rightarrow> int set) \<Rightarrow> bool" where
  \<comment> \<open>descriptors made are not open yet; \<open>recv\<close> gives what it is asked for at most; a hash table visits
    each of its keys once\<close>
  "system_ok E op \<longleftrightarrow>
     (\<forall>w fd w1. re_make E w = (fd, w1) \<longrightarrow>
        (if fd < 0 then op w1 = op w else fd \<notin> op w \<and> op w1 = insert fd (op w)))
   \<and> (\<forall>l w fd ip port w1. re_accept E l w = (Some (fd, ip, port), w1) \<longrightarrow>
        0 \<le> fd \<and> fd \<notin> op w \<and> op w1 = insert fd (op w))
   \<and> (\<forall>l w w1. re_accept E l w = (None, w1) \<longrightarrow> op w1 = op w)
   \<and> (\<forall>fd w. op (re_close E fd w) = op w - {fd})
   \<and> (\<forall>fd. keeps_open op (re_nonblock E fd)) \<and> (\<forall>fd p h. keeps_open op (re_bind E fd p h))
   \<and> (\<forall>fd. keeps_open op (re_listen E fd)) \<and> (\<forall>fd. keeps_open op (re_name E fd))
   \<and> (\<forall>fd p h. keeps_open op (re_connect E fd p h)) \<and> (\<forall>fd. keeps_open op (re_so_error E fd))
   \<and> (\<forall>fd n. keeps_open op (re_recv E fd n)) \<and> (\<forall>fd bs. keeps_open op (re_send E fd bs))
   \<and> (\<forall>fd n w bs w1. re_recv E fd n w = (Inl bs, w1) \<longrightarrow> length bs \<le> n)
   \<and> (\<forall>ks. mset (re_order E ks) = mset ks)"

lemma system_okD:
  assumes "system_ok E op"
  shows "re_make E w = (fd, w1) \<Longrightarrow> fd < 0 \<Longrightarrow> op w1 = op w"
    and "re_make E w = (fd, w1) \<Longrightarrow> 0 \<le> fd \<Longrightarrow> fd \<notin> op w \<and> op w1 = insert fd (op w)"
    and "re_accept E l w = (Some (fd, ip, port), w1) \<Longrightarrow> 0 \<le> fd \<and> fd \<notin> op w \<and> op w1 = insert fd (op w)"
    and "re_accept E l w = (None, w1) \<Longrightarrow> op w1 = op w"
    and "op (re_close E fd w) = op w - {fd}"
    and "keeps_open op (re_nonblock E fd)" "keeps_open op (re_bind E fd p h)"
      "keeps_open op (re_listen E fd)" "keeps_open op (re_name E fd)" "keeps_open op (re_connect E fd p h)"
      "keeps_open op (re_so_error E fd)" "keeps_open op (re_recv E fd n)" "keeps_open op (re_send E fd bs)"
    and "re_recv E fd n w = (Inl bs, w1) \<Longrightarrow> length bs \<le> n"
    and "mset (re_order E ks) = mset ks"
proof -
  show "re_make E w = (fd, w1) \<Longrightarrow> fd < 0 \<Longrightarrow> op w1 = op w"
    and "re_make E w = (fd, w1) \<Longrightarrow> 0 \<le> fd \<Longrightarrow> fd \<notin> op w \<and> op w1 = insert fd (op w)"
    using assms unfolding system_ok_def by (metis linorder_not_less)+
  show "re_recv E fd n w = (Inl bs, w1) \<Longrightarrow> length bs \<le> n"
    using assms unfolding system_ok_def by blast
  show "mset (re_order E ks) = mset ks"
    using assms unfolding system_ok_def by blast
qed (use assms in \<open>(auto simp: system_ok_def; fail)+\<close>)

lemma conn_fds_ok:
  "system_ok E op \<Longrightarrow> set (conn_fds E t) = set (map fst (rt_conns t))"
  "system_ok E op \<Longrightarrow> distinct (conn_fds E t) = distinct (map fst (rt_conns t))"
  unfolding conn_fds_def using system_okD(15) by (metis mset_eq_setD, metis mset_eq_imp_distinct_iff)

subsection \<open>Registrations\<close>

fun reg_step :: "rpc_effect \<Rightarrow> (int \<times> wflag) set \<Rightarrow> (int \<times> wflag) set" where
  "reg_step (RWatch fd f) S = insert (fd, f) S"
| "reg_step (RUnwatch fd f) S = S - {(fd, f)}"
| "reg_step e S = S"

definition registered :: "rpc_effect list \<Rightarrow> (int \<times> wflag) set" where
  "registered es = fold reg_step es {}"

lemma registered_snoc [simp]: "registered [] = {}" "registered (es @ [e]) = reg_step e (registered es)"
  by (simp_all add: registered_def)

definition close_ok :: "rpc_effect list \<Rightarrow> rpc_effect \<Rightarrow> bool" where
  \<comment> \<open>a descriptor is closed when none of its events is registered\<close>
  "close_ok es e \<longleftrightarrow> (case e of RClose fd \<Rightarrow> (fd, RDONLY) \<notin> registered es \<and> (fd, WRONLY) \<notin> registered es | _ \<Rightarrow> True)"

definition log_ok :: "rpc_effect list \<Rightarrow> bool" where
  "log_ok es \<longleftrightarrow> (\<forall>i < length es. close_ok (take i es) (es ! i))"

lemma log_ok_snoc [simp]: "log_ok []" "log_ok (es @ [e]) \<longleftrightarrow> log_ok es \<and> close_ok es e"
  by (auto simp: log_ok_def nth_append less_Suc_eq)

fun armed :: "wflag \<Rightarrow> conn \<Rightarrow> bool" where
  "armed RDONLY c = cn_read_armed c"
| "armed WRONLY c = cn_write_armed c"

fun set_armed :: "wflag \<Rightarrow> bool \<Rightarrow> conn \<Rightarrow> conn" where
  "set_armed RDONLY b c = c\<lparr>cn_read_armed := b\<rparr>"
| "set_armed WRONLY b c = c\<lparr>cn_write_armed := b\<rparr>"

lemma armed_set_armed [simp]: "armed f (set_armed g b c) = (if f = g then b else armed f c)"
  "cn_fd (set_armed g b c) = cn_fd c" "cn_peer (set_armed g b c) = cn_peer c"
  by (cases f; cases g; simp)+

definition arm :: "wflag \<Rightarrow> bool \<Rightarrow> conn \<Rightarrow> 'w rpc_tcp \<Rightarrow> conn \<times> 'w rpc_tcp" where
  "arm f b c t = (if armed f c = b then (c, t)
     else (set_armed f b c, emit (if b then RWatch (cn_fd c) f else RUnwatch (cn_fd c) f) t))"

lemma arm_eqs:
  "watchRead = arm RDONLY True" "unwatchRead = arm RDONLY False"
  "watchWrite = arm WRONLY True" "unwatchWrite = arm WRONLY False"
  by (auto simp: fun_eq_iff arm_def watchRead_def unwatchRead_def watchWrite_def unwatchWrite_def)

definition conn_regs :: "(int \<times> conn) list \<Rightarrow> (int \<times> wflag) set" where
  "conn_regs cs = {(fd, f). \<exists>c. map_of cs fd = Some c \<and> armed f c}"

subsection \<open>The invariant\<close>

text \<open>
  \<open>rt_core op base fds regs t\<close>: beside its connections the transport holds the descriptors \<open>fds\<close> and the
  registrations \<open>regs\<close>; \<open>base\<close> are the descriptors open elsewhere.
\<close>

definition table_ok :: "(string \<rightharpoonup> int) \<Rightarrow> (int \<rightharpoonup> conn) \<Rightarrow> bool" where
  "table_ok P M \<longleftrightarrow> (\<forall>fd c. M fd = Some c \<longrightarrow> 0 \<le> fd \<and> cn_fd c = fd)
   \<and> (\<forall>peer fd. P peer = Some fd \<longrightarrow> (\<exists>c. M fd = Some c \<and> cn_peer c = peer))"

definition conns_ok :: "'w rpc_tcp \<Rightarrow> bool" where
  "conns_ok t \<longleftrightarrow> distinct (map fst (rt_conns t))
   \<and> table_ok (map_of (rt_fd_by_peer t)) (map_of (rt_conns t))"

lemma table_ok_changes:
  assumes "table_ok P M"
  shows "table_ok P (\<lambda>k. if k = fd then map_option (set_armed f b) (M k) else M k)"
    and "M fd = None \<Longrightarrow> 0 \<le> fd \<Longrightarrow> cn_fd c = fd \<Longrightarrow> table_ok (P(cn_peer c \<mapsto> fd)) (M(fd \<mapsto> c))"
    and "M fd = Some c \<Longrightarrow> table_ok (P(cn_peer c := None)) (M(fd := None))"
proof -
  note a = assms [unfolded table_ok_def]
  show "table_ok P (\<lambda>k. if k = fd then map_option (set_armed f b) (M k) else M k)"
    unfolding table_ok_def
  proof (intro conjI allI impI)
    show "\<exists>c. (if k = fd then map_option (set_armed f b) (M k) else M k) = Some c \<and> cn_peer c = peer"
      if "P peer = Some k" for peer k
      using a that by (cases "k = fd") fastforce+
  qed (use a in \<open>auto split: if_splits\<close>)
  show "table_ok (P(cn_peer c \<mapsto> fd)) (M(fd \<mapsto> c))" if "M fd = None" "0 \<le> fd" "cn_fd c = fd"
    unfolding table_ok_def
  proof (intro conjI allI impI)
    show "\<exists>c1. (M(fd \<mapsto> c)) k = Some c1 \<and> cn_peer c1 = peer" if "(P(cn_peer c \<mapsto> fd)) peer = Some k" for peer k
      using a that \<open>M fd = None\<close> by (cases "peer = cn_peer c"; cases "k = fd") fastforce+
  qed (use a that in \<open>auto split: if_splits\<close>)
  show "table_ok (P(cn_peer c := None)) (M(fd := None))" if "M fd = Some c"
    unfolding table_ok_def
  proof (intro conjI allI impI)
    show "\<exists>c1. (M(fd := None)) k = Some c1 \<and> cn_peer c1 = peer" if "(P(cn_peer c := None)) peer = Some k" for peer k
      using a that \<open>M fd = Some c\<close> by (cases "peer = cn_peer c"; cases "k = fd") fastforce+
  qed (use a in \<open>auto split: if_splits\<close>)
qed

definition rt_core :: "('w \<Rightarrow> int set) \<Rightarrow> int set \<Rightarrow> int set \<Rightarrow> (int \<times> wflag) set \<Rightarrow> 'w rpc_tcp \<Rightarrow> bool" where
  "rt_core op base fds regs t \<longleftrightarrow> conns_ok t
   \<and> registered (rt_log t) = conn_regs (rt_conns t) \<union> regs
   \<and> fst ` regs \<subseteq> fds
   \<and> op (rt_world t) = base \<union> dom (map_of (rt_conns t)) \<union> fds
   \<and> base \<inter> (dom (map_of (rt_conns t)) \<union> fds) = {}
   \<and> dom (map_of (rt_conns t)) \<inter> fds = {}
   \<and> log_ok (rt_log t)"

lemmas rt_core_defs = rt_core_def conns_ok_def emit_def close_ok_def

lemma rt_core_fields [simp]:
  "rt_core op base fds regs (t\<lparr>rt_hot_read := p\<rparr>) = rt_core op base fds regs t"
  "rt_core op base fds regs (t\<lparr>rt_hot_write := p\<rparr>) = rt_core op base fds regs t"
  "rt_core op base fds regs (t\<lparr>rt_listen_fd := fd\<rparr>) = rt_core op base fds regs t"
  "rt_core op base fds regs (t\<lparr>rt_client_fd := fd\<rparr>) = rt_core op base fds regs t"
  "rt_core op base fds regs (t\<lparr>rt_connected := b\<rparr>) = rt_core op base fds regs t"
  "rt_core op base fds regs (emit (RReplay ev) t) = rt_core op base fds regs t"
  "rt_core op base fds regs (t\<lparr>rt_listen_fd := fd, rt_world := w\<rparr>) = rt_core op base fds regs (t\<lparr>rt_world := w\<rparr>)"
  "rt_core op base fds regs (t\<lparr>rt_client_fd := fd, rt_world := w\<rparr>) = rt_core op base fds regs (t\<lparr>rt_world := w\<rparr>)"
  "rt_core op base fds regs (emit e (t\<lparr>rt_listen_fd := fd, rt_world := w\<rparr>)) = rt_core op base fds regs (emit e (t\<lparr>rt_world := w\<rparr>))"
  "rt_core op base fds regs (emit e (t\<lparr>rt_client_fd := fd, rt_world := w\<rparr>)) = rt_core op base fds regs (emit e (t\<lparr>rt_world := w\<rparr>))"
  "rt_core op base fds regs (sys_close E fd' (t\<lparr>rt_listen_fd := fd, rt_world := w\<rparr>)) = rt_core op base fds regs (sys_close E fd' (t\<lparr>rt_world := w\<rparr>))"
  "rt_core op base fds regs (sys_close E fd' (t\<lparr>rt_client_fd := fd, rt_world := w\<rparr>)) = rt_core op base fds regs (sys_close E fd' (t\<lparr>rt_world := w\<rparr>))"
  by (simp_all add: rt_core_defs sys_close_def)

lemma rt_core_sys:
  assumes "keeps_open op f" "rt_core op base fds regs t"
  shows "rt_core op base fds regs (snd (sys f t))"
proof -
  obtain r w where w: "f (rt_world t) = (r, w)" by fastforce
  then have "op w = op (rt_world t)" using assms(1) by (metis keeps_open_def snd_conv)
  with assms(2) w show ?thesis by (simp add: rt_core_defs sys_def)
qed

lemma update_same: "map_of xs k = Some v \<Longrightarrow> AList.update k v xs = xs"
  by (induction xs) (auto split: if_splits)

lemma conn_regs_update:
  "conn_regs (AList.update fd c cs) = (conn_regs cs - {fd} \<times> UNIV) \<union> {(fd, f) |f. armed f c}"
  by (auto simp: conn_regs_def update_conv' split: if_splits)

lemma conn_regs_delete: "conn_regs (AList.delete fd cs) = conn_regs cs - {fd} \<times> UNIV"
  by (auto simp: conn_regs_def delete_conv' split: if_splits)

lemma conn_regs_dom: "fst ` conn_regs cs \<subseteq> dom (map_of cs)"
  by (auto simp: conn_regs_def)

text \<open>Descriptors that are not connections come, go, and are watched.\<close>

lemma rt_core_open:
  assumes "rt_core op base fds regs t" "fd \<notin> op (rt_world t)" "op w = insert fd (op (rt_world t))"
  shows "rt_core op base (insert fd fds) regs (t\<lparr>rt_world := w\<rparr>)"
  using assms by (auto simp: rt_core_defs)

lemma rt_core_close:
  assumes "system_ok E op" "rt_core op base (insert fd fds) regs t" "fd \<notin> fds" "fst ` regs \<subseteq> fds"
  shows "rt_core op base fds regs (sys_close E fd t)"
proof -
  have "fd \<notin> dom (map_of (rt_conns t))" using assms(2) unfolding rt_core_def by blast
  then have "(fd, f) \<notin> conn_regs (rt_conns t) \<union> regs" for f
    using assms(3,4) conn_regs_dom by fastforce
  with assms show ?thesis
    by (auto simp: rt_core_defs sys_close_def system_okD(5) [OF assms(1)])
qed

lemma rt_core_watch:
  assumes "rt_core op base fds regs t" "fd \<in> fds"
  shows "rt_core op base fds (insert (fd, f) regs) (emit (RWatch fd f) t)"
  using assms by (auto simp: rt_core_defs)

lemma rt_core_unwatch:
  assumes "rt_core op base fds regs t" "fd \<notin> dom (map_of (rt_conns t))"
  shows "rt_core op base fds (regs - {(fd, f)}) (emit (RUnwatch fd f) t)"
proof -
  have "(fd, f) \<notin> conn_regs (rt_conns t)" using assms(2) conn_regs_dom by fastforce
  with assms(1) show ?thesis by (auto simp: rt_core_defs)
qed

text \<open>A connection is armed and disarmed.\<close>

lemma on_conn_arm:
  shows on_conn_arm_map: "map_of (rt_conns (on_conn fd (arm f b) t)) k =
      (if k = fd then map_option (set_armed f b) (map_of (rt_conns t) k) else map_of (rt_conns t) k)"
    and on_conn_arm_frame: "rt_fd_by_peer (on_conn fd (arm f b) t) = rt_fd_by_peer t"
      "rt_world (on_conn fd (arm f b) t) = rt_world t"
      "map fst (rt_conns (on_conn fd (arm f b) t)) = map fst (rt_conns t)"
      "rt_hot_read (on_conn fd (arm f b) t) = rt_hot_read t"
      "rt_listen_fd (on_conn fd (arm f b) t) = rt_listen_fd t"
      "rt_client_fd (on_conn fd (arm f b) t) = rt_client_fd t"
      "rt_connected (on_conn fd (arm f b) t) = rt_connected t"
proof -
  have same: "armed f c = b \<Longrightarrow> set_armed f b c = c" for c by (cases f) auto
  have keys: "fd \<in> set (map fst xs) \<Longrightarrow> map fst (AList.update fd c xs) = map fst xs"
    for c and xs :: "(int \<times> conn) list"
    by (simp add: update_keys)
  show "map_of (rt_conns (on_conn fd (arm f b) t)) k =
      (if k = fd then map_option (set_armed f b) (map_of (rt_conns t) k) else map_of (rt_conns t) k)"
    by (cases "map_of (rt_conns t) fd"; cases "armed f (the (map_of (rt_conns t) fd)) = b")
      (auto simp: on_conn_def arm_def emit_def update_conv' same)
  have "map_of (rt_conns t) fd = Some c \<Longrightarrow> fd \<in> set (map fst (rt_conns t))" for c
    by (metis domI dom_map_of_conv_image_fst set_map)
  with keys show "map fst (rt_conns (on_conn fd (arm f b) t)) = map fst (rt_conns t)"
    by (auto simp: on_conn_def arm_def emit_def split: option.split)
qed (simp_all add: on_conn_def arm_def emit_def split: option.split)

lemma on_conn_arm_table: "map_of (rt_conns (on_conn fd (arm f b) t)) =
    (\<lambda>k. if k = fd then map_option (set_armed f b) (map_of (rt_conns t) k) else map_of (rt_conns t) k)"
  by (rule ext) (rule on_conn_arm_map)

lemma rt_core_conn:
  assumes "rt_core op base fds regs t" "map_of (rt_conns t) fd = Some c"
  shows "cn_fd c = fd" "0 \<le> fd" "fd \<notin> fds" "(fd, g) \<notin> regs"
proof -
  show "cn_fd c = fd" "0 \<le> fd" using assms by (simp_all add: rt_core_def conns_ok_def table_ok_def)
  have "fd \<in> dom (map_of (rt_conns t))" using assms(2) by blast
  then show fd: "fd \<notin> fds" using assms(1) unfolding rt_core_def by blast
  have "fst ` regs \<subseteq> fds" using assms(1) by (simp add: rt_core_def)
  with fd show "(fd, g) \<notin> regs" by (metis fst_conv image_eqI subsetD)
qed

lemma rt_core_arm:
  assumes "rt_core op base fds regs t"
  shows "rt_core op base fds regs (on_conn fd (arm f b) t)"
proof (cases "map_of (rt_conns t) fd")
  case None
  with assms show ?thesis by (simp add: on_conn_def)
next
  case (Some c)
  note fd = rt_core_conn(1,4) [OF assms Some]
  show ?thesis
  proof (cases "armed f c = b")
    case True
    with Some assms show ?thesis by (simp add: on_conn_def arm_def update_same)
  next
    case False
    let ?t = "on_conn fd (arm f b) t"
    have old: "(fd, g) \<in> conn_regs (rt_conns t) \<longleftrightarrow> armed g c" for g using Some by (simp add: conn_regs_def)
    have conns: "rt_conns ?t = AList.update fd (set_armed f b c) (rt_conns t)"
      and log: "rt_log ?t = rt_log t @ [if b then RWatch fd f else RUnwatch fd f]"
      using Some False fd(1) by (simp_all add: on_conn_def arm_def emit_def)
    have "conns_ok ?t"
      using assms table_ok_changes(1) unfolding rt_core_def conns_ok_def on_conn_arm_frame
      by (simp add: on_conn_arm_table)
    moreover have "registered (rt_log ?t) = conn_regs (rt_conns ?t) \<union> regs"
      using assms fd(2) old unfolding rt_core_def log conns conn_regs_update by (auto split: if_splits)
    moreover have "log_ok (rt_log ?t)"
      using assms unfolding rt_core_def log by (simp add: close_ok_def)
    moreover have "dom (map_of (rt_conns ?t)) = dom (map_of (rt_conns t))"
      by (auto simp: on_conn_arm_map split: if_splits)
    ultimately show ?thesis using assms unfolding rt_core_def on_conn_arm_frame by simp
  qed
qed

text \<open>A descriptor becomes a connection; a connection that is not armed leaves the table.\<close>

lemma rt_core_new_conn:
  assumes "rt_core op base (insert fd fds) regs t" "fd \<notin> fds" "fst ` regs \<subseteq> fds" "0 \<le> fd"
  shows "rt_core op base fds regs (new_conn fd peer t)"
proof -
  have new: "map_of (rt_conns t) fd = None" using assms(1) unfolding rt_core_def by blast
  then have "conn_regs (rt_conns t) \<inter> {fd} \<times> UNIV = {}" by (auto simp: conn_regs_def)
  moreover have "{f. armed f \<lparr>cn_fd = fd, cn_peer = peer, cn_read_armed = False, cn_write_armed = False\<rparr>} = {}"
    by (auto elim: armed.elims)
  ultimately have "conn_regs (rt_conns (new_conn fd peer t)) = conn_regs (rt_conns t)"
    unfolding new_conn_def by (auto simp: conn_regs_update)
  moreover have "conns_ok (new_conn fd peer t)"
    using assms(1,4) new table_ok_changes(2) [of _ _ fd "\<lparr>cn_fd = fd, cn_peer = peer, cn_read_armed = False, cn_write_armed = False\<rparr>"]
    unfolding rt_core_def conns_ok_def new_conn_def by (simp add: update_conv' distinct_update)
  moreover have "dom (map_of (rt_conns (new_conn fd peer t))) = insert fd (dom (map_of (rt_conns t)))"
    by (auto simp: new_conn_def update_conv')
  moreover have "rt_log (new_conn fd peer t) = rt_log t" "rt_world (new_conn fd peer t) = rt_world t"
    by (simp_all add: new_conn_def)
  ultimately show ?thesis using assms unfolding rt_core_def by auto
qed

lemma rt_core_release:
  assumes E: "system_ok E op" and inv: "rt_core op base fds regs t"
  shows "rt_core op base fds regs (releaseConnection E fd t)"
proof (cases "map_of (rt_conns t) fd")
  case None
  with inv show ?thesis by (simp add: releaseConnection_def)
next
  case (Some c)
  let ?t = "on_conn fd (arm WRONLY False) (on_conn fd (arm RDONLY False) t)"
  have t: "rt_core op base fds regs ?t" by (intro rt_core_arm inv)
  have c: "map_of (rt_conns ?t) fd = Some (set_armed WRONLY False (set_armed RDONLY False c))"
    using Some by (simp add: on_conn_arm_map del: set_armed.simps)
  have unarmed: "\<not> armed f (set_armed WRONLY False (set_armed RDONLY False c))" for f
    by (cases f) simp_all
  have off: "(fd, f) \<notin> conn_regs (rt_conns ?t)" for f
    using c unarmed [of f] by (auto simp: conn_regs_def)
  define t2 where "t2 = (sys_close E fd ?t)\<lparr>rt_conns := AList.delete fd (rt_conns ?t),
      rt_fd_by_peer := AList.delete (cn_peer c) (rt_fd_by_peer ?t)\<rparr>"
  have fd: "fd \<in> dom (map_of (rt_conns ?t))" using c by blast
  have "conns_ok t2"
    using t c table_ok_changes(3) [of "map_of (rt_fd_by_peer ?t)" "map_of (rt_conns ?t)" fd]
    unfolding rt_core_def conns_ok_def t2_def by (simp add: delete_conv' distinct_delete)
  moreover have "(fd, f) \<notin> regs" for f by (rule rt_core_conn(4) [OF t c])
  ultimately have "rt_core op base fds regs t2"
    using t off fd unfolding rt_core_def t2_def
    by (auto simp: sys_close_def emit_def conn_regs_delete delete_conv' system_okD(5) [OF E] close_ok_def
        split: if_splits)
  moreover have "releaseConnection E fd t = (let t3 = (if rt_hot_read t2 = cn_peer c then t2\<lparr>rt_hot_read := []\<rparr> else t2)
      in if rt_hot_write t3 = cn_peer c then t3\<lparr>rt_hot_write := []\<rparr> else t3)"
    using Some by (simp add: releaseConnection_def arm_eqs t2_def sys_close_def emit_def Let_def)
  ultimately show ?thesis by (simp add: Let_def)
qed

subsection \<open>Operations on connections\<close>

definition rt_own :: "'w rpc_tcp \<Rightarrow> int \<times> int \<times> bool" where
  "rt_own t = (rt_listen_fd t, rt_client_fd t, rt_connected t)"

lemma rt_own_simps [simp]:
  "rt_own (t\<lparr>rt_hot_read := p\<rparr>) = rt_own t" "rt_own (t\<lparr>rt_hot_write := p\<rparr>) = rt_own t"
  "rt_own (t\<lparr>rt_world := w\<rparr>) = rt_own t" "rt_own (t\<lparr>rt_conns := cs, rt_fd_by_peer := ps\<rparr>) = rt_own t"
  "rt_own (emit e t) = rt_own t" "rt_own (sys_close E fd t) = rt_own t" "rt_own (new_conn fd peer t) = rt_own t"
  "rt_own (snd (sys f t)) = rt_own t" "rt_own (on_conn fd (arm g b) t) = rt_own t"
  by (simp_all add: rt_own_def emit_def sys_close_def new_conn_def sys_def on_conn_arm_frame split: prod.splits)

lemma rt_own_release [simp]: "rt_own (releaseConnection E fd t) = rt_own t"
  by (simp add: releaseConnection_def arm_eqs Let_def split: option.split)

text \<open>\<open>keeps\<close>: an operation leaves the transport well-formed, whatever else it holds.\<close>

definition keeps :: "('w \<Rightarrow> int set) \<Rightarrow> 'w rpc_tcp \<Rightarrow> 'w rpc_tcp \<Rightarrow> bool" where
  "keeps op t t1 \<longleftrightarrow> rt_own t1 = rt_own t
     \<and> (\<forall>base fds regs. rt_core op base fds regs t \<longrightarrow> rt_core op base fds regs t1)"

lemma keepsI: "rt_own t1 = rt_own t \<Longrightarrow> (\<And>base fds regs. rt_core op base fds regs t \<Longrightarrow> rt_core op base fds regs t1) \<Longrightarrow> keeps op t t1"
  by (simp add: keeps_def)

lemma keeps_refl [wf_intros]: "keeps op t t" by (simp add: keeps_def)

lemma keeps_trans: "keeps op t t1 \<Longrightarrow> keeps op t1 t2 \<Longrightarrow> keeps op t t2" by (simp add: keeps_def)

lemma keeps_fields [simp]:
  "keeps op t (t1\<lparr>rt_hot_read := p\<rparr>) = keeps op t t1" "keeps op t (t1\<lparr>rt_hot_write := p\<rparr>) = keeps op t t1"
  "keeps op (t\<lparr>rt_hot_read := p\<rparr>) t1 = keeps op t t1"
  "keeps op t (emit (RReplay ev) t1) = keeps op t t1"
  by (simp_all add: keeps_def)

lemma keeps_arm: "keeps op t t1 \<Longrightarrow> keeps op t (on_conn fd (arm f b) t1)"
  by (simp add: keeps_def rt_core_arm)

lemma keeps_release: "system_ok E op \<Longrightarrow> keeps op t t1 \<Longrightarrow> keeps op t (releaseConnection E fd t1)"
  by (simp add: keeps_def rt_core_release)

lemma keeps_sys: "keeps_open op f \<Longrightarrow> keeps op t t1 \<Longrightarrow> keeps op t (snd (sys f t1))"
  by (simp add: keeps_def rt_core_sys)

lemma keeps_fold_arm: "keeps op t t1 \<Longrightarrow> keeps op t (fold (\<lambda>fd. on_conn fd (arm f b)) fds t1)"
  by (induction fds arbitrary: t1) (simp_all add: keeps_arm)

lemma suspendRead_keeps: "keeps op t (rpc_suspendRead E t)"
  by (simp add: rpc_suspendRead_def arm_eqs keeps_fold_arm keeps_refl)

lemma suspendWrite_keeps: "keeps op t (rpc_suspendWrite peer t)"
  by (simp add: rpc_suspendWrite_def arm_eqs keeps_arm keeps_refl split: option.split)

lemma onReadReady_keeps: "keeps op t (onReadReady fd t)"
  by (simp add: onReadReady_def keeps_refl split: option.split)

lemma onWriteReady_keeps: "keeps op t (onWriteReady fd t)"
  by (simp add: onWriteReady_def keeps_refl split: option.split)

lemma resumeWrite_keeps:
  assumes "system_ok E op" "rpc_resumeWrite E data peer t = (n, status, data1, t1)"
  shows "keeps op t t1"
proof (cases "rpc_resolve peer t")
  case (Inl a)
  with assms show ?thesis by (simp add: rpc_resumeWrite_def keeps_refl)
next
  case (Inr key)
  let ?fd = "cn_fd (the (map_of (rt_conns t) key))"
  obtain r t2 where r: "sys (re_send E ?fd data) t = (r, t2)" by fastforce
  then have "keeps op t t2"
    using keeps_sys [OF system_okD(13) [OF assms(1)] keeps_refl, of t ?fd data] by simp
  with assms Inr r show ?thesis
    by (auto simp: rpc_resumeWrite_def arm_eqs Let_def keeps_arm keeps_release split: sum.splits if_splits)
qed

lemma read_hot_keeps:
  assumes E: "system_ok E op" and len: "offset + capacity \<le> length (ro_data out)"
  shows "\<exists>out1 t1. read_hot E out offset capacity fd c t = Some (out1, t1) \<and> keeps op t t1"
proof -
  obtain r t1 where r: "sys (re_recv E fd capacity) t = (r, t1)" by fastforce
  then have t1: "keeps op t t1"
    using keeps_sys [OF system_okD(12) [OF E] keeps_refl, of t fd capacity] by simp
  have "length bs \<le> capacity" if "r = Inl bs" for bs
    using r that system_okD(14) [OF E] by (auto simp: sys_def split: prod.splits)
  then have "blit (ro_data out) offset bs \<noteq> None" if "r = Inl bs" for bs
    using that len by (simp add: blit_def)
  with r t1 show ?thesis
    by (auto simp: read_hot_def arm_eqs Let_def keeps_arm keeps_release [OF E] split: sum.splits)
qed

lemma read_scan_keeps:
  assumes E: "system_ok E op" and len: "offset + capacity \<le> length (ro_data out)"
  shows "\<exists>out1 t1. read_scan E out offset capacity fds t = Some (out1, t1) \<and> keeps op t t1"
proof (induction fds arbitrary: t)
  case Nil
  then show ?case by (simp add: keeps_refl)
next
  case (Cons fd fds)
  obtain r t1 where r: "sys (re_recv E fd capacity) (on_conn fd (arm RDONLY True) t) = (r, t1)" by fastforce
  have "keeps op t (snd (sys (re_recv E fd capacity) (on_conn fd (arm RDONLY True) t)))"
    by (intro keeps_sys keeps_arm keeps_refl system_okD(12) [OF E])
  then have t1: "keeps op t t1" by (simp add: r)
  have "length bs \<le> capacity" if "r = Inl bs" for bs
    using r that system_okD(14) [OF E] by (auto simp: sys_def split: prod.splits)
  then have "blit (ro_data out) offset bs \<noteq> None" if "r = Inl bs" for bs
    using that len by (simp add: blit_def)
  with r t1 Cons.IH [of t] Cons.IH [of t1] show ?case
    by (auto simp: arm_eqs Let_def keeps_release [OF E] split: sum.splits option.splits
        intro: keeps_trans)
qed

lemma resumeRead_keeps:
  assumes E: "system_ok E op" and al: "re_alloc E = (\<lambda>_. True)" and len: "offset + max 1024 max_len \<le> vec_max"
  shows "\<exists>out t1. rpc_resumeRead E data peer offset max_len t = Some (out, t1) \<and> keeps op t t1"
proof -
  define cap where "cap = (if 0 < max_len then max_len else 1024)"
  have w: "size_add offset cap = offset + cap" "offset + cap \<le> vec_max"
    using len by (auto simp: vec_max_def cap_def)
  define d where "d = (if length data < offset + cap then vec_resize data (offset + cap) 0 else data)"
  define out where "out = \<lparr>ro_n = 0, ro_data = d, ro_peer = peer, ro_status = IoOk\<rparr>"
  have out: "offset + cap \<le> length (ro_data out)" by (simp add: out_def d_def)
  have d: "(if length data < offset + cap
          then if vec_can_grow (re_alloc E) (offset + cap) then Some (vec_resize data (offset + cap) 0) else None
          else Some data) = Some d"
    using w al by (simp add: d_def vec_can_grow_def)
  have "rpc_resumeRead E data peer offset max_len t = (case (if rt_hot_read t \<noteq> []
              then do { fd \<leftarrow> map_of (rt_fd_by_peer t) (rt_hot_read t);
                        c \<leftarrow> map_of (rt_conns t) fd; Some (fd, c) }
              else None) of
          Some (fd, c) \<Rightarrow> read_hot E out offset cap fd c t
        | None \<Rightarrow> let t1 = t\<lparr>rt_hot_read := []\<rparr> in
            read_scan E out offset cap (conn_fds E t1) t1)"
    unfolding rpc_resumeRead_def cap_def [symmetric] Let_def w(1) d out_def by simp
  also have "\<exists>out1 t1. \<dots> = Some (out1, t1) \<and> keeps op t t1"
    using read_hot_keeps [OF E out] read_scan_keeps [OF E out, of _ "t\<lparr>rt_hot_read := []\<rparr>"]
    by (auto simp: Let_def split: option.split)
  finally show ?thesis .
qed

subsection \<open>Binding and connecting\<close>

lemma sys_eq: "sys f t = (fst (f (rt_world t)), t\<lparr>rt_world := snd (f (rt_world t))\<rparr>)"
  by (simp add: sys_def split: prod.splits)

lemma system_ok_same:
  assumes "system_ok E op"
  shows "op (snd (re_nonblock E fd w)) = op w" "op (snd (re_bind E fd p h w)) = op w"
    "op (snd (re_listen E fd w)) = op w" "op (snd (re_name E fd w)) = op w"
    "op (snd (re_connect E fd p h w)) = op w" "op (snd (re_so_error E fd w)) = op w"
  using assms by (simp_all add: system_ok_def keeps_open_def)

lemma rpc_bind_result:
  assumes E: "system_ok E op"
  obtains (no_socket) fd w where "fd < 0" "op w = op (rt_world t)"
      "rpc_bind E t = emit (RReplay (BindRep IoFatal [])) (t\<lparr>rt_world := w, rt_listen_fd := fd\<rparr>)"
  | (failed) fd w where "0 \<le> fd" "fd \<notin> op (rt_world t)" "op w = insert fd (op (rt_world t))"
      "rpc_bind E t = emit (RReplay (BindRep IoFatal []))
        ((sys_close E fd (t\<lparr>rt_listen_fd := fd, rt_world := w\<rparr>))\<lparr>rt_listen_fd := -1\<rparr>)"
  | (bound) fd w name where "0 \<le> fd" "fd \<notin> op (rt_world t)" "op w = insert fd (op (rt_world t))"
      "rpc_bind E t = emit (RReplay (BindRep IoOk name)) (emit (RWatch fd RDONLY) (t\<lparr>rt_listen_fd := fd, rt_world := w\<rparr>))"
proof -
  obtain fd w1 where mk: "re_make E (rt_world t) = (fd, w1)" by fastforce
  show thesis
  proof (cases "fd < 0")
    case True
    with mk system_okD(1) [OF E mk] show thesis
      by (intro no_socket [of fd w1]) (simp_all add: rpc_bind_def sys_eq)
  next
    case False
    then have fd: "0 \<le> fd" "fd \<notin> op (rt_world t)" "op w1 = insert fd (op (rt_world t))"
      using system_okD(2) [OF E mk] by simp_all
    have fail: thesis if "rpc_bind E t = bind_failed E (t\<lparr>rt_listen_fd := fd, rt_world := w\<rparr>)" "op w = op w1" for w
      using that fd by (intro failed [of fd w]) (simp_all add: bind_failed_def)
    define w2 w3 w4 w5 where w: "w2 = snd (re_nonblock E fd w1)" "w3 = snd (re_bind E fd (rt_port t) (rt_host t) w2)"
      "w4 = snd (re_listen E fd w3)" "w5 = snd (re_name E fd w4)"
    have op: "op w2 = op w1" "op w3 = op w1" "op w4 = op w1" "op w5 = op w1"
      by (simp_all add: w system_ok_same [OF E])
    note fails = fail [OF _ op(1)] fail [OF _ op(2)] fail [OF _ op(3)] fail [OF _ op(4)]
    note run = rpc_bind_def sys_eq Let_def w mk False
    consider "fst (re_nonblock E fd w1) < 0"
      | "\<not> fst (re_nonblock E fd w1) < 0" "fst (re_bind E fd (rt_port t) (rt_host t) w2) < 0"
      | "\<not> fst (re_nonblock E fd w1) < 0" "\<not> fst (re_bind E fd (rt_port t) (rt_host t) w2) < 0"
          "fst (re_listen E fd w3) < 0"
      | "\<not> fst (re_nonblock E fd w1) < 0" "\<not> fst (re_bind E fd (rt_port t) (rt_host t) w2) < 0"
          "\<not> fst (re_listen E fd w3) < 0" "fst (re_name E fd w4) = None"
      | name where "\<not> fst (re_nonblock E fd w1) < 0" "\<not> fst (re_bind E fd (rt_port t) (rt_host t) w2) < 0"
          "\<not> fst (re_listen E fd w3) < 0" "fst (re_name E fd w4) = Some name" by blast
    then show thesis
    proof cases
      case 1 then show thesis by (intro fails(1)) (simp add: run)
    next
      case 2 then show thesis by (intro fails(2)) (simp add: run)
    next
      case 3 then show thesis by (intro fails(3)) (simp add: run)
    next
      case 4 then show thesis by (intro fails(4)) (simp add: run)
    next
      case 5
      with fd op(4) show thesis by (intro bound [of fd w5 name]) (simp_all add: run watchAccept_def)
    qed
  qed
qed

lemma rpc_connect_result:
  assumes E: "system_ok E op"
  obtains (no_socket) fd w where "fd < 0" "op w = op (rt_world t)"
      "rpc_connect E t = t\<lparr>rt_world := w, rt_client_fd := fd\<rparr>"
  | (failed) fd w where "0 \<le> fd" "fd \<notin> op (rt_world t)" "op w = insert fd (op (rt_world t))"
      "rpc_connect E t = (sys_close E fd (t\<lparr>rt_client_fd := fd, rt_world := w\<rparr>))\<lparr>rt_client_fd := -1\<rparr>"
  | (started) fd w where "0 \<le> fd" "fd \<notin> op (rt_world t)" "op w = insert fd (op (rt_world t))"
      "rpc_connect E t = emit (RWatch fd WRONLY) (t\<lparr>rt_client_fd := fd, rt_world := w\<rparr>)"
proof -
  obtain fd w1 where mk: "re_make E (rt_world t) = (fd, w1)" by fastforce
  show thesis
  proof (cases "fd < 0")
    case True
    with mk system_okD(1) [OF E mk] show thesis
      by (intro no_socket [of fd w1]) (simp_all add: rpc_connect_def sys_eq)
  next
    case False
    then have fd: "0 \<le> fd" "fd \<notin> op (rt_world t)" "op w1 = insert fd (op (rt_world t))"
      using system_okD(2) [OF E mk] by simp_all
    have fail: thesis if "rpc_connect E t = (sys_close E fd (t\<lparr>rt_client_fd := fd, rt_world := w\<rparr>))\<lparr>rt_client_fd := -1\<rparr>"
        "op w = op w1" for w
      using that fd by (intro failed [of fd w]) simp_all
    define w2 w3 where w: "w2 = snd (re_nonblock E fd w1)" "w3 = snd (re_connect E fd (rt_port t) (rt_host t) w2)"
    have op: "op w2 = op w1" "op w3 = op w1"
      by (simp_all add: w system_ok_same [OF E])
    note fails = fail [OF _ op(1)] fail [OF _ op(2)]
    obtain rc errno where c: "fst (re_connect E fd (rt_port t) (rt_host t) w2) = (rc, errno)" by fastforce
    note run = rpc_connect_def sys_eq Let_def w mk False c [unfolded w]
    consider "fst (re_nonblock E fd w1) < 0"
      | "\<not> fst (re_nonblock E fd w1) < 0" "rc < 0" "errno \<noteq> EINPROGRESS"
      | "\<not> fst (re_nonblock E fd w1) < 0" "\<not> (rc < 0 \<and> errno \<noteq> EINPROGRESS)" by blast
    then show thesis
    proof cases
      case 1 then show thesis by (intro fails(1)) (simp add: run)
    next
      case 2 then show thesis by (intro fails(2)) (simp add: run)
    next
      case 3
      then have "rpc_connect E t = emit (RWatch fd WRONLY) (t\<lparr>rt_client_fd := fd, rt_world := w3\<rparr>)"
        by (auto simp: run watchConnect_def)
      with fd op(2) show thesis by (intro started [of fd w3]) simp_all
    qed
  qed
qed

subsection \<open>The invariant of the whole transport\<close>

definition connecting :: "'w rpc_tcp \<Rightarrow> bool" where
  "connecting t \<longleftrightarrow> 0 \<le> rt_client_fd t \<and> \<not> rt_connected t"

definition own_fds :: "'w rpc_tcp \<Rightarrow> int set" where
  "own_fds t = (if 0 \<le> rt_listen_fd t then {rt_listen_fd t} else {})
     \<union> (if connecting t then {rt_client_fd t} else {})"

definition own_regs :: "'w rpc_tcp \<Rightarrow> (int \<times> wflag) set" where
  "own_regs t = (if 0 \<le> rt_listen_fd t then {(rt_listen_fd t, RDONLY)} else {})
     \<union> (if connecting t then {(rt_client_fd t, WRONLY)} else {})"

definition rt_inv :: "('w \<Rightarrow> int set) \<Rightarrow> int set \<Rightarrow> 'w rpc_tcp \<Rightarrow> bool" where
  "rt_inv op base t \<longleftrightarrow> rt_core op base (own_fds t) (own_regs t) t
     \<and> (0 \<le> rt_listen_fd t \<and> connecting t \<longrightarrow> rt_listen_fd t \<noteq> rt_client_fd t)"

lemmas own_defs = own_fds_def own_regs_def connecting_def rt_own_def

lemma own_eq:
  assumes "rt_own t1 = rt_own t"
  shows "own_fds t1 = own_fds t" "own_regs t1 = own_regs t" "connecting t1 = connecting t"
  using assms by (simp_all add: own_defs)

lemma rt_inv_keeps: "keeps op t t1 \<Longrightarrow> rt_inv op base t \<Longrightarrow> rt_inv op base t1"
  using own_eq [of t1 t] by (simp add: keeps_def rt_inv_def) (simp add: rt_own_def)

lemma rt_invI:
  "rt_core op base fds regs t \<Longrightarrow> own_fds t = fds \<Longrightarrow> own_regs t = regs \<Longrightarrow>
     (0 \<le> rt_listen_fd t \<Longrightarrow> connecting t \<Longrightarrow> rt_listen_fd t \<noteq> rt_client_fd t) \<Longrightarrow> rt_inv op base t"
  by (simp add: rt_inv_def)

lemma own_regs_fds: "fst ` own_regs t \<subseteq> own_fds t"
  by (auto simp: own_defs split: if_splits)

lemma rt_inv_fresh: "rt_inv op base t \<Longrightarrow> fd \<notin> op (rt_world t) \<Longrightarrow> fd \<notin> own_fds t"
  unfolding rt_inv_def rt_core_def by blast

lemma rt_inv_bind:
  assumes E: "system_ok E op" and inv: "rt_inv op base t" and l: "rt_listen_fd t < 0"
  shows "rt_inv op base (rpc_bind E t)"
proof -
  have core: "rt_core op base (own_fds t) (own_regs t) t" using inv by (simp add: rt_inv_def)
  from E show ?thesis
  proof (cases rule: rpc_bind_result [where t = t])
    case (no_socket fd w)
    have "rt_core op base (own_fds t) (own_regs t) (t\<lparr>rt_world := w\<rparr>)"
      using core no_socket(2) by (simp add: rt_core_defs)
    then have "rt_core op base (own_fds t) (own_regs t) (rpc_bind E t)" by (simp add: no_socket(3))
    then show ?thesis
      by (rule rt_invI) (use l no_socket(1) in \<open>simp_all add: no_socket(3) own_defs emit_def\<close>)
  next
    case (failed fd w)
    have fd: "fd \<notin> own_fds t" by (rule rt_inv_fresh [OF inv failed(2)])
    have "rt_core op base (own_fds t) (own_regs t) (sys_close E fd (t\<lparr>rt_world := w\<rparr>))"
      by (rule rt_core_close [OF E rt_core_open [OF core failed(2,3)] fd own_regs_fds])
    then have "rt_core op base (own_fds t) (own_regs t) (rpc_bind E t)" by (simp add: failed(4))
    then show ?thesis
      by (rule rt_invI) (use l in \<open>simp_all add: failed(4) own_defs emit_def sys_close_def\<close>)
  next
    case (bound fd w name)
    have fd: "fd \<notin> own_fds t" by (rule rt_inv_fresh [OF inv bound(2)])
    have "rt_core op base (insert fd (own_fds t)) (insert (fd, RDONLY) (own_regs t)) (emit (RWatch fd RDONLY) (t\<lparr>rt_world := w\<rparr>))"
      by (rule rt_core_watch [OF rt_core_open [OF core bound(2,3)]]) simp
    then have "rt_core op base (insert fd (own_fds t)) (insert (fd, RDONLY) (own_regs t)) (rpc_bind E t)"
      by (simp add: bound(4))
    then show ?thesis
      by (rule rt_invI) (use l fd bound(1) in \<open>auto simp: bound(4) own_defs emit_def split: if_splits\<close>)
  qed
qed

lemma rt_inv_connect:
  assumes E: "system_ok E op" and inv: "rt_inv op base t" and c: "rt_client_fd t < 0" "\<not> rt_connected t"
  shows "rt_inv op base (rpc_connect E t)"
proof -
  have core: "rt_core op base (own_fds t) (own_regs t) t" using inv by (simp add: rt_inv_def)
  from E show ?thesis
  proof (cases rule: rpc_connect_result [where t = t])
    case (no_socket fd w)
    have "rt_core op base (own_fds t) (own_regs t) (t\<lparr>rt_world := w\<rparr>)"
      using core no_socket(2) by (simp add: rt_core_defs)
    then have "rt_core op base (own_fds t) (own_regs t) (rpc_connect E t)" by (simp add: no_socket(3))
    then show ?thesis
      by (rule rt_invI) (use c no_socket(1) in \<open>simp_all add: no_socket(3) own_defs\<close>)
  next
    case (failed fd w)
    have fd: "fd \<notin> own_fds t" by (rule rt_inv_fresh [OF inv failed(2)])
    have "rt_core op base (own_fds t) (own_regs t) (sys_close E fd (t\<lparr>rt_world := w\<rparr>))"
      by (rule rt_core_close [OF E rt_core_open [OF core failed(2,3)] fd own_regs_fds])
    then have "rt_core op base (own_fds t) (own_regs t) (rpc_connect E t)" by (simp add: failed(4))
    then show ?thesis
      by (rule rt_invI) (use c in \<open>simp_all add: failed(4) own_defs emit_def sys_close_def\<close>)
  next
    case (started fd w)
    have fd: "fd \<notin> own_fds t" by (rule rt_inv_fresh [OF inv started(2)])
    have "rt_core op base (insert fd (own_fds t)) (insert (fd, WRONLY) (own_regs t)) (emit (RWatch fd WRONLY) (t\<lparr>rt_world := w\<rparr>))"
      by (rule rt_core_watch [OF rt_core_open [OF core started(2,3)]]) simp
    then have "rt_core op base (insert fd (own_fds t)) (insert (fd, WRONLY) (own_regs t)) (rpc_connect E t)"
      by (simp add: started(4))
    then show ?thesis
      by (rule rt_invI) (use c fd started(1) in \<open>auto simp: started(4) own_defs emit_def split: if_splits\<close>)
  qed
qed

lemma rt_inv_adopt:
  assumes "rt_inv op base t" "fd \<notin> op (rt_world t)" "op w = insert fd (op (rt_world t))" "0 \<le> fd"
  shows "rt_inv op base (new_conn fd peer (t\<lparr>rt_world := w\<rparr>))"
proof -
  have core: "rt_core op base (own_fds t) (own_regs t) t" using assms(1) by (simp add: rt_inv_def)
  have "rt_core op base (own_fds t) (own_regs t) (new_conn fd peer (t\<lparr>rt_world := w\<rparr>))"
    by (rule rt_core_new_conn [OF rt_core_open [OF core assms(2,3)] rt_inv_fresh [OF assms(1,2)] own_regs_fds assms(4)])
  with assms(1) own_eq [of "new_conn fd peer (t\<lparr>rt_world := w\<rparr>)" t] show ?thesis
    by (simp add: rt_inv_def) (simp add: new_conn_def)
qed

lemma rt_inv_accept:
  assumes E: "system_ok E op"
  shows "rt_inv op base t \<Longrightarrow> rt_inv op base (accept_conns E i t)"
proof (induction i arbitrary: t)
  case (Suc i)
  obtain r w where r: "re_accept E (rt_listen_fd t) (rt_world t) = (r, w)" by fastforce
  show ?case
  proof (cases r)
    case None
    have "keeps op t (t\<lparr>rt_world := w\<rparr>)"
      using system_okD(4) [OF E, of "rt_listen_fd t" "rt_world t" w] r None
      by (intro keepsI) (simp_all add: rt_core_defs)
    with rt_inv_keeps Suc.prems r None show ?thesis by (simp add: sys_def)
  next
    case (Some a)
    obtain fd ip port where a: "a = (fd, ip, port)" using prod_cases3 by blast
    have "0 \<le> fd" "fd \<notin> op (rt_world t)" "op w = insert fd (op (rt_world t))"
      using system_okD(3) [OF E r [unfolded Some a]] by simp_all
    from Suc.IH [OF rt_inv_keeps [OF keeps_arm [OF keeps_refl] rt_inv_adopt [OF Suc.prems this(2,3,1)]]]
    show ?thesis using r Some a by (simp add: sys_def arm_eqs)
  qed
qed simp

lemma rt_inv_connectReady:
  assumes E: "system_ok E op" and inv: "rt_inv op base t" and c: "connecting t"
  shows "rt_inv op base (onConnectReady E t)"
proof -
  let ?fd = "rt_client_fd t"
  define fds where "fds = (if 0 \<le> rt_listen_fd t then {rt_listen_fd t} else {})"
  define regs where "regs = (if 0 \<le> rt_listen_fd t then {(rt_listen_fd t, RDONLY)} else {})"
  have own: "own_fds t = insert ?fd fds" "own_regs t = insert (?fd, WRONLY) regs"
    using c by (simp_all add: own_fds_def own_regs_def fds_def regs_def)
  have new: "?fd \<notin> fds" "fst ` regs \<subseteq> fds" "0 \<le> ?fd"
    using inv c by (auto simp: rt_inv_def fds_def regs_def connecting_def)
  have core: "rt_core op base (insert ?fd fds) (insert (?fd, WRONLY) regs) t"
    using inv by (simp add: rt_inv_def own)
  have "?fd \<notin> dom (map_of (rt_conns t))" using core unfolding rt_core_def by blast
  moreover have "insert (?fd, WRONLY) regs - {(?fd, WRONLY)} = regs" using new by auto
  ultimately have t1: "rt_core op base (insert ?fd fds) regs (emit (RUnwatch ?fd WRONLY) t)"
    using rt_core_unwatch [OF core, of ?fd WRONLY] by simp
  define t1 where "t1 = emit (RUnwatch ?fd WRONLY) t"
  have un: "unwatchConnect t = t1" using new(3) by (simp add: unwatchConnect_def t1_def)
  have t1f: "rt_client_fd t1 = ?fd" "rt_listen_fd t1 = rt_listen_fd t" "rt_connected t1 = rt_connected t"
    by (simp_all add: t1_def emit_def)
  have ownX: "own_fds X = fds \<and> own_regs X = regs \<and> \<not> connecting X"
    if "rt_listen_fd X = rt_listen_fd t" "rt_client_fd X < 0 \<or> rt_connected X" for X :: "'a rpc_tcp"
    using that by (auto simp: own_fds_def own_regs_def connecting_def fds_def regs_def)
  have fail: "rt_inv op base (connect_failed E (t1\<lparr>rt_world := w\<rparr>))"
    and ok: "rt_inv op base (emit (RReplay (ConnectRep IoOk)) ((new_conn ?fd peer (t1\<lparr>rt_world := w\<rparr>))\<lparr>rt_connected := True\<rparr>))"
    if "op w = op (rt_world t1)" for w peer
  proof -
    have core: "rt_core op base (insert ?fd fds) regs (t1\<lparr>rt_world := w\<rparr>)"
      using t1 that by (simp add: t1_def rt_core_defs)
    from rt_core_close [OF E this new(1,2)] have "rt_core op base fds regs (connect_failed E (t1\<lparr>rt_world := w\<rparr>))"
      by (simp add: connect_failed_def t1f)
    then show "rt_inv op base (connect_failed E (t1\<lparr>rt_world := w\<rparr>))"
      using ownX [of "connect_failed E (t1\<lparr>rt_world := w\<rparr>)"]
      by (simp add: rt_inv_def) (simp add: connect_failed_def emit_def sys_close_def t1f)
    from rt_core_new_conn [OF core new(1,2,3), of peer]
    show "rt_inv op base (emit (RReplay (ConnectRep IoOk)) ((new_conn ?fd peer (t1\<lparr>rt_world := w\<rparr>))\<lparr>rt_connected := True\<rparr>))"
      using ownX [of "emit (RReplay (ConnectRep IoOk)) ((new_conn ?fd peer (t1\<lparr>rt_world := w\<rparr>))\<lparr>rt_connected := True\<rparr>)"]
      by (simp add: rt_inv_def) (simp add: emit_def new_conn_def t1f)
  qed
  define w1 w2 where w: "w1 = snd (re_so_error E ?fd (rt_world t1))" "w2 = snd (re_name E ?fd w1)"
  have "op w1 = op (rt_world t1)" "op w2 = op (rt_world t1)" by (simp_all add: w system_ok_same [OF E])
  from fail [OF this(1)] fail [OF this(2)] ok [OF this(2)] show ?thesis
    unfolding onConnectReady_def un by (simp add: Let_def sys_eq w t1f split: option.split)
qed

subsection \<open>Closing\<close>

lemma log_two:
  "registered (es @ [e, e']) = reg_step e' (reg_step e (registered es))"
  "log_ok (es @ [e, e']) \<longleftrightarrow> log_ok es \<and> close_ok es e \<and> close_ok (es @ [e]) e'"
  using registered_snoc(2) [of "es @ [e]" e'] log_ok_snoc(2) [of "es @ [e]" e'] by simp_all

text \<open>While the connections are closed one after the other, the ones left are the only ones registered.\<close>

definition closing_inv :: "('w \<Rightarrow> int set) \<Rightarrow> int set \<Rightarrow> int list \<Rightarrow> 'w rpc_tcp \<Rightarrow> bool" where
  "closing_inv op base fds t \<longleftrightarrow> distinct fds \<and> set fds \<inter> base = {}
   \<and> (\<forall>fd \<in> set fds. \<exists>c. map_of (rt_conns t) fd = Some c \<and> cn_fd c = fd
        \<and> (\<forall>f. (fd, f) \<in> registered (rt_log t) \<longrightarrow> armed f c))
   \<and> fst ` registered (rt_log t) \<subseteq> set fds
   \<and> op (rt_world t) = base \<union> set fds \<and> log_ok (rt_log t)"

definition close_conn :: "'w rpc_env \<Rightarrow> int \<Rightarrow> 'w rpc_tcp \<Rightarrow> 'w rpc_tcp" where
  "close_conn E fd t = sys_close E fd (on_conn fd unwatchWrite (on_conn fd unwatchRead t))"

lemma close_conn_step:
  assumes E: "system_ok E op" and inv: "closing_inv op base (fd # fds) t"
  shows "closing_inv op base fds (close_conn E fd t)" "rt_own (close_conn E fd t) = rt_own t"
proof -
  obtain c where c: "map_of (rt_conns t) fd = Some c" "cn_fd c = fd"
      "\<And>f. (fd, f) \<in> registered (rt_log t) \<Longrightarrow> armed f c"
    using inv by (auto simp: closing_inv_def)
  let ?t1 = "on_conn fd (arm RDONLY False) t" and ?t2 = "on_conn fd (arm WRONLY False) (on_conn fd (arm RDONLY False) t)"
  have l1: "rt_log ?t1 = rt_log t @ (if armed RDONLY c then [RUnwatch fd RDONLY] else [])"
    using c by (simp add: on_conn_def arm_def emit_def)
  have "map_of (rt_conns ?t1) fd = Some (set_armed RDONLY False c)" using c(1) by (simp add: on_conn_arm_map)
  then have l2: "rt_log ?t2 = rt_log ?t1 @ (if armed WRONLY c then [RUnwatch fd WRONLY] else [])"
    using c(2) by (simp add: on_conn_def [of fd "arm WRONLY False"] arm_def emit_def)
  have regs: "registered (rt_log ?t2) = registered (rt_log t) - {(fd, RDONLY), (fd, WRONLY)}"
    using c(3) [of RDONLY] c(3) [of WRONLY] by (auto simp: l1 l2 log_two)
  have log: "log_ok (rt_log ?t2)"
    using inv by (auto simp: l1 l2 log_two closing_inv_def close_ok_def)
  have all: "fst ` (S - {(fd, RDONLY), (fd, WRONLY)}) \<subseteq> set fds" if "fst ` S \<subseteq> insert fd (set fds)" for S
    using that by (auto simp: image_subset_iff) (metis wflag.exhaust)
  have "closing_inv op base fds (sys_close E fd ?t2)"
    unfolding closing_inv_def
    using inv regs log all [of "registered (rt_log t)"] system_okD(5) [OF E]
    by (auto simp: closing_inv_def sys_close_def emit_def on_conn_arm_table on_conn_arm_frame close_ok_def)
  then show "closing_inv op base fds (close_conn E fd t)" "rt_own (close_conn E fd t) = rt_own t"
    by (simp_all add: close_conn_def arm_eqs)
qed

lemma close_conns:
  "system_ok E op \<Longrightarrow> closing_inv op base fds t \<Longrightarrow>
     closing_inv op base [] (fold (close_conn E) fds t) \<and> rt_own (fold (close_conn E) fds t) = rt_own t"
  by (induction fds arbitrary: t) (simp_all add: close_conn_step)

lemma rpc_close_ok:
  assumes E: "system_ok E op" and inv: "rt_inv op base t"
  shows "rt_inv op (base \<union> (if connecting t then {rt_client_fd t} else {})) (rpc_close E t)"
    and "registered (rt_log (rpc_close E t)) = {}" "rt_conns (rpc_close E t) = []"
    and "rt_listen_fd (rpc_close E t) < 0" "rt_client_fd (rpc_close E t) < 0"
proof -
  let ?leak = "if connecting t then {rt_client_fd t} else {}"
  define t1 where "t1 = (if 0 \<le> rt_listen_fd t
      then (sys_close E (rt_listen_fd t) (unwatchAccept t))\<lparr>rt_listen_fd := -1\<rparr> else t)"
  define t2 where "t2 = (if 0 \<le> rt_client_fd t1 then (unwatchConnect t1)\<lparr>rt_client_fd := -1\<rparr> else t1)"
  define t3 where "t3 = fold (close_conn E) (conn_fds E t2) t2"
  have close: "rpc_close E t = t3\<lparr>rt_conns := [], rt_fd_by_peer := [], rt_hot_read := [], rt_hot_write := []\<rparr>"
    by (simp add: rpc_close_def Let_def t1_def t2_def t3_def close_conn_def [abs_def])
  define regs where "regs = (if connecting t then {(rt_client_fd t, WRONLY)} else {})"
  have core: "rt_core op base (own_fds t) (own_regs t) t" using inv by (simp add: rt_inv_def)
  have c1: "rt_core op base ?leak regs t1" "rt_client_fd t1 = rt_client_fd t" "connecting t1 = connecting t"
      "rt_listen_fd t1 < 0"
  proof -
    show "rt_client_fd t1 = rt_client_fd t" "connecting t1 = connecting t" "rt_listen_fd t1 < 0"
      by (simp_all add: t1_def unwatchAccept_def emit_def sys_close_def connecting_def)
    show "rt_core op base ?leak regs t1"
    proof (cases "0 \<le> rt_listen_fd t")
      case True
      let ?l = "rt_listen_fd t"
      have l: "?l \<notin> ?leak" using inv True by (simp add: rt_inv_def)
      have core': "rt_core op base (insert ?l ?leak) (insert (?l, RDONLY) regs) t"
        using core True by (simp add: own_fds_def own_regs_def regs_def)
      then have "?l \<notin> dom (map_of (rt_conns t))" unfolding rt_core_def by blast
      from rt_core_unwatch [OF core' this, of RDONLY]
      have "rt_core op base (insert ?l ?leak) regs (emit (RUnwatch ?l RDONLY) t)"
        using l by (simp add: regs_def split: if_splits)
      from rt_core_close [OF E this l] True show ?thesis
        by (simp add: t1_def unwatchAccept_def regs_def)
    next
      case False
      then show ?thesis using core by (simp add: t1_def own_fds_def own_regs_def regs_def)
    qed
  qed
  define cs where "cs = rt_conns t1"
  have t2: "rt_conns t2 = cs" "rt_world t2 = rt_world t1" "log_ok (rt_log t2)"
      "registered (rt_log t2) \<subseteq> conn_regs cs" "rt_client_fd t2 < 0" "rt_listen_fd t2 < 0"
    using c1 unfolding rt_core_def
    by (auto simp: t2_def cs_def unwatchConnect_def emit_def close_ok_def regs_def connecting_def split: if_splits)
  have tab: "map_of cs fd = Some c \<Longrightarrow> cn_fd c = fd" for fd c
    using c1(1) by (simp add: rt_core_def conns_ok_def table_ok_def cs_def)
  have "closing_inv op (base \<union> ?leak) (conn_fds E t2) t2"
    unfolding closing_inv_def conn_fds_ok [OF E] t2(1,2)
  proof (intro conjI ballI)
    show "distinct (map fst cs)" using c1(1) by (simp add: rt_core_def conns_ok_def cs_def)
    have fds: "set (map fst cs) = dom (map_of cs)" by (simp add: dom_map_of_conv_image_fst)
    show "set (map fst cs) \<inter> (base \<union> ?leak) = {}" "op (rt_world t1) = base \<union> ?leak \<union> set (map fst cs)"
      unfolding fds using c1(1) unfolding rt_core_def cs_def by blast+
    show "fst ` registered (rt_log t2) \<subseteq> set (map fst cs)"
      unfolding fds using t2(4) conn_regs_dom [of cs] by blast
    show "\<exists>c. map_of cs fd = Some c \<and> cn_fd c = fd \<and> (\<forall>f. (fd, f) \<in> registered (rt_log t2) \<longrightarrow> armed f c)"
      if "fd \<in> set (map fst cs)" for fd
    proof -
      from that obtain c where "map_of cs fd = Some c" unfolding fds by blast
      with tab t2(4) show ?thesis by (auto simp: conn_regs_def)
    qed
  qed (rule t2(3))
  from close_conns [OF E this] have t3: "closing_inv op (base \<union> ?leak) [] t3" "rt_own t3 = rt_own t2"
    by (simp_all add: t3_def)
  show "registered (rt_log (rpc_close E t)) = {}" "rt_conns (rpc_close E t) = []"
    using t3(1) by (simp_all add: close closing_inv_def)
  show own: "rt_listen_fd (rpc_close E t) < 0" "rt_client_fd (rpc_close E t) < 0"
    using t3(2) t2(5,6) by (simp_all add: close rt_own_def)
  have "rt_core op (base \<union> ?leak) {} {} (rpc_close E t)"
    using t3(1) by (simp add: close closing_inv_def rt_core_def conns_ok_def table_ok_def conn_regs_def)
  then show "rt_inv op (base \<union> ?leak) (rpc_close E t)"
    by (rule rt_invI) (use own in \<open>simp_all add: own_defs\<close>)
qed

subsection \<open>Runs\<close>

datatype rpc_op =
    OpBind
  | OpConnect
  | OpClose
  | OpAcceptReady
  | OpConnectReady
  | OpReadReady int
  | OpWriteReady int
  | OpRead "u8 list" string nat nat
  | OpWrite "u8 list" string
  | OpSuspendRead
  | OpSuspendWrite string

fun rpc_step :: "'w rpc_env \<Rightarrow> rpc_op \<Rightarrow> 'w rpc_tcp \<Rightarrow> 'w rpc_tcp option" where
  "rpc_step E OpBind t = Some (rpc_bind E t)"
| "rpc_step E OpConnect t = Some (rpc_connect E t)"
| "rpc_step E OpClose t = Some (rpc_close E t)"
| "rpc_step E OpAcceptReady t = Some (onAcceptReady E t)"
| "rpc_step E OpConnectReady t = Some (onConnectReady E t)"
| "rpc_step E (OpReadReady fd) t = Some (onReadReady fd t)"
| "rpc_step E (OpWriteReady fd) t = Some (onWriteReady fd t)"
| "rpc_step E (OpRead data peer offset max_len) t = map_option snd (rpc_resumeRead E data peer offset max_len t)"
| "rpc_step E (OpWrite data peer) t = Some (snd (snd (snd (rpc_resumeWrite E data peer t))))"
| "rpc_step E OpSuspendRead t = Some (rpc_suspendRead E t)"
| "rpc_step E (OpSuspendWrite peer) t = Some (rpc_suspendWrite peer t)"

fun rpc_enabled :: "rpc_op \<Rightarrow> 'w rpc_tcp \<Rightarrow> bool" where
  \<comment> \<open>a socket binds or connects once, when idle; \<open>onConnectReady\<close> is the callback of a connection in progress\<close>
  "rpc_enabled OpBind t \<longleftrightarrow> rt_listen_fd t < 0"
| "rpc_enabled OpConnect t \<longleftrightarrow> rt_client_fd t < 0 \<and> \<not> rt_connected t"
| "rpc_enabled OpConnectReady t \<longleftrightarrow> connecting t"
| "rpc_enabled OpClose t \<longleftrightarrow> \<not> connecting t"
| "rpc_enabled (OpRead data peer offset max_len) t \<longleftrightarrow> offset + max 1024 max_len \<le> vec_max"
| "rpc_enabled _ t \<longleftrightarrow> True"

inductive rpc_reach :: "'w rpc_env \<Rightarrow> 'w rpc_tcp \<Rightarrow> 'w rpc_tcp \<Rightarrow> bool" for E :: "'w rpc_env" and t0 :: "'w rpc_tcp" where
  rpc_reach_refl: "rpc_reach E t0 t0"
| rpc_reach_step: "rpc_reach E t0 t \<Longrightarrow> rpc_enabled x t \<Longrightarrow> rpc_step E x t = Some t1 \<Longrightarrow> rpc_reach E t0 t1"

lemma rt_inv_step:
  assumes E: "system_ok E op" and al: "re_alloc E = (\<lambda>_. True)" and inv: "rt_inv op base t"
    and x: "rpc_enabled x t"
  shows "\<exists>t1. rpc_step E x t = Some t1 \<and> rt_inv op base t1"
proof (cases x)
  case OpClose
  with x rpc_close_ok(1) [OF E inv] show ?thesis by simp
next
  case (OpRead data peer offset max_len)
  with x resumeRead_keeps [OF E al, of offset max_len data peer t] rt_inv_keeps [OF _ inv] show ?thesis
    by auto
next
  case (OpWrite data peer)
  obtain n st d t1 where w: "rpc_resumeWrite E data peer t = (n, st, d, t1)" using prod_cases4 by blast
  from rt_inv_keeps [OF resumeWrite_keeps [OF E w] inv] OpWrite w show ?thesis by simp
qed (use x in \<open>simp_all add: rt_inv_bind [OF E inv] rt_inv_connect [OF E inv] onAcceptReady_def
      rt_inv_accept [OF E inv] rt_inv_connectReady [OF E inv] rt_inv_keeps [OF onReadReady_keeps inv]
      rt_inv_keeps [OF onWriteReady_keeps inv] rt_inv_keeps [OF suspendRead_keeps inv]
      rt_inv_keeps [OF suspendWrite_keeps inv]\<close>)

lemma rpc_reach_inv:
  assumes "rpc_reach E t0 t" "system_ok E op" "re_alloc E = (\<lambda>_. True)" "rt_inv op base t0"
  shows "rt_inv op base t"
  using assms(1)
proof (induction rule: rpc_reach.induct)
  case (rpc_reach_step t x t1)
  from rt_inv_step [OF assms(2,3) rpc_reach_step.IH rpc_reach_step.hyps(2)] rpc_reach_step.hyps(3)
  show ?case by auto
qed (rule assms(4))

lemma rpc_new_inv: "rpc_new E address w = Inr t \<Longrightarrow> rt_inv op (op w) t"
  by (auto simp: rpc_new_def rt_inv_def rt_core_def conns_ok_def table_ok_def conn_regs_def own_defs
      split: option.splits)


definition fresh_fd :: "int list \<Rightarrow> int" where
  "fresh_fd w = foldr max w 0 + 1"

definition demo_env :: "int list rpc_env" where
  \<comment> \<open>the world is the list of open descriptors; everything succeeds and no bytes are pending\<close>
  "demo_env = \<lparr>re_parse = (\<lambda>a. Some (a, 80)), re_make = (\<lambda>w. (fresh_fd w, fresh_fd w # w)),
     re_nonblock = (\<lambda>fd w. (0, w)), re_bind = (\<lambda>fd p h w. (0, w)), re_listen = (\<lambda>fd w. (0, w)),
     re_name = (\<lambda>fd w. (Some ''me:1'', w)), re_connect = (\<lambda>fd p h w. ((-1, EINPROGRESS), w)),
     re_so_error = (\<lambda>fd w. (Some 0, w)),
     re_accept = (\<lambda>l w. if length w < 3 then (Some (fresh_fd w, ''10.0.0.1'', length w), fresh_fd w # w) else (None, w)),
     re_recv = (\<lambda>fd n w. (Inr EAGAIN, w)), re_send = (\<lambda>fd bs w. (Inl (length bs), w)),
     re_close = (\<lambda>fd w. removeAll fd w), re_alloc = (\<lambda>_. True), re_order = (\<lambda>ks. ks)\<rparr>"

lemma fresh_fd: "fresh_fd w \<notin> set w" "0 < fresh_fd w"
proof -
  have "x \<in> set w \<Longrightarrow> x \<le> foldr max w 0" for x by (induction w) auto
  then show "fresh_fd w \<notin> set w" by (force simp: fresh_fd_def)
  have "0 \<le> foldr max w 0" by (induction w) auto
  then show "0 < fresh_fd w" by (simp add: fresh_fd_def)
qed

lemma demo_env_ok: "system_ok demo_env set"
  using fresh_fd [of "w :: int list" for w]
  by (auto simp: system_ok_def demo_env_def keeps_open_def less_le_not_le split: if_splits)

definition demo_bound :: "int list rpc_tcp" where
  "demo_bound = (case rpc_new demo_env ''h'' [] of Inr t \<Rightarrow> onAcceptReady demo_env (rpc_bind demo_env t))"


subsection \<open>Outcomes\<close>

text \<open>Binding reports once: it fails, with the status Fatal, no new descriptor open and nothing
  registered; or it reports Ok with the bound address, and the listening socket is open and watched.\<close>

theorem rpc_bind_outcome:
  assumes "system_ok E op"
  shows "\<exists>fd. rt_log (rpc_bind E t) =
        rt_log t @ (if 0 \<le> fd then [RClose fd] else []) @ [RReplay (BindRep IoFatal [])]
      \<and> rt_listen_fd (rpc_bind E t) < 0 \<and> op (rt_world (rpc_bind E t)) = op (rt_world t)
    \<or> (\<exists>name. rt_log (rpc_bind E t) = rt_log t @ [RWatch fd RDONLY, RReplay (BindRep IoOk name)])
      \<and> rt_listen_fd (rpc_bind E t) = fd \<and> 0 \<le> fd
      \<and> fd \<notin> op (rt_world t) \<and> op (rt_world (rpc_bind E t)) = insert fd (op (rt_world t))"
  using assms
proof (cases rule: rpc_bind_result [where t = t])
  case (no_socket fd w)
  then show ?thesis by (intro exI [of _ fd]) (simp add: emit_def)
next
  case (failed fd w)
  then show ?thesis
    by (intro exI [of _ fd]) (auto simp: emit_def sys_close_def system_okD(5) [OF assms])
next
  case (bound fd w name)
  then show ?thesis by (intro exI [of _ fd]) (simp add: emit_def)
qed

theorem rpc_bind_outcome_witness:
  "rt_log (rpc_bind demo_env demo_bound) \<noteq> rt_log demo_bound
    \<and> rt_log (rpc_bind demo_env demo_bound) = rt_log demo_bound @ [RWatch 4 RDONLY, RReplay (BindRep IoOk ''me:1'')]"
proof -
  have "rt_log (rpc_bind demo_env demo_bound) = rt_log demo_bound @ [RWatch 4 RDONLY, RReplay (BindRep IoOk ''me:1'')]"
    by code_simp
  with rpc_bind_outcome [OF demo_env_ok, of demo_bound] show ?thesis by auto
qed

text \<open>A connection attempt that fails at once is not reported: no event is posted and nothing is
  registered, so that none will be.\<close>

theorem rpc_connect_failure_silent:
  assumes "system_ok E op" "rt_client_fd (rpc_connect E t) < 0"
  shows "registered (rt_log (rpc_connect E t)) = registered (rt_log t)
    \<and> filter (\<lambda>e. case e of RReplay ev \<Rightarrow> True | _ \<Rightarrow> False) (rt_log (rpc_connect E t))
      = filter (\<lambda>e. case e of RReplay ev \<Rightarrow> True | _ \<Rightarrow> False) (rt_log t)"
  using assms(1)
proof (cases rule: rpc_connect_result [where t = t])
  case (started fd w)
  with assms(2) show ?thesis by (simp add: emit_def)
qed (simp_all add: emit_def sys_close_def)

definition refused_env :: "int list rpc_env" where
  "refused_env = demo_env\<lparr>re_connect := (\<lambda>fd p h w. ((-1, 111), w))\<rparr>"

lemma refused_env_ok: "system_ok refused_env set"
  using demo_env_ok by (auto simp: refused_env_def system_ok_def keeps_open_def)

theorem rpc_connect_failure_silent_witness:
  "\<exists>t0. rpc_new refused_env ''h'' [] = Inr t0 \<and> rt_client_fd (rpc_connect refused_env t0) = -1
    \<and> registered (rt_log (rpc_connect refused_env t0)) = {}"
proof -
  obtain t0 where t0: "rpc_new refused_env ''h'' [] = Inr t0" "rt_log t0 = []" "rt_world t0 = []"
    by (simp add: rpc_new_def refused_env_def demo_env_def)
  have "rt_client_fd (rpc_connect refused_env t0) = -1"
    using t0 by (simp add: rpc_connect_def sys_def Let_def refused_env_def demo_env_def errno_defs fresh_fd_def)
  with rpc_connect_failure_silent [OF refused_env_ok, of t0] t0 show ?thesis by simp
qed

text \<open>Closing the transport while a connection is in progress leaves its descriptor open though the
  transport no longer holds any.\<close>

theorem rpc_close_leaks_connecting:
  assumes "system_ok E op" "re_alloc E = (\<lambda>_. True)" "rpc_new E address w = Inr t0" "rpc_reach E t0 t" "connecting t"
  shows "op (rt_world (rpc_close E t)) = insert (rt_client_fd t) (op w) \<and> rt_client_fd t \<notin> op w
    \<and> rt_conns (rpc_close E t) = [] \<and> own_fds (rpc_close E t) = {} \<and> registered (rt_log (rpc_close E t)) = {}"
proof -
  have inv: "rt_inv op (op w) t" by (rule rpc_reach_inv [OF assms(4,1,2) rpc_new_inv [OF assms(3)]])
  note cl = rpc_close_ok [OF assms(1) inv]
  have own: "own_fds (rpc_close E t) = {}" using cl(4,5) by (simp add: own_defs)
  have "rt_client_fd t \<notin> op w"
    using inv assms(5) by (auto simp: rt_inv_def rt_core_def own_fds_def)
  moreover have "op (rt_world (rpc_close E t)) = insert (rt_client_fd t) (op w)"
    using cl(1) assms(5) cl(3) own by (simp add: rt_inv_def rt_core_def)
  ultimately show ?thesis using cl(2,3) own by simp
qed

theorem rpc_close_leaks_connecting_witness:
  "\<exists>t0. rpc_new demo_env ''h'' [] = Inr t0 \<and> set (rt_world (rpc_close demo_env (rpc_connect demo_env t0))) = {1}"
proof -
  obtain t0 where t0: "rpc_new demo_env ''h'' [] = Inr t0" "rt_client_fd t0 = -1" "\<not> rt_connected t0" "rt_world t0 = []"
    by (simp add: rpc_new_def demo_env_def)
  have "rpc_reach demo_env t0 (rpc_connect demo_env t0)"
    by (rule rpc_reach_step [OF rpc_reach_refl, where x = OpConnect]) (simp_all add: t0)
  moreover have "rt_client_fd (rpc_connect demo_env t0) = 1 \<and> connecting (rpc_connect demo_env t0)"
    using t0 by (simp add: rpc_connect_def sys_def Let_def demo_env_def errno_defs fresh_fd_def watchConnect_def
        emit_def connecting_def)
  ultimately show ?thesis
    using rpc_close_leaks_connecting [OF demo_env_ok _ t0(1), of "rpc_connect demo_env t0"] t0(1)
    by (simp add: demo_env_def)
qed

end
