(* ===== verification/Socket.thy ===== *)
theory Socket
  imports RpcTransport
begin

section \<open>The socket state machine\<close>

text \<open>
  Models \<open>tasks/socket/socket.hpp\<close> and \<open>socket.cpp\<close>. A socket is driven by events, requests of its user and
  reports of its transport, each handled by one overload of \<open>tick\<close> on the loop's thread; here an event is
  a value of \<open>io_event\<close>, and a call of a user's callback a value of \<open>sk_call\<close>. The transport is an argument,
  the record \<open>itransport\<close> of the virtual functions that the socket calls. The ring buffers of \<open>bits\<close> are the
  record \<open>ring\<close>: \<open>rg_take\<close> moves the front element out and leaves an empty function behind. \<open>se_order\<close> is the
  order in which the hash table of writes is visited, and \<open>se_emplace_moves\<close> whether its \<open>emplace\<close> moves from
  its argument when the key is present, which the standard leaves open. Events run one after the other:
  a callback that uses the socket, or a report posted by the transport, is a later event.
\<close>

datatype socket_state = Idle | BindWait | Bound | ConnectWait | Connected | CloseWait | Closed

datatype sk_call =
    CallBind nat iostatus string
  | CallConnect nat iostatus
  | CallRead nat iostatus "u8 list" string
  | CallWrite nat iostatus
  | CallClose nat

record 't itransport =
  it_bind :: "'t \<Rightarrow> 't"
  it_connect :: "'t \<Rightarrow> 't"
  it_close :: "'t \<Rightarrow> 't"
  it_resumeRead :: "u8 list \<Rightarrow> string \<Rightarrow> nat \<Rightarrow> nat \<Rightarrow> 't \<Rightarrow> (read_out \<times> 't) option"
  it_suspendRead :: "'t \<Rightarrow> 't"
  it_resumeWrite :: "u8 list \<Rightarrow> string \<Rightarrow> 't \<Rightarrow> nat \<times> iostatus \<times> u8 list \<times> 't"

record 'q ring =
  rg_new :: "nat \<Rightarrow> 'q"
  rg_empty :: "'q \<Rightarrow> bool"
  rg_full :: "'q \<Rightarrow> bool"
  rg_push :: "cb \<Rightarrow> 'q \<Rightarrow> 'q"
  rg_take :: "'q \<Rightarrow> cb \<times> 'q"
  rg_pop :: "'q \<Rightarrow> 'q"

record wreq =
  wr_data :: "u8 list"
  wr_peer :: string
  wr_cb :: cb

record ('t, 'q) socket =
  sk_state :: socket_state
  sk_transport :: 't
  sk_bind :: 'q
  sk_connect :: 'q
  sk_read :: 'q
  sk_write :: "(string \<times> wreq) list"

record ('t, 'q) sock_env =
  se_tr :: "'t itransport"
  se_ring :: "'q ring"
  se_order :: "string list \<Rightarrow> string list"
  se_emplace_moves :: bool

definition new_socket :: "('t, 'q) sock_env \<Rightarrow> 't \<Rightarrow> ('t, 'q) socket" where
  "new_socket E t = \<lparr>sk_state = Idle, sk_transport = t, sk_bind = rg_new (se_ring E) 1,
     sk_connect = rg_new (se_ring E) 1, sk_read = rg_new (se_ring E) 1024, sk_write = []\<rparr>"

definition destroy_socket :: "('t, 'q) sock_env \<Rightarrow> ('t, 'q) socket \<Rightarrow> ('t, 'q) socket" where
  "destroy_socket E s = s\<lparr>sk_transport := it_close (se_tr E) (sk_transport s)\<rparr>"

subsection \<open>Callbacks\<close>

type_synonym ('t, 'q) tick_result = "(sk_call list \<times> ('t, 'q) socket) option"

definition answer :: "cb \<Rightarrow> (nat \<Rightarrow> sk_call) \<Rightarrow> ('t, 'q) socket \<Rightarrow> ('t, 'q) tick_result" where
  \<comment> \<open>a call without a check that the function is there\<close>
  "answer c f s = map_option (\<lambda>i. ([f i], s)) c"

definition answer_if :: "cb \<Rightarrow> (nat \<Rightarrow> sk_call) \<Rightarrow> sk_call list" where
  "answer_if c f = (case c of None \<Rightarrow> [] | Some i \<Rightarrow> [f i])"

definition take_front :: "('t, 'q) sock_env \<Rightarrow> 'q \<Rightarrow> cb \<times> 'q" where
  \<comment> \<open>\<open>std::move(q.front())\<close> and \<open>q.pop_front()\<close>\<close>
  "take_front E q = (let (c, q1) = rg_take (se_ring E) q in (c, rg_pop (se_ring E) q1))"

subsection \<open>Binding and connecting\<close>

definition tick_BindReq :: "('t, 'q) sock_env \<Rightarrow> cb \<Rightarrow> ('t, 'q) socket \<Rightarrow> ('t, 'q) tick_result" where
  "tick_BindReq E c s =
     (if sk_state s \<noteq> Idle then answer c (\<lambda>i. CallBind i IoFatal []) s
      else Some ([], s\<lparr>sk_state := BindWait, sk_bind := rg_push (se_ring E) c (sk_bind s),
                       sk_transport := it_bind (se_tr E) (sk_transport s)\<rparr>))"

definition tick_BindRep :: "('t, 'q) sock_env \<Rightarrow> iostatus \<Rightarrow> string \<Rightarrow> ('t, 'q) socket \<Rightarrow> ('t, 'q) tick_result" where
  "tick_BindRep E status endpoint s =
     (if sk_state s \<noteq> BindWait then Some ([], s)
      else if rg_empty (se_ring E) (sk_bind s) then None
      else let (c, q) = take_front E (sk_bind s); s1 = s\<lparr>sk_bind := q\<rparr> in
      if status = IoOk then answer c (\<lambda>i. CallBind i status endpoint) (s1\<lparr>sk_state := Bound\<rparr>)
      else answer c (\<lambda>i. CallBind i status []) (s1\<lparr>sk_state := Closed\<rparr>))"

definition tick_ConnectReq :: "('t, 'q) sock_env \<Rightarrow> cb \<Rightarrow> ('t, 'q) socket \<Rightarrow> ('t, 'q) tick_result" where
  "tick_ConnectReq E c s =
     (if sk_state s \<noteq> Idle then answer c (\<lambda>i. CallConnect i IoFatal) s
      else Some ([], s\<lparr>sk_state := ConnectWait, sk_connect := rg_push (se_ring E) c (sk_connect s),
                       sk_transport := it_connect (se_tr E) (sk_transport s)\<rparr>))"

definition tick_ConnectRep :: "('t, 'q) sock_env \<Rightarrow> iostatus \<Rightarrow> ('t, 'q) socket \<Rightarrow> ('t, 'q) tick_result" where
  "tick_ConnectRep E status s =
     (if sk_state s \<noteq> ConnectWait then Some ([], s)
      else if rg_empty (se_ring E) (sk_connect s) then None
      else let (c, q) = take_front E (sk_connect s); s1 = s\<lparr>sk_connect := q\<rparr> in
      answer c (\<lambda>i. CallConnect i status)
        (s1\<lparr>sk_state := if status = IoOk then Connected else Closed\<rparr>))"

subsection \<open>Closing\<close>

partial_function (option) drain_reads :: "('t, 'q) sock_env \<Rightarrow> 'q \<Rightarrow> (sk_call list \<times> 'q) option" where
  "drain_reads E q =
     (if rg_empty (se_ring E) q then Some ([], q)
      else let (c, q1) = take_front E q in do {
        (calls, q2) \<leftarrow> drain_reads E q1;
        Some (answer_if c (\<lambda>i. CallRead i IoError [] []) @ calls, q2) })"

definition fail_writes :: "('t, 'q) sock_env \<Rightarrow> (string \<times> wreq) list \<Rightarrow> sk_call list" where
  "fail_writes E ws =
     concat (map (\<lambda>peer. case map_of ws peer of
         None \<Rightarrow> [] | Some req \<Rightarrow> answer_if (wr_cb req) (\<lambda>i. CallWrite i IoError))
       (se_order E (map fst ws)))"

definition tick_CloseReq :: "('t, 'q) sock_env \<Rightarrow> cb \<Rightarrow> ('t, 'q) socket \<Rightarrow> ('t, 'q) tick_result" where
  "tick_CloseReq E c s =
     (if sk_state s = Closed \<or> sk_state s = CloseWait then Some (answer_if c CallClose, s)
      else do {
        let s1 = s\<lparr>sk_state := CloseWait, sk_transport := it_close (se_tr E) (sk_transport s)\<rparr>;
        (calls1, s2) \<leftarrow>
          (if rg_empty (se_ring E) (sk_bind s1) then Some ([], s1)
           else let (c, q) = rg_take (se_ring E) (sk_bind s1) in
             answer c (\<lambda>i. CallBind i IoError []) (s1\<lparr>sk_bind := q\<rparr>));
        (calls2, s3) \<leftarrow>
          (if rg_empty (se_ring E) (sk_connect s2) then Some ([], s2)
           else let (c, q) = rg_take (se_ring E) (sk_connect s2) in
             answer c (\<lambda>i. CallConnect i IoError) (s2\<lparr>sk_connect := q\<rparr>));
        (calls3, q) \<leftarrow> drain_reads E (sk_read s3);
        (calls4, s4) \<leftarrow> answer c CallClose (s3\<lparr>sk_read := q, sk_state := Closed\<rparr>);
        Some (calls1 @ calls2 @ calls3 @ fail_writes E (sk_write s3) @ calls4, s4) })"

subsection \<open>Reading\<close>

text \<open>\<open>auto n\<close> is a \<open>size_t\<close>, so that \<open>n <= 0\<close> is \<open>n = 0\<close>.\<close>

partial_function (option) transportRead :: "('t, 'q) sock_env \<Rightarrow> ('t, 'q) socket \<Rightarrow> ('t, 'q) tick_result" where
  "transportRead E s =
     (if rg_empty (se_ring E) (sk_read s)
      then Some ([], s\<lparr>sk_transport := it_suspendRead (se_tr E) (sk_transport s)\<rparr>)
      else do {
        (out, t1) \<leftarrow> it_resumeRead (se_tr E) [] [] 0 0 (sk_transport s);
        let s1 = s\<lparr>sk_transport := t1\<rparr>;
        if ro_n out = 0 \<and> ro_status out = IoWouldBlock then Some ([], s1)
        else let (c, q) = take_front E (sk_read s1); s2 = s1\<lparr>sk_read := q\<rparr> in
        if ro_n out = 0 \<and> ro_status out = IoEof \<and> sk_state s2 = Connected then tick_CloseReq E None s2
        else do {
          (calls, s3) \<leftarrow> answer c (if ro_n out = 0 then (\<lambda>i. CallRead i (ro_status out) [] (ro_peer out))
             else (\<lambda>i. CallRead i IoOk (ro_data out) (ro_peer out))) s2;
          (more, s4) \<leftarrow> transportRead E s3;
          Some (calls @ more, s4) } })"

definition tick_ReadReq :: "('t, 'q) sock_env \<Rightarrow> cb \<Rightarrow> ('t, 'q) socket \<Rightarrow> ('t, 'q) tick_result" where
  "tick_ReadReq E c s =
     (if sk_state s = CloseWait \<or> sk_state s = Closed then answer c (\<lambda>i. CallRead i IoError [] []) s
      else if rg_full (se_ring E) (sk_read s) then answer c (\<lambda>i. CallRead i IoWouldBlock [] []) s
      else transportRead E (s\<lparr>sk_read := rg_push (se_ring E) c (sk_read s)\<rparr>))"

subsection \<open>Writing\<close>

definition transportWrite :: "('t, 'q) sock_env \<Rightarrow> string \<Rightarrow> ('t, 'q) socket \<Rightarrow> ('t, 'q) tick_result" where
  \<comment> \<open>\<open>n\<close> is a \<open>size_t\<close> here too, and \<open>n < 0\<close> never holds\<close>
  "transportWrite E peer s =
     (let key = (if sk_state s = Connected then [] else peer) in
      case map_of (sk_write s) key of
        None \<Rightarrow> Some ([], s)
      | Some req \<Rightarrow>
          let (n, status, data, t1) = it_resumeWrite (se_tr E) (wr_data req) key (sk_transport s);
              s1 = s\<lparr>sk_transport := t1, sk_write := AList.update key (req\<lparr>wr_data := data\<rparr>) (sk_write s)\<rparr> in
          if status = IoWouldBlock then Some ([], s1)
          else Some (answer_if (wr_cb req) (\<lambda>i. CallWrite i status),
                     s1\<lparr>sk_write := AList.delete key (sk_write s1)\<rparr>))"

definition tick_WriteReq :: "('t, 'q) sock_env \<Rightarrow> u8 list \<Rightarrow> string \<Rightarrow> cb \<Rightarrow> ('t, 'q) socket \<Rightarrow> ('t, 'q) tick_result" where
  "tick_WriteReq E data peer c s =
     (if sk_state s = Closed \<or> sk_state s = CloseWait then answer c (\<lambda>i. CallWrite i IoError) s
      else if sk_state s = Bound \<and> peer = [] then answer c (\<lambda>i. CallWrite i IoError) s
      else if data = [] then answer c (\<lambda>i. CallWrite i IoFatal) s
      else if map_of (sk_write s) peer \<noteq> None
        then answer (if se_emplace_moves E then None else c) (\<lambda>i. CallWrite i IoWouldBlock) s
      else transportWrite E peer
        (s\<lparr>sk_write := AList.update peer \<lparr>wr_data = data, wr_peer = peer, wr_cb = c\<rparr> (sk_write s)\<rparr>))"

subsection \<open>The step function\<close>

fun tick :: "('t, 'q) sock_env \<Rightarrow> io_event \<Rightarrow> ('t, 'q) socket \<Rightarrow> ('t, 'q) tick_result" where
  "tick E (BindReq c) s = tick_BindReq E c s"
| "tick E (BindRep status endpoint) s = tick_BindRep E status endpoint s"
| "tick E (ConnectReq c) s = tick_ConnectReq E c s"
| "tick E (ConnectRep status) s = tick_ConnectRep E status s"
| "tick E (ReadReq c) s = tick_ReadReq E c s"
| "tick E ReadReadyRep s = transportRead E s"
| "tick E (WriteReq data peer c) s = tick_WriteReq E data peer c s"
| "tick E (WriteReadyRep peer) s = transportWrite E peer s"
| "tick E (CloseReq c) s = tick_CloseReq E c s"

subsection \<open>Requests\<close>

text \<open>A member function called by the user posts one event to the loop.\<close>

definition socket_bind :: "cb \<Rightarrow> io_event list" where "socket_bind callback = [BindReq callback]"

definition socket_connect :: "cb \<Rightarrow> io_event list" where "socket_connect callback = [ConnectReq callback]"

definition socket_read :: "cb \<Rightarrow> io_event list" where "socket_read callback = [ReadReq callback]"

definition socket_write :: "u8 list \<Rightarrow> string \<Rightarrow> cb \<Rightarrow> io_event list" where
  "socket_write data peer callback = [WriteReq data peer callback]"

definition socket_close :: "cb \<Rightarrow> io_event list" where "socket_close callback = [CloseReq callback]"

subsection \<open>A socket over TCP\<close>

definition tcp_itransport :: "'w rpc_env \<Rightarrow> 'w rpc_tcp itransport" where
  "tcp_itransport N = \<lparr>it_bind = rpc_bind N, it_connect = rpc_connect N, it_close = rpc_close N,
     it_resumeRead = rpc_resumeRead N, it_suspendRead = rpc_suspendRead N, it_resumeWrite = rpc_resumeWrite N\<rparr>"

end
