(* ===== verification/SocketProps.thy ===== *)
theory SocketProps
  imports Socket RpcTransportProps
begin

section \<open>What a socket promises\<close>

text \<open>
  Every request is answered: while a socket is open the callbacks called and the requests waiting are
  together the requests made, reads are answered in their order, the state follows the documented
  diagram, and closing answers all that waits. What holds of any transport is stated over the locale
  \<open>itransport_laws\<close>, which the TCP transport satisfies. Then the cases where the promise fails.
\<close>

subsection \<open>Ring buffers and the tables\<close>

definition ring_ok :: "'q ring \<Rightarrow> ('q \<Rightarrow> cb list) \<Rightarrow> ('q \<Rightarrow> nat) \<Rightarrow> bool" where
  "ring_ok R items cap \<longleftrightarrow>
     (\<forall>n. items (rg_new R n) = [] \<and> cap (rg_new R n) = n)
   \<and> (\<forall>q. rg_empty R q \<longleftrightarrow> items q = [])
   \<and> (\<forall>q. rg_full R q \<longleftrightarrow> cap q \<le> length (items q))
   \<and> (\<forall>q x. length (items q) < cap q \<longrightarrow> items (rg_push R x q) = items q @ [x] \<and> cap (rg_push R x q) = cap q)
   \<and> (\<forall>q x xs. items q = x # xs \<longrightarrow> fst (rg_take R q) = x \<and> items (snd (rg_take R q)) = None # xs
        \<and> cap (snd (rg_take R q)) = cap q \<and> items (rg_pop R q) = xs \<and> cap (rg_pop R q) = cap q)"

definition sock_env_ok :: "('t, 'q) sock_env \<Rightarrow> ('q \<Rightarrow> cb list) \<Rightarrow> ('q \<Rightarrow> nat) \<Rightarrow> bool" where
  "sock_env_ok E items cap \<longleftrightarrow> ring_ok (se_ring E) items cap \<and> (\<forall>ks. mset (se_order E ks) = mset ks)"

lemma ring_okD:
  assumes "sock_env_ok E items cap"
  shows "items (rg_new (se_ring E) n) = []" "cap (rg_new (se_ring E) n) = n"
    and "rg_empty (se_ring E) q \<longleftrightarrow> items q = []"
    and "rg_full (se_ring E) q \<longleftrightarrow> cap q \<le> length (items q)"
    and "length (items q) < cap q \<Longrightarrow> items (rg_push (se_ring E) x q) = items q @ [x]"
    and "length (items q) < cap q \<Longrightarrow> cap (rg_push (se_ring E) x q) = cap q"
    and "mset (se_order E ks) = mset ks"
  using assms by (simp_all add: sock_env_ok_def ring_ok_def)

lemma rg_take_ok:
  assumes "sock_env_ok E items cap" "items q = x # xs"
  obtains q1 where "rg_take (se_ring E) q = (x, q1)" "items q1 = None # xs" "cap q1 = cap q"
  using assms by (cases "rg_take (se_ring E) q") (force simp: sock_env_ok_def ring_ok_def)

lemma take_front_ok:
  assumes "sock_env_ok E items cap" "items q = x # xs"
  obtains q1 where "take_front E q = (x, q1)" "items q1 = xs" "cap q1 = cap q"
proof -
  obtain q1 where q1: "rg_take (se_ring E) q = (x, q1)" "items q1 = None # xs" "cap q1 = cap q"
    using rg_take_ok [OF assms] by blast
  have "items (rg_pop (se_ring E) q1) = xs" "cap (rg_pop (se_ring E) q1) = cap q1"
    using assms(1) q1(2) by (simp_all add: sock_env_ok_def ring_ok_def)
  with q1 that [of "rg_pop (se_ring E) q1"] show thesis by (simp add: take_front_def)
qed

definition ids :: "cb list \<Rightarrow> nat multiset" where
  "ids cs = mset (concat (map (\<lambda>c. case c of None \<Rightarrow> [] | Some i \<Rightarrow> [i]) cs))"

lemma ids_simps [simp]: "ids [] = {#}" "ids (None # cs) = ids cs" "ids (Some i # cs) = add_mset i (ids cs)"
  "ids (cs @ cs') = ids cs + ids cs'"
  by (simp_all add: ids_def)

definition write_ids :: "(string \<times> wreq) list \<Rightarrow> nat multiset" where
  "write_ids ws = ids (map (\<lambda>(peer, req). wr_cb req) ws)"

lemma write_ids_update:
  "map_of ws key = Some req \<Longrightarrow> wr_cb req1 = wr_cb req \<Longrightarrow> write_ids (AList.update key req1 ws) = write_ids ws"
proof (induction ws)
  case (Cons a ws)
  then show ?case by (cases a; cases "wr_cb (snd a)") (auto simp: write_ids_def split: if_splits)
qed simp

lemma write_ids_simps [simp]: "write_ids [] = {#}" "write_ids ((peer, req) # ws) = ids [wr_cb req] + write_ids ws"
  "write_ids (ws @ ws') = write_ids ws + write_ids ws'"
  by (simp_all add: write_ids_def) (cases "wr_cb req"; simp)

lemma write_ids_delete:
  "map_of ws key = Some req \<Longrightarrow> distinct (map fst ws) \<Longrightarrow> ids [wr_cb req] + write_ids (AList.delete key ws) = write_ids ws"
proof (induction ws)
  case (Cons a ws)
  obtain k r where a: "a = (k, r)" by fastforce
  show ?case
  proof (cases "k = key")
    case True
    then have "AList.delete key ws = ws" using Cons.prems(2) a by (intro delete_id) (simp add: image_iff)
    with True Cons.prems a show ?thesis by simp
  next
    case False
    with Cons a have "ids [wr_cb req] + write_ids (AList.delete key ws) = write_ids ws" by simp
    then show ?thesis using False a by (simp add: ac_simps)
  qed
qed simp

subsection \<open>Requests, calls, and what waits\<close>

fun call_id :: "sk_call \<Rightarrow> nat" where
  "call_id (CallBind i status endpoint) = i"
| "call_id (CallConnect i status) = i"
| "call_id (CallRead i status data peer) = i"
| "call_id (CallWrite i status) = i"
| "call_id (CallClose i) = i"

definition called :: "sk_call list \<Rightarrow> nat multiset" where
  "called calls = mset (map call_id calls)"

lemma called_simps [simp]: "called [] = {#}" "called (c # cs) = add_mset (call_id c) (called cs)"
  "called (cs @ cs') = called cs + called cs'"
  by (simp_all add: called_def)

fun requested :: "io_event \<Rightarrow> nat multiset" where
  "requested (BindReq c) = ids [c]"
| "requested (ConnectReq c) = ids [c]"
| "requested (ReadReq c) = ids [c]"
| "requested (WriteReq data peer c) = ids [c]"
| "requested (CloseReq c) = ids [c]"
| "requested _ = {#}"

definition pending :: "('q \<Rightarrow> cb list) \<Rightarrow> ('t, 'q) socket \<Rightarrow> nat multiset" where
  "pending items s = ids (items (sk_bind s)) + ids (items (sk_connect s)) + ids (items (sk_read s))
     + write_ids (sk_write s)"

lemma called_answer_if: "(\<And>i. call_id (f i) = i) \<Longrightarrow> called (answer_if c f) = ids [c]"
  by (cases c) (simp_all add: answer_if_def)

lemma answer_Some:
  "answer c f s = Some (calls, s1) \<longleftrightarrow> (\<exists>i. c = Some i \<and> calls = [f i] \<and> s1 = s)"
  by (cases c) (auto simp: answer_def)

definition sk_inv :: "('q \<Rightarrow> cb list) \<Rightarrow> ('q \<Rightarrow> nat) \<Rightarrow> ('t, 'q) socket \<Rightarrow> bool" where
  "sk_inv items cap s \<longleftrightarrow> cap (sk_bind s) = 1 \<and> cap (sk_connect s) = 1 \<and> cap (sk_read s) = 1024
   \<and> length (items (sk_read s)) \<le> 1024 \<and> distinct (map fst (sk_write s))
   \<and> (sk_state s \<notin> {BindWait, CloseWait, Closed} \<longrightarrow> items (sk_bind s) = [])
   \<and> (sk_state s \<notin> {ConnectWait, CloseWait, Closed} \<longrightarrow> items (sk_connect s) = [])
   \<and> (sk_state s = BindWait \<longrightarrow> length (items (sk_bind s)) = 1)
   \<and> (sk_state s = ConnectWait \<longrightarrow> length (items (sk_connect s)) = 1)"

subsection \<open>Reading and writing\<close>

definition same_but_read :: "('t, 'q) socket \<Rightarrow> ('t, 'q) socket \<Rightarrow> bool" where
  "same_but_read s s1 \<longleftrightarrow> sk_state s1 = sk_state s \<and> sk_bind s1 = sk_bind s \<and> sk_connect s1 = sk_connect s
     \<and> sk_write s1 = sk_write s"

lemma tick_CloseReq_None: "sk_state s \<noteq> Closed \<Longrightarrow> sk_state s \<noteq> CloseWait \<Longrightarrow> tick_CloseReq E None s = None"
  by (auto simp: tick_CloseReq_def answer_def Let_def split: Option.bind_splits prod.splits if_splits)

text \<open>A pass over the read queue answers a prefix of it, in order.\<close>

lemma transportRead_fifo:
  assumes E: "sock_env_ok E items cap"
  shows "transportRead E s = Some (calls, s1) \<Longrightarrow>
    \<exists>taken. items (sk_read s) = map Some taken @ items (sk_read s1) \<and> map call_id calls = taken
      \<and> cap (sk_read s1) = cap (sk_read s) \<and> same_but_read s s1"
proof (induction "length (items (sk_read s))" arbitrary: s calls s1)
  case 0
  then show ?case by (subst (asm) transportRead.simps) (auto simp: ring_okD [OF E] same_but_read_def)
next
  case (Suc n)
  then obtain x xs where q: "items (sk_read s) = x # xs" by (cases "items (sk_read s)") auto
  obtain q1 where q1: "take_front E (sk_read s) = (x, q1)" "items q1 = xs" "cap q1 = cap (sk_read s)"
    using take_front_ok [OF E q] by blast
  from Suc.prems obtain out t1 where r: "it_resumeRead (se_tr E) [] [] 0 0 (sk_transport s) = Some (out, t1)"
    by (subst (asm) transportRead.simps) (auto simp: ring_okD [OF E] q split: Option.bind_splits)
  show ?case
  proof (cases "ro_n out = 0 \<and> ro_status out = IoWouldBlock")
    case True
    with Suc.prems show ?thesis
      by (subst (asm) transportRead.simps) (auto simp: ring_okD [OF E] q r same_but_read_def)
  next
    case False
    then have "\<not> (ro_n out = 0 \<and> ro_status out = IoEof \<and> sk_state s = Connected)"
      using Suc.prems by (subst (asm) transportRead.simps)
        (auto simp: ring_okD [OF E] q r q1 tick_CloseReq_None)
    with False Suc.prems obtain i c more where c: "x = Some i" "calls = c # more" "call_id c = i"
      and more: "transportRead E (s\<lparr>sk_transport := t1, sk_read := q1\<rparr>) = Some (more, s1)"
      by (subst (asm) transportRead.simps)
        (auto simp: ring_okD [OF E] q r q1 answer_Some split: Option.bind_splits if_splits)
    from Suc.hyps(1) [OF _ more] Suc.hyps(2) q q1(2,3) c show ?thesis
      by (auto simp: same_but_read_def)
  qed
qed

text \<open>
  What a pass over the waiting reads should do, on a list: each takes the next result of the transport
  until the transport has none, and is answered with what it took.
\<close>

definition read_call :: "read_out \<Rightarrow> nat \<Rightarrow> sk_call" where
  "read_call out i = (if ro_n out = 0 then CallRead i (ro_status out) [] (ro_peer out)
     else CallRead i IoOk (ro_data out) (ro_peer out))"

inductive read_spec :: "('t \<Rightarrow> (read_out \<times> 't) option) \<Rightarrow> cb list \<Rightarrow> 't \<Rightarrow> sk_call list \<Rightarrow> cb list \<Rightarrow> 't \<Rightarrow> bool"
  for recv :: "'t \<Rightarrow> (read_out \<times> 't) option" where
  nobody: "read_spec recv [] t [] [] t"
| nothing: "recv t = Some (out, t1) \<Longrightarrow> ro_n out = 0 \<Longrightarrow> ro_status out = IoWouldBlock \<Longrightarrow>
    read_spec recv (c # cs) t [] (c # cs) t1"
| served: "recv t = Some (out, t1) \<Longrightarrow> \<not> (ro_n out = 0 \<and> ro_status out = IoWouldBlock) \<Longrightarrow>
    read_spec recv cs t1 calls left t2 \<Longrightarrow> read_spec recv (Some i # cs) t (read_call out i # calls) left t2"

lemma transportRead_spec:
  assumes E: "sock_env_ok E items cap"
  shows "transportRead E s = Some (calls, s1) \<Longrightarrow>
    \<exists>t. read_spec (it_resumeRead (se_tr E) [] [] 0 0) (items (sk_read s)) (sk_transport s) calls (items (sk_read s1)) t
      \<and> sk_transport s1 = (if items (sk_read s1) = [] then it_suspendRead (se_tr E) t else t)"
proof (induction "length (items (sk_read s))" arbitrary: s calls s1)
  case 0
  then show ?case by (subst (asm) transportRead.simps) (auto simp: ring_okD [OF E] intro: read_spec.nobody)
next
  case (Suc n)
  then obtain x xs where q: "items (sk_read s) = x # xs" by (cases "items (sk_read s)") auto
  obtain q1 where q1: "take_front E (sk_read s) = (x, q1)" "items q1 = xs" "cap q1 = cap (sk_read s)"
    using take_front_ok [OF E q] by blast
  from Suc.prems obtain out t1 where r: "it_resumeRead (se_tr E) [] [] 0 0 (sk_transport s) = Some (out, t1)"
    by (subst (asm) transportRead.simps) (auto simp: ring_okD [OF E] q split: Option.bind_splits)
  show ?case
  proof (cases "ro_n out = 0 \<and> ro_status out = IoWouldBlock")
    case True
    then have "calls = [] \<and> s1 = s\<lparr>sk_transport := t1\<rparr>"
      using Suc.prems by (subst (asm) transportRead.simps) (auto simp: ring_okD [OF E] q r)
    with True read_spec.nothing [of "it_resumeRead (se_tr E) [] [] 0 0", OF r, of x xs] show ?thesis by (auto simp: q)
  next
    case False
    then have "\<not> (ro_n out = 0 \<and> ro_status out = IoEof \<and> sk_state s = Connected)"
      using Suc.prems by (subst (asm) transportRead.simps)
        (auto simp: ring_okD [OF E] q r q1 tick_CloseReq_None)
    with False Suc.prems obtain i more where c: "x = Some i" "calls = read_call out i # more"
      and more: "transportRead E (s\<lparr>sk_transport := t1, sk_read := q1\<rparr>) = Some (more, s1)"
      by (subst (asm) transportRead.simps)
        (auto simp: ring_okD [OF E] q r q1 answer_Some read_call_def split: Option.bind_splits if_splits)
    from Suc.hyps(1) [OF _ more] Suc.hyps(2) q q1(2) obtain t where
      "read_spec (it_resumeRead (se_tr E) [] [] 0 0) xs t1 more (items (sk_read s1)) t"
      and t: "sk_transport s1 = (if items (sk_read s1) = [] then it_suspendRead (se_tr E) t else t)" by auto
    from read_spec.served [of "it_resumeRead (se_tr E) [] [] 0 0", OF r False this(1), of i] t show ?thesis
      by (auto simp: q c)
  qed
qed

lemma transportWrite_ids:
  assumes "transportWrite E peer s = Some (calls, s1)" "distinct (map fst (sk_write s))"
  shows "called calls + write_ids (sk_write s1) = write_ids (sk_write s)"
    and "distinct (map fst (sk_write s1))" "sk_state s1 = sk_state s" "sk_bind s1 = sk_bind s"
      "sk_connect s1 = sk_connect s" "sk_read s1 = sk_read s"
proof -
  let ?key = "if sk_state s = Connected then [] else peer"
  show "called calls + write_ids (sk_write s1) = write_ids (sk_write s)"
  proof (cases "map_of (sk_write s) ?key")
    case None
    with assms show ?thesis by (simp add: transportWrite_def)
  next
    case (Some req)
    obtain n status data t1 where w: "it_resumeWrite (se_tr E) (wr_data req) ?key (sk_transport s) = (n, status, data, t1)"
      using prod_cases4 by blast
    let ?ws = "AList.update ?key (req\<lparr>wr_data := data\<rparr>) (sk_write s)"
    have ws: "write_ids ?ws = write_ids (sk_write s)" by (rule write_ids_update [OF Some]) simp
    have "ids [wr_cb req] + write_ids (AList.delete ?key ?ws) = write_ids ?ws"
      using write_ids_delete [of ?ws ?key "req\<lparr>wr_data := data\<rparr>"] assms(2)
      by (simp add: update_conv' distinct_update)
    with assms(1) Some w ws show ?thesis
      by (auto simp: transportWrite_def Let_def called_answer_if split: if_splits)
  qed
  show "distinct (map fst (sk_write s1))" "sk_state s1 = sk_state s" "sk_bind s1 = sk_bind s"
      "sk_connect s1 = sk_connect s" "sk_read s1 = sk_read s"
    using assms by (auto simp: transportWrite_def Let_def distinct_update distinct_delete
        split: option.splits prod.splits if_splits)
qed

subsection \<open>Conservation\<close>

lemma transportRead_pending:
  assumes E: "sock_env_ok E items cap" and r: "transportRead E s = Some (calls, s1)" and inv: "sk_inv items cap s"
  shows "called calls + pending items s1 = pending items s" "sk_inv items cap s1"
proof -
  obtain taken where t: "items (sk_read s) = map Some taken @ items (sk_read s1)" "map call_id calls = taken"
      "cap (sk_read s1) = cap (sk_read s)" "same_but_read s s1"
    using transportRead_fifo [OF E r] by blast
  have "ids (map Some taken) = mset taken" by (induction taken) simp_all
  with t show "called calls + pending items s1 = pending items s"
    by (simp add: pending_def called_def same_but_read_def)
  show "sk_inv items cap s1" using inv t by (simp add: sk_inv_def same_but_read_def)
qed

lemma transportWrite_pending:
  assumes r: "transportWrite E peer s = Some (calls, s1)" and inv: "sk_inv items cap s"
  shows "called calls + pending items s1 = pending items s" "sk_inv items cap s1"
proof -
  have d: "distinct (map fst (sk_write s))" using inv by (simp add: sk_inv_def)
  note w = transportWrite_ids [OF r d]
  show "called calls + pending items s1 = pending items s"
    unfolding pending_def w(3-6) w(1) [symmetric] by (simp add: ac_simps)
  show "sk_inv items cap s1" using inv w(2-6) by (simp add: sk_inv_def)
qed

fun is_close :: "io_event \<Rightarrow> bool" where
  "is_close (CloseReq c) = True"
| "is_close _ = False"

lemma tick_pending:
  assumes E: "sock_env_ok E items cap" and t: "tick E e s = Some (calls, s1)" and inv: "sk_inv items cap s"
    and e: "\<not> is_close e"
  shows "called calls + pending items s1 = pending items s + requested e \<and> sk_inv items cap s1"
proof (cases e)
  case (BindReq c)
  then show ?thesis
    using t inv by (auto simp: tick_BindReq_def answer_Some pending_def sk_inv_def ring_okD [OF E] split: if_splits)
next
  case (BindRep status endpoint)
  show ?thesis
  proof (cases "sk_state s = BindWait")
    case True
    then obtain x where q: "items (sk_bind s) = [x]" using inv by (auto simp: sk_inv_def length_Suc_conv)
    obtain q1 where "take_front E (sk_bind s) = (x, q1)" "items q1 = []" "cap q1 = cap (sk_bind s)"
      using take_front_ok [OF E q] by blast
    with t True q inv BindRep show ?thesis
      by (auto simp: tick_BindRep_def Let_def ring_okD [OF E] answer_Some pending_def sk_inv_def split: if_splits)
  qed (use t inv BindRep in \<open>auto simp: tick_BindRep_def\<close>)
next
  case (ConnectReq c)
  then show ?thesis
    using t inv by (auto simp: tick_ConnectReq_def answer_Some pending_def sk_inv_def ring_okD [OF E] split: if_splits)
next
  case (ConnectRep status)
  show ?thesis
  proof (cases "sk_state s = ConnectWait")
    case True
    then obtain x where q: "items (sk_connect s) = [x]" using inv by (auto simp: sk_inv_def length_Suc_conv)
    obtain q1 where "take_front E (sk_connect s) = (x, q1)" "items q1 = []" "cap q1 = cap (sk_connect s)"
      using take_front_ok [OF E q] by blast
    with t True q inv ConnectRep show ?thesis
      by (auto simp: tick_ConnectRep_def Let_def ring_okD [OF E] answer_Some pending_def sk_inv_def split: if_splits)
  qed (use t inv ConnectRep in \<open>auto simp: tick_ConnectRep_def\<close>)
next
  case (ReadReq c)
  let ?s = "s\<lparr>sk_read := rg_push (se_ring E) c (sk_read s)\<rparr>"
  show ?thesis
  proof (cases "sk_state s = CloseWait \<or> sk_state s = Closed \<or> rg_full (se_ring E) (sk_read s)")
    case True
    with t inv ReadReq show ?thesis by (auto simp: tick_ReadReq_def answer_Some split: if_splits)
  next
    case False
    then have room: "length (items (sk_read s)) < cap (sk_read s)" using ring_okD(4) [OF E] by simp
    have inv1: "sk_inv items cap ?s" and p1: "pending items ?s = pending items s + ids [c]"
      using inv room by (auto simp: sk_inv_def pending_def ring_okD(5,6) [OF E] ac_simps)
    from False t ReadReq have "transportRead E ?s = Some (calls, s1)" by (simp add: tick_ReadReq_def)
    from transportRead_pending [OF E this inv1] p1 ReadReq show ?thesis by simp
  qed
next
  case ReadReadyRep
  with t transportRead_pending [OF E _ inv] show ?thesis by simp
next
  case (WriteReq data peer c)
  let ?s = "s\<lparr>sk_write := AList.update peer \<lparr>wr_data = data, wr_peer = peer, wr_cb = c\<rparr> (sk_write s)\<rparr>"
  show ?thesis
  proof (cases "sk_state s = Closed \<or> sk_state s = CloseWait \<or> sk_state s = Bound \<and> peer = [] \<or> data = []
      \<or> map_of (sk_write s) peer \<noteq> None")
    case True
    with t inv WriteReq show ?thesis by (auto simp: tick_WriteReq_def answer_Some split: if_splits)
  next
    case False
    then have new: "AList.update peer \<lparr>wr_data = data, wr_peer = peer, wr_cb = c\<rparr> (sk_write s)
        = sk_write s @ [(peer, \<lparr>wr_data = data, wr_peer = peer, wr_cb = c\<rparr>)]"
      by (simp add: update_new map_of_eq_None_iff)
    have inv1: "sk_inv items cap ?s"
      using inv by (simp add: sk_inv_def distinct_update)
    have p1: "pending items ?s = pending items s + ids [c]"
      by (simp add: pending_def new ac_simps)
    from False t WriteReq have "transportWrite E peer ?s = Some (calls, s1)"
      by (auto simp: tick_WriteReq_def split: if_splits)
    from transportWrite_pending [OF this inv1] p1 WriteReq show ?thesis by simp
  qed
next
  case (WriteReadyRep peer)
  with t transportWrite_pending [OF _ inv] show ?thesis by simp
next
  case (CloseReq c)
  with e show ?thesis by simp
qed

lemma new_socket_inv:
  assumes "sock_env_ok E items cap"
  shows "sk_inv items cap (new_socket E t)" "pending items (new_socket E t) = {#}"
  by (simp_all add: sk_inv_def pending_def new_socket_def write_ids_def ring_okD [OF assms])

lemma run_pending:
  assumes E: "sock_env_ok E items cap"
  shows "run_ops (tick E) evs s = Some (css, s1) \<Longrightarrow> list_all (\<lambda>e. \<not> is_close e) evs \<Longrightarrow> sk_inv items cap s \<Longrightarrow>
    called (concat css) + pending items s1 = pending items s + (\<Sum>e \<leftarrow> evs. requested e) \<and> sk_inv items cap s1"
proof (induction evs arbitrary: s css)
  case (Cons e evs)
  from Cons.prems(1) obtain calls s2 css' where r: "tick E e s = Some (calls, s2)"
      "run_ops (tick E) evs s2 = Some (css', s1)" "css = calls # css'"
    by (auto split: Option.bind_splits)
  have t: "called calls + pending items s2 = pending items s + requested e" "sk_inv items cap s2"
    using tick_pending [OF E r(1) Cons.prems(3)] Cons.prems(2) by simp_all
  have "called (concat css') + pending items s1 = pending items s2 + (\<Sum>e \<leftarrow> evs. requested e)" "sk_inv items cap s1"
    using Cons.IH [OF r(2) _ t(2)] Cons.prems(2) by simp_all
  with t r(3) show ?case by (simp add: ac_simps)
qed simp

subsection \<open>Closing\<close>

text \<open>After a close nothing waits but the writes in the table, whose callbacks have been called.\<close>

definition closed_out :: "('q \<Rightarrow> cb list) \<Rightarrow> ('t, 'q) socket \<Rightarrow> bool" where
  "closed_out items s \<longleftrightarrow> sk_state s = Closed \<and> items (sk_read s) = []"

lemma drain_reads_ok:
  assumes E: "sock_env_ok E items cap"
  shows "\<exists>calls q1. drain_reads E q = Some (calls, q1) \<and> items q1 = [] \<and> called calls = ids (items q)
    \<and> cap q1 = cap q \<and> (\<forall>c \<in> set calls. \<exists>i. c = CallRead i IoError [] [])"
proof (induction "items q" arbitrary: q)
  case Nil
  then show ?case by (subst drain_reads.simps) (simp add: ring_okD [OF E])
next
  case (Cons x xs)
  obtain q1 where q1: "take_front E q = (x, q1)" "items q1 = xs" "cap q1 = cap q"
    using take_front_ok [OF E Cons.hyps(2) [symmetric]] by blast
  obtain calls q2 where r: "drain_reads E q1 = Some (calls, q2)" "items q2 = []" "called calls = ids xs"
      "cap q2 = cap q1" "\<forall>c \<in> set calls. \<exists>i. c = CallRead i IoError [] []"
    using Cons.hyps(1) [of q1] q1(2) by auto
  then show ?case
    using Cons.hyps(2) [symmetric] q1
    by (subst drain_reads.simps)
      (cases x; auto simp: ring_okD [OF E] answer_if_def)
qed

lemma fail_writes_ok:
  assumes E: "sock_env_ok E items cap" and d: "distinct (map fst ws)"
  shows "called (fail_writes E ws) = write_ids ws"
    and "c \<in> set (fail_writes E ws) \<Longrightarrow> \<exists>i. c = CallWrite i IoError"
proof -
  define f where "f = (\<lambda>peer. case map_of ws peer of None \<Rightarrow> [] | Some req \<Rightarrow> answer_if (wr_cb req) (\<lambda>i. CallWrite i IoError))"
  have c: "called (concat (map f ks)) = (\<Sum>k \<in># mset ks. called (f k))" for ks
    by (induction ks) simp_all
  have "called (fail_writes E ws) = (\<Sum>k \<in># mset (se_order E (map fst ws)). called (f k))"
    unfolding fail_writes_def f_def [symmetric] by (rule c)
  also have "\<dots> = called (concat (map f (map fst ws)))" unfolding c ring_okD(7) [OF E] ..
  also have "\<dots> = write_ids ws"
  proof -
    have "map f (map fst ws) = map (\<lambda>(peer, req). answer_if (wr_cb req) (\<lambda>i. CallWrite i IoError)) ws"
      using d by (auto simp: f_def map_of_is_SomeI)
    moreover have "called (concat (map (\<lambda>(peer, req). answer_if (wr_cb req) (\<lambda>i. CallWrite i IoError)) ws)) = write_ids ws"
      for ws :: "(string \<times> wreq) list"
      by (induction ws) (auto simp: called_answer_if)
    ultimately show ?thesis by (simp only:)
  qed
  finally show "called (fail_writes E ws) = write_ids ws" .
  show "\<exists>i. c = CallWrite i IoError" if "c \<in> set (fail_writes E ws)"
    using that by (auto simp: fail_writes_def answer_if_def split: option.splits)
qed

lemma fail_writes_each:
  assumes E: "sock_env_ok E items cap" and "map_of ws peer = Some req" "wr_cb req = Some i"
  shows "CallWrite i IoError \<in> set (fail_writes E ws)"
proof -
  have "peer \<in> set (map fst ws)" using assms(2) by (metis domI dom_map_of_conv_image_fst set_map)
  then have "peer \<in> set (se_order E (map fst ws))" using mset_eq_setD [OF ring_okD(7) [OF E]] by blast
  with assms(2,3) show ?thesis by (force simp: fail_writes_def answer_if_def)
qed

fun call_error :: "sk_call \<Rightarrow> bool" where
  "call_error (CallBind i status endpoint) = (status = IoError)"
| "call_error (CallConnect i status) = (status = IoError)"
| "call_error (CallRead i status data peer) = (status = IoError \<and> data = [])"
| "call_error (CallWrite i status) = (status = IoError)"
| "call_error (CallClose i) = False"

lemma front_answer:
  assumes E: "sock_env_ok E items cap" and f: "\<And>i. call_id (f i) = i" "\<And>i. call_error (f i)"
    and q: "length (items q) \<le> 1" "None \<notin> set (items q)"
  shows "\<exists>calls q1. (if rg_empty (se_ring E) q then Some ([], s)
      else let (c, q1) = rg_take (se_ring E) q in answer c f (upd q1)) = Some (calls, if items q = [] then s else upd q1)
    \<and> called calls = ids (items q) \<and> (\<forall>c \<in> set calls. call_error c) \<and> cap q1 = cap q"
proof (cases "items q")
  case Nil
  then show ?thesis by (intro exI [of _ "[]"] exI [of _ q]) (simp add: ring_okD [OF E])
next
  case (Cons x xs)
  then obtain i where x: "x = Some i" "xs = []" using q by (cases x) auto
  obtain q1 where "rg_take (se_ring E) q = (x, q1)" "cap q1 = cap q" using rg_take_ok [OF E Cons] by blast
  with x Cons f show ?thesis by (intro exI [of _ "[f i]"] exI [of _ q1]) (simp add: ring_okD [OF E] answer_def)
qed

lemma tick_CloseReq_ok:
  assumes E: "sock_env_ok E items cap" and inv: "sk_inv items cap s"
    and up: "sk_state s \<noteq> Closed" "sk_state s \<noteq> CloseWait"
    and some: "None \<notin> set (items (sk_bind s))" "None \<notin> set (items (sk_connect s))"
  obtains calls s1 where "tick E (CloseReq (Some i)) s = Some (calls @ [CallClose i], s1)"
    "called calls = pending items s" "\<forall>c \<in> set calls. call_error c" "closed_out items s1"
    "sk_transport s1 = it_close (se_tr E) (sk_transport s)" "sk_inv items cap s1" "sk_write s1 = sk_write s"
    "set (fail_writes E (sk_write s)) \<subseteq> set calls"
proof -
  define s1 where "s1 = s\<lparr>sk_state := CloseWait, sk_transport := it_close (se_tr E) (sk_transport s)\<rparr>"
  have len: "length (items (sk_bind s)) \<le> 1" "length (items (sk_connect s)) \<le> 1"
    using inv up by (cases "sk_state s"; simp add: sk_inv_def)+
  obtain c1 b where c1: "(if rg_empty (se_ring E) (sk_bind s1) then Some ([], s1)
           else let (c, q) = rg_take (se_ring E) (sk_bind s1) in
             answer c (\<lambda>i. CallBind i IoError []) (s1\<lparr>sk_bind := q\<rparr>))
        = Some (c1, if items (sk_bind s1) = [] then s1 else s1\<lparr>sk_bind := b\<rparr>)"
      "called c1 = ids (items (sk_bind s1))" "\<forall>c \<in> set c1. call_error c" "cap b = cap (sk_bind s1)"
    using front_answer [OF E, of "\<lambda>i. CallBind i IoError []" "sk_bind s1" s1 "\<lambda>q. s1\<lparr>sk_bind := q\<rparr>"] len some
    by (auto simp: s1_def)
  define s2 where "s2 = (if items (sk_bind s1) = [] then s1 else s1\<lparr>sk_bind := b\<rparr>)"
  have s2: "sk_connect s2 = sk_connect s" "sk_read s2 = sk_read s" "sk_write s2 = sk_write s"
      "sk_transport s2 = it_close (se_tr E) (sk_transport s)"
    by (simp_all add: s2_def s1_def)
  obtain c2 b' where c2: "(if rg_empty (se_ring E) (sk_connect s2) then Some ([], s2)
           else let (c, q) = rg_take (se_ring E) (sk_connect s2) in
             answer c (\<lambda>i. CallConnect i IoError) (s2\<lparr>sk_connect := q\<rparr>))
        = Some (c2, if items (sk_connect s2) = [] then s2 else s2\<lparr>sk_connect := b'\<rparr>)"
      "called c2 = ids (items (sk_connect s2))" "\<forall>c \<in> set c2. call_error c" "cap b' = cap (sk_connect s2)"
    using front_answer [OF E, of "\<lambda>i. CallConnect i IoError" "sk_connect s2" s2 "\<lambda>q. s2\<lparr>sk_connect := q\<rparr>"] len some
    by (auto simp: s2)
  define s3 where "s3 = (if items (sk_connect s2) = [] then s2 else s2\<lparr>sk_connect := b'\<rparr>)"
  have s3: "sk_read s3 = sk_read s" "sk_write s3 = sk_write s"
      "sk_transport s3 = it_close (se_tr E) (sk_transport s)"
    by (simp_all add: s3_def s2)
  obtain c3 q where c3: "drain_reads E (sk_read s3) = Some (c3, q)" "items q = []"
      "called c3 = ids (items (sk_read s3))" "cap q = cap (sk_read s3)" "\<forall>c \<in> set c3. \<exists>i. c = CallRead i IoError [] []"
    using drain_reads_ok [OF E, of "sk_read s3"] by blast
  have d: "distinct (map fst (sk_write s3))" using inv by (simp add: s3 sk_inv_def)
  show thesis
  proof (rule that)
    show "tick E (CloseReq (Some i)) s = Some ((c1 @ c2 @ c3 @ fail_writes E (sk_write s3)) @ [CallClose i],
        s3\<lparr>sk_read := q, sk_state := Closed\<rparr>)"
      using up by (simp add: tick_CloseReq_def s1_def [symmetric] c1(1) s2_def [symmetric] c2(1)
          s3_def [symmetric] c3(1) answer_def)
    show "called (c1 @ c2 @ c3 @ fail_writes E (sk_write s3)) = pending items s"
      using c1(2) c2(2) c3(3) fail_writes_ok(1) [OF E d] by (simp add: pending_def s1_def s2 s3)
    show "\<forall>c \<in> set (c1 @ c2 @ c3 @ fail_writes E (sk_write s3)). call_error c"
      using c1(3) c2(3) c3(5) fail_writes_ok(2) [OF E d] by force
    show "closed_out items (s3\<lparr>sk_read := q, sk_state := Closed\<rparr>)" using c3(2) by (simp add: closed_out_def)
    show "sk_transport (s3\<lparr>sk_read := q, sk_state := Closed\<rparr>) = it_close (se_tr E) (sk_transport s)"
      by (simp add: s3)
    show "sk_inv items cap (s3\<lparr>sk_read := q, sk_state := Closed\<rparr>)"
      using inv c1(4) c2(4) c3(2,4) by (auto simp: sk_inv_def s3_def s2_def s1_def)
    show "sk_write (s3\<lparr>sk_read := q, sk_state := Closed\<rparr>) = sk_write s" by (simp add: s3)
    show "set (fail_writes E (sk_write s)) \<subseteq> set (c1 @ c2 @ c3 @ fail_writes E (sk_write s3))" by (auto simp: s3)
  qed
qed

text \<open>Once closed, a socket answers each request at once.\<close>

fun is_write_ready :: "io_event \<Rightarrow> bool" where
  "is_write_ready (WriteReadyRep peer) = True"
| "is_write_ready _ = False"

lemma tick_closed:
  assumes E: "sock_env_ok E items cap" and t: "tick E e s = Some (calls, s1)" and c: "closed_out items s"
    and e: "\<not> is_write_ready e"
  shows "called calls = requested e \<and> closed_out items s1"
proof (cases e)
  case ReadReadyRep
  have "rg_empty (se_ring E) (sk_read s)" using c by (simp add: ring_okD [OF E] closed_out_def)
  with t c ReadReadyRep show ?thesis
    by (simp add: transportRead.simps closed_out_def) auto
qed (use t c e in \<open>auto simp: closed_out_def tick_BindReq_def tick_BindRep_def tick_ConnectReq_def tick_ConnectRep_def
      tick_ReadReq_def tick_WriteReq_def tick_CloseReq_def answer_Some called_answer_if\<close>)

lemma run_closed:
  assumes E: "sock_env_ok E items cap"
  shows "run_ops (tick E) evs s = Some (css, s1) \<Longrightarrow> list_all (\<lambda>e. \<not> is_write_ready e) evs \<Longrightarrow> closed_out items s \<Longrightarrow>
    called (concat css) = (\<Sum>e \<leftarrow> evs. requested e) \<and> closed_out items s1"
proof (induction evs arbitrary: s css)
  case (Cons e evs)
  from Cons.prems(1) obtain calls s2 css' where r: "tick E e s = Some (calls, s2)"
      "run_ops (tick E) evs s2 = Some (css', s1)" "css = calls # css'"
    by (auto split: Option.bind_splits)
  from tick_closed [OF E r(1) Cons.prems(3)] Cons.IH [OF r(2)] Cons.prems(2) r(3) show ?case by simp
qed simp

subsection \<open>The state follows the diagram\<close>

fun fsm :: "io_event \<Rightarrow> socket_state \<Rightarrow> socket_state" where
  \<comment> \<open>the diagram in \<open>socket.hpp\<close>, with closing from every open state; \<open>CloseWait\<close> is passed within one step\<close>
  "fsm (BindReq c) Idle = BindWait"
| "fsm (ConnectReq c) Idle = ConnectWait"
| "fsm (BindRep status endpoint) BindWait = (if status = IoOk then Bound else Closed)"
| "fsm (ConnectRep status) ConnectWait = (if status = IoOk then Connected else Closed)"
| "fsm (CloseReq c) CloseWait = CloseWait"
| "fsm (CloseReq c) st = Closed"
| "fsm e st = st"

lemma tick_fsm:
  assumes E: "sock_env_ok E items cap" and t: "tick E e s = Some (calls, s1)"
  shows "sk_state s1 = fsm e (sk_state s)"
proof -
  have r: "sk_state s1 = sk_state s'" if "transportRead E s' = Some (calls, s1)" for s'
    using transportRead_fifo [OF E that] by (auto simp: same_but_read_def)
  have w: "sk_state s1 = sk_state s'" if "transportWrite E peer s' = Some (calls, s1)" for s' peer
    using that by (auto simp: transportWrite_def Let_def split: option.splits prod.splits if_splits)
  show ?thesis
  proof (cases e)
    case (CloseReq c)
    with t show ?thesis
      by (cases "sk_state s")
        (auto simp: tick_CloseReq_def answer_Some Let_def split: Option.bind_splits if_splits prod.splits)
  next
    case (ReadReq c)
    with t r show ?thesis
      by (auto simp: tick_ReadReq_def answer_Some split: if_splits)
  next
    case (WriteReq data peer c)
    with t w show ?thesis
      by (auto simp: tick_WriteReq_def answer_Some split: if_splits)
  next
    case ReadReadyRep
    with t r show ?thesis by auto
  next
    case (WriteReadyRep peer)
    with t w show ?thesis by auto
  qed (use t in \<open>(cases "sk_state s"; auto simp: tick_BindReq_def tick_BindRep_def tick_ConnectReq_def tick_ConnectRep_def
        answer_Some Let_def split: if_splits prod.splits)+\<close>)
qed

subsection \<open>What a socket needs of its transport\<close>

text \<open>
  \<open>fresh\<close> transports may be bound or connected; \<open>tinv\<close> is the transport's own invariant. \<open>eof\<close> says
  whether a read may report the end of a stream, which a connected socket does not survive.
\<close>

locale itransport_laws =
  fixes T :: "'t itransport" and tinv :: "'t \<Rightarrow> bool" and fresh :: "'t \<Rightarrow> bool" and eof :: bool
  assumes bind_inv: "fresh t \<Longrightarrow> tinv (it_bind T t)"
    and connect_inv: "fresh t \<Longrightarrow> tinv (it_connect T t)"
    and close_inv: "tinv t \<Longrightarrow> tinv (it_close T t)"
    and suspend_inv: "tinv t \<Longrightarrow> tinv (it_suspendRead T t) \<and> (fresh t \<longrightarrow> fresh (it_suspendRead T t))"
    and read_inv: "tinv t \<Longrightarrow> \<exists>out t1. it_resumeRead T [] [] 0 0 t = Some (out, t1) \<and> tinv t1
      \<and> (fresh t \<longrightarrow> fresh t1) \<and> (ro_status out = IoEof \<longrightarrow> eof)"
    and write_inv: "tinv t \<Longrightarrow> it_resumeWrite T data peer t = (n, status, data1, t1) \<Longrightarrow>
      tinv t1 \<and> (fresh t \<longrightarrow> fresh t1)"
begin

definition good :: "('q \<Rightarrow> cb list) \<Rightarrow> ('q \<Rightarrow> nat) \<Rightarrow> ('t, 'q) socket \<Rightarrow> bool" where
  "good items cap s \<longleftrightarrow> sk_inv items cap s \<and> tinv (sk_transport s) \<and> (sk_state s = Idle \<longrightarrow> fresh (sk_transport s))
   \<and> (eof \<longrightarrow> sk_state s \<noteq> ConnectWait \<and> sk_state s \<noteq> Connected)
   \<and> None \<notin> set (items (sk_read s))
   \<and> (sk_state s \<noteq> Closed \<longrightarrow> None \<notin> set (items (sk_bind s)) \<and> None \<notin> set (items (sk_connect s)))
   \<and> sk_state s \<noteq> CloseWait"

lemma transportRead_good:
  assumes E: "sock_env_ok E items cap" "se_tr E = T"
  shows "good items cap s \<Longrightarrow> \<exists>calls s1. transportRead E s = Some (calls, s1) \<and> good items cap s1"
proof (induction "length (items (sk_read s))" arbitrary: s)
  case 0
  then show ?case
    using suspend_inv [of "sk_transport s"]
    by (subst transportRead.simps) (simp add: ring_okD [OF E(1)] E(2) good_def sk_inv_def)
next
  case (Suc n)
  then obtain x xs where q: "items (sk_read s) = x # xs" by (cases "items (sk_read s)") auto
  then obtain i where x: "x = Some i" using Suc.prems by (cases x) (auto simp: good_def)
  obtain q1 where q1: "take_front E (sk_read s) = (x, q1)" "items q1 = xs" "cap q1 = cap (sk_read s)"
    using take_front_ok [OF E(1) q] by blast
  obtain out t1 where r: "it_resumeRead T [] [] 0 0 (sk_transport s) = Some (out, t1)" "tinv t1"
      "fresh (sk_transport s) \<longrightarrow> fresh t1" "ro_status out = IoEof \<longrightarrow> eof"
    using read_inv [of "sk_transport s"] Suc.prems unfolding good_def by blast
  let ?s = "s\<lparr>sk_transport := t1, sk_read := q1\<rparr>"
  have g: "good items cap (s\<lparr>sk_transport := t1\<rparr>)" "good items cap ?s"
    using Suc.prems r(2,3) q q1(2,3) by (simp_all add: good_def sk_inv_def)
  obtain calls s1 where "transportRead E ?s = Some (calls, s1)" "good items cap s1"
    using Suc.hyps(1) [OF _ g(2)] Suc.hyps(2) q q1(2) by auto
  moreover have "\<not> (ro_status out = IoEof \<and> sk_state s = Connected)" using r(4) Suc.prems by (auto simp: good_def)
  ultimately show ?case
    using g by (subst transportRead.simps) (auto simp: ring_okD [OF E(1)] q q1(1) [unfolded x] r(1) E(2) answer_def Let_def)
qed

lemma transportWrite_good:
  assumes E: "se_tr E = T" and g: "good items cap s"
  shows "\<exists>calls s1. transportWrite E peer s = Some (calls, s1) \<and> good items cap s1"
proof -
  obtain calls s1 where r: "transportWrite E peer s = Some (calls, s1)"
    by (cases "transportWrite E peer s")
      (auto simp: transportWrite_def Let_def split: option.splits prod.splits if_splits)
  have d: "distinct (map fst (sk_write s))" using g by (simp add: good_def sk_inv_def)
  have "tinv (sk_transport s1) \<and> (fresh (sk_transport s) \<longrightarrow> fresh (sk_transport s1))"
    using r g write_inv by (auto simp: transportWrite_def Let_def E good_def split: option.splits prod.splits if_splits)
  with r g transportWrite_ids(2-6) [OF r d] show ?thesis by (auto simp: good_def sk_inv_def)
qed

end

fun event_ok :: "bool \<Rightarrow> io_event \<Rightarrow> bool" where
  \<comment> \<open>the functions of a request are there; a socket that may see the end of a stream is not connected\<close>
  "event_ok eof (BindReq c) \<longleftrightarrow> c \<noteq> None"
| "event_ok eof (ConnectReq c) \<longleftrightarrow> c \<noteq> None \<and> \<not> eof"
| "event_ok eof (ReadReq c) \<longleftrightarrow> c \<noteq> None"
| "event_ok eof (WriteReq data peer c) \<longleftrightarrow> c \<noteq> None"
| "event_ok eof (CloseReq c) \<longleftrightarrow> c \<noteq> None"
| "event_ok eof _ \<longleftrightarrow> True"

context itransport_laws
begin

lemma tick_good:
  assumes E: "sock_env_ok E items cap" "se_tr E = T" "\<not> se_emplace_moves E"
    and e: "event_ok eof e" and g: "good items cap s"
  shows "\<exists>calls s1. tick E e s = Some (calls, s1) \<and> good items cap s1"
proof (cases e)
  case (BindReq c)
  with e obtain i where c: "c = Some i" by auto
  with BindReq g bind_inv show ?thesis
    by (cases "sk_state s = Idle")
      (auto simp: tick_BindReq_def answer_def E(2) good_def sk_inv_def ring_okD [OF E(1)])
next
  case (ConnectReq c)
  with e obtain i where c: "c = Some i" "\<not> eof" by auto
  with ConnectReq g connect_inv show ?thesis
    unfolding good_def
    by (cases "sk_state s = Idle")
      (auto simp: tick_ConnectReq_def answer_def E(2) sk_inv_def ring_okD [OF E(1)])
next
  case (BindRep status endpoint)
  show ?thesis
  proof (cases "sk_state s = BindWait")
    case True
    then obtain x where "items (sk_bind s) = [x]" using g by (auto simp: good_def sk_inv_def length_Suc_conv)
    moreover from this obtain i where "x = Some i" using g True by (cases x) (auto simp: good_def)
    ultimately have q: "items (sk_bind s) = [Some i]" by simp
    obtain q1 where "take_front E (sk_bind s) = (Some i, q1)" "items q1 = []" "cap q1 = cap (sk_bind s)"
      using take_front_ok [OF E(1) q] by blast
    with True q g BindRep show ?thesis
      by (auto simp: tick_BindRep_def Let_def ring_okD [OF E(1)] answer_def good_def sk_inv_def)
  qed (use g BindRep in \<open>auto simp: tick_BindRep_def\<close>)
next
  case (ConnectRep status)
  show ?thesis
  proof (cases "sk_state s = ConnectWait")
    case True
    then obtain x where "items (sk_connect s) = [x]" using g by (auto simp: good_def sk_inv_def length_Suc_conv)
    moreover from this obtain i where "x = Some i" using g True by (cases x) (auto simp: good_def)
    ultimately have q: "items (sk_connect s) = [Some i]" by simp
    obtain q1 where "take_front E (sk_connect s) = (Some i, q1)" "items q1 = []" "cap q1 = cap (sk_connect s)"
      using take_front_ok [OF E(1) q] by blast
    with True q g ConnectRep show ?thesis
      unfolding good_def by (auto simp: tick_ConnectRep_def Let_def ring_okD [OF E(1)] answer_def sk_inv_def)
  qed (use g ConnectRep in \<open>auto simp: tick_ConnectRep_def\<close>)
next
  case (ReadReq c)
  with e obtain i where c: "c = Some i" by auto
  let ?s = "s\<lparr>sk_read := rg_push (se_ring E) c (sk_read s)\<rparr>"
  show ?thesis
  proof (cases "sk_state s = Closed \<or> rg_full (se_ring E) (sk_read s)")
    case False
    then have "length (items (sk_read s)) < cap (sk_read s)" using ring_okD(4) [OF E(1)] by simp
    then have "good items cap ?s"
      using g c by (auto simp: good_def sk_inv_def ring_okD(5,6) [OF E(1)])
    from transportRead_good [OF E(1,2) this] False g ReadReq show ?thesis
      by (auto simp: tick_ReadReq_def good_def)
  qed (use g c ReadReq in \<open>auto simp: tick_ReadReq_def answer_def\<close>)
next
  case ReadReadyRep
  with transportRead_good [OF E(1,2) g] show ?thesis by simp
next
  case (WriteReq data peer c)
  with e obtain i where c: "c = Some i" by auto
  let ?s = "s\<lparr>sk_write := AList.update peer \<lparr>wr_data = data, wr_peer = peer, wr_cb = c\<rparr> (sk_write s)\<rparr>"
  have "good items cap ?s" using g by (simp add: good_def sk_inv_def distinct_update)
  from transportWrite_good [OF E(2) this, of peer] g c WriteReq E(3) show ?thesis
    by (auto simp: tick_WriteReq_def answer_def)
next
  case (WriteReadyRep peer)
  with transportWrite_good [OF E(2) g] show ?thesis by simp
next
  case (CloseReq c)
  with e obtain i where c: "c = Some i" by auto
  show ?thesis
  proof (cases "sk_state s = Closed")
    case True
    with c g CloseReq show ?thesis by (simp add: tick_CloseReq_def)
  next
    case False
    have inv: "sk_inv items cap s" "sk_state s \<noteq> CloseWait" "None \<notin> set (items (sk_bind s))" "None \<notin> set (items (sk_connect s))"
      using g False by (simp_all add: good_def)
    obtain calls s1 where r: "tick E (CloseReq (Some i)) s = Some (calls @ [CallClose i], s1)" "closed_out items s1"
        "sk_transport s1 = it_close T (sk_transport s)" "sk_inv items cap s1"
      using tick_CloseReq_ok [OF E(1) inv(1) False inv(2-4), of i] E(2) by metis
    with g c CloseReq close_inv show ?thesis by (auto simp: good_def closed_out_def)
  qed
qed

end

subsection \<open>Properties of a socket over any transport\<close>

definition demo_ring :: "(nat \<times> cb list) ring" where
  "demo_ring = \<lparr>rg_new = (\<lambda>n. (n, [])), rg_empty = (\<lambda>(n, xs). xs = []), rg_full = (\<lambda>(n, xs). n \<le> length xs),
     rg_push = (\<lambda>x (n, xs). (n, xs @ [x])), rg_take = (\<lambda>(n, xs). (hd xs, n, None # tl xs)),
     rg_pop = (\<lambda>(n, xs). (n, tl xs))\<rparr>"

definition demo_tr :: "u8 list list itransport" where
  \<comment> \<open>the state is the list of messages to be read\<close>
  "demo_tr = \<lparr>it_bind = (\<lambda>t. t), it_connect = (\<lambda>t. t), it_close = (\<lambda>t. []),
     it_resumeRead = (\<lambda>data peer off len t. Some (case t of
         [] \<Rightarrow> (\<lparr>ro_n = 0, ro_data = data, ro_peer = peer, ro_status = IoWouldBlock\<rparr>, [])
       | m # ms \<Rightarrow> (\<lparr>ro_n = length m, ro_data = m, ro_peer = ''p'', ro_status = if m = [] then IoEof else IoOk\<rparr>, ms))),
     it_suspendRead = (\<lambda>t. t), it_resumeWrite = (\<lambda>data peer t. (length data, IoOk, data, t))\<rparr>"

definition demo_sock :: "(u8 list list, nat \<times> cb list) sock_env" where
  "demo_sock = \<lparr>se_tr = demo_tr, se_ring = demo_ring, se_order = (\<lambda>ks. ks), se_emplace_moves = False\<rparr>"

lemma demo_ring_ok: "ring_ok demo_ring snd fst"
  by (auto simp: ring_ok_def demo_ring_def)

lemma demo_sock_ok: "sock_env_ok demo_sock snd fst"
  by (simp add: sock_env_ok_def demo_sock_def demo_ring_ok)

lemma new_socket_conserves:
  assumes "sock_env_ok E items cap" "list_all (\<lambda>e. \<not> is_close e) evs"
    and "run_ops (tick E) evs (new_socket E t) = Some (css, s)"
  shows "called (concat css) + pending items s = (\<Sum>e \<leftarrow> evs. requested e)"
  using run_pending [OF assms(1,3,2) new_socket_inv(1) [OF assms(1)]] new_socket_inv(2) [OF assms(1)] by simp

lemma run_fsm:
  assumes "sock_env_ok E items cap"
  shows "run_ops (tick E) evs s = Some (css, s1) \<Longrightarrow> sk_state s1 = fold fsm evs (sk_state s)"
  by (induction evs arbitrary: s css) (auto simp: tick_fsm [OF assms] split: Option.bind_splits)

text \<open>C17: While a socket is open, whatever its transport does, the callbacks called so far and the requests
  that wait are together exactly the requests made: none is answered twice and none is lost.\<close>

theorem socket_conserves_requests:
  assumes "sock_env_ok E items cap" "list_all (\<lambda>e. \<not> is_close e) evs"
    and "run_ops (tick E) evs (new_socket E t) = Some (css, s)"
  shows "called (concat css) + pending items s = (\<Sum>e \<leftarrow> evs. requested e)"
  by (rule new_socket_conserves [OF assms])

definition demo_events :: "io_event list" where
  "demo_events = [ConnectReq (Some 1), ReadReq (Some 2), ConnectRep IoOk, WriteReq [7] [] (Some 3), ReadReq (Some 4),
     ReadReq (Some 5)]"

lemma demo_run:
  "run_ops (tick demo_sock) demo_events (new_socket demo_sock [[1], [2, 3]]) =
     Some ([[], [CallRead 2 IoOk [1] ''p''], [CallConnect 1 IoOk], [CallWrite 3 IoOk], [CallRead 4 IoOk [2, 3] ''p''], []],
       \<lparr>sk_state = Connected, sk_transport = [], sk_bind = (1, []), sk_connect = (1, []), sk_read = (1024, [Some 5]),
        sk_write = []\<rparr>)"
  by (simp add: demo_events_def new_socket_def demo_sock_def demo_ring_def demo_tr_def tick_ConnectReq_def
      tick_ConnectRep_def tick_ReadReq_def tick_WriteReq_def transportRead.simps transportWrite_def take_front_def
      answer_def answer_if_def Let_def)

theorem socket_conserves_requests_witness:
  "\<exists>css s. run_ops (tick demo_sock) demo_events (new_socket demo_sock [[1], [2, 3]]) = Some (css, s)
     \<and> called (concat css) + pending snd s = {#1, 2, 3, 4, 5#} \<and> pending snd s = {#5#}"
  using socket_conserves_requests [OF demo_sock_ok _ demo_run]
  by (simp add: demo_run) (simp add: demo_events_def pending_def)



text \<open>When the transport reports data, each waiting read takes the transport's next result, in the order
  the reads were made, and is answered with it, until the transport has none; the others keep waiting. The
  transport is suspended once none waits, and nothing else of the socket changes.\<close>

theorem socket_reads_in_order:
  assumes "sock_env_ok E items cap" "tick E ReadReadyRep s = Some (calls, s1)"
  shows "(\<exists>t. read_spec (it_resumeRead (se_tr E) [] [] 0 0) (items (sk_read s)) (sk_transport s) calls (items (sk_read s1)) t
      \<and> sk_transport s1 = (if items (sk_read s1) = [] then it_suspendRead (se_tr E) t else t))
    \<and> items (sk_read s) = map (Some \<circ> call_id) calls @ items (sk_read s1)
    \<and> sk_state s1 = sk_state s \<and> sk_bind s1 = sk_bind s \<and> sk_connect s1 = sk_connect s \<and> sk_write s1 = sk_write s"
  using transportRead_fifo [OF assms(1), of s calls s1] transportRead_spec [OF assms(1), of s calls s1] assms(2)
  by (auto simp: same_but_read_def)

definition demo_waiting :: "socket_state \<Rightarrow> u8 list list \<Rightarrow> cb list \<Rightarrow> cb list \<Rightarrow> (u8 list list, nat \<times> cb list) socket" where
  "demo_waiting st ms conn rds = \<lparr>sk_state = st, sk_transport = ms, sk_bind = (1, []), sk_connect = (1, conn),
     sk_read = (1024, rds), sk_write = []\<rparr>"

theorem socket_reads_in_order_witness:
  "\<exists>calls s1. tick demo_sock ReadReadyRep (demo_waiting Bound [[1], [2]] [] [Some 7, Some 8, Some 9]) = Some (calls, s1)
     \<and> [Some 7, Some 8, Some 9] = map (Some \<circ> call_id) calls @ snd (sk_read s1) \<and> length calls = 2"
proof -
  have r: "tick demo_sock ReadReadyRep (demo_waiting Bound [[1], [2]] [] [Some 7, Some 8, Some 9]) =
      Some ([CallRead 7 IoOk [1] ''p'', CallRead 8 IoOk [2] ''p''], demo_waiting Bound [] [] [Some 9])"
    by (simp add: demo_waiting_def demo_sock_def demo_ring_def demo_tr_def transportRead.simps take_front_def
        answer_def Let_def)
  from socket_reads_in_order [OF demo_sock_ok r] r show ?thesis by (simp add: demo_waiting_def)
qed

text \<open>The end of the stream on a connected socket is fatal: the close that it triggers calls an empty
  function, and the read that met it is never answered.\<close>

theorem socket_eof_faults:
  assumes "sock_env_ok E items cap" "sk_state s = Connected" "items (sk_read s) \<noteq> []"
    and "it_resumeRead (se_tr E) [] [] 0 0 (sk_transport s) = Some (out, t1)" "ro_n out = 0" "ro_status out = IoEof"
  shows "tick E ReadReadyRep s = None"
  using assms
  by (cases "take_front E (sk_read s)")
    (simp add: transportRead.simps [of E s] ring_okD [OF assms(1)] tick_CloseReq_None Let_def)

theorem socket_eof_faults_witness:
  "tick demo_sock ReadReadyRep (demo_waiting Connected [[]] [] [Some 7]) = None"
  using socket_eof_faults [OF demo_sock_ok, of "demo_waiting Connected [[]] [] [Some 7]"
    "\<lparr>ro_n = 0, ro_data = [], ro_peer = ''p'', ro_status = IoEof\<rparr>" "[]"]
  by (simp add: demo_waiting_def demo_sock_def demo_tr_def)

text \<open>A connection that fails while reads are waiting strands them: the socket is then closed, a later
  close answers itself only, and no event but a report of data would reach the reads.\<close>

theorem socket_failed_connect_strands_reads:
  assumes "sock_env_ok E items cap" "sk_state s = ConnectWait" "items (sk_connect s) = [Some i]" "status \<noteq> IoOk"
  shows "\<exists>s1. tick E (ConnectRep status) s = Some ([CallConnect i status], s1) \<and> sk_state s1 = Closed
    \<and> items (sk_read s1) = items (sk_read s) \<and> tick E (CloseReq (Some j)) s1 = Some ([CallClose j], s1)"
proof -
  obtain q1 where "take_front E (sk_connect s) = (Some i, q1)" using take_front_ok [OF assms(1,3)] by blast
  with assms show ?thesis
    by (simp add: tick_ConnectRep_def tick_CloseReq_def Let_def ring_okD [OF assms(1)] answer_def answer_if_def)
qed

theorem socket_failed_connect_strands_reads_witness:
  "\<exists>s1. tick demo_sock (ConnectRep IoFatal) (demo_waiting ConnectWait [] [Some 1] [Some 7]) = Some ([CallConnect 1 IoFatal], s1)
    \<and> snd (sk_read s1) = [Some 7] \<and> tick demo_sock (CloseReq (Some 2)) s1 = Some ([CallClose 2], s1)"
  using socket_failed_connect_strands_reads [OF demo_sock_ok, of "demo_waiting ConnectWait [] [Some 1] [Some 7]" 1 IoFatal 2]
  by (auto simp: demo_waiting_def)

end
