(* ===== verification/SocketTcp.thy ===== *)
theory SocketTcp
  imports SocketProps
begin

section \<open>A socket over the TCP transport\<close>

text \<open>
  The TCP transport keeps the laws a socket needs, so that a socket over it never faults, keeps the
  transport's invariant and answers every request; then what goes wrong between the two.
\<close>

subsection \<open>The transport keeps the laws\<close>

definition recv_eof :: "'w rpc_env \<Rightarrow> bool" where
  \<comment> \<open>some peer may end its stream\<close>
  "recv_eof N \<longleftrightarrow> (\<exists>fd n w. fst (re_recv N fd n w) = Inl [])"

lemma sys_recv_eof: "sys (re_recv N fd n) t = (Inl [], t1) \<Longrightarrow> recv_eof N"
  by (auto simp: sys_eq recv_eof_def)

lemma read_hot_eof: "read_hot N out off cap fd c t = Some (out1, t1) \<Longrightarrow> ro_status out1 = IoEof \<Longrightarrow> recv_eof N"
  by (auto simp: read_hot_def Let_def dest: sys_recv_eof split: prod.splits sum.splits if_splits Option.bind_splits)

lemma read_scan_eof: "read_scan N out off cap fds t = Some (out1, t1) \<Longrightarrow> ro_status out1 = IoEof \<Longrightarrow> recv_eof N"
proof (induction fds arbitrary: t)
  case (Cons fd fds)
  then show ?case
    by (auto simp: Let_def dest: sys_recv_eof
        split: prod.splits sum.splits if_splits Option.bind_splits option.splits)
qed auto

lemma resumeRead_eof:
  assumes "rpc_resumeRead N data peer off len t = Some (out, t1)" "ro_status out = IoEof"
  shows "recv_eof N"
  using assms read_hot_eof [of N _ off "if 0 < len then len else 1024" _ _ t out t1]
    read_scan_eof [of N _ off "if 0 < len then len else 1024" _ "t\<lparr>rt_hot_read := []\<rparr>" out t1]
  by (auto simp: rpc_resumeRead_def Let_def split: Option.bind_splits option.splits if_splits)

definition tcp_ok :: "'w rpc_env \<Rightarrow> ('w \<Rightarrow> int set) \<Rightarrow> 'w rpc_tcp \<Rightarrow> bool" where
  "tcp_ok N op t \<longleftrightarrow> system_ok N op \<and> re_alloc N = (\<lambda>_. True) \<and> (\<exists>base. rt_inv op base t)"

definition tcp_fresh :: "'w rpc_env \<Rightarrow> ('w \<Rightarrow> int set) \<Rightarrow> 'w rpc_tcp \<Rightarrow> bool" where
  "tcp_fresh N op t \<longleftrightarrow> tcp_ok N op t \<and> rt_listen_fd t < 0 \<and> rt_client_fd t < 0 \<and> \<not> rt_connected t"

lemma tcp_ok_keeps: "tcp_ok N op t \<Longrightarrow> keeps op t t1 \<Longrightarrow> tcp_ok N op t1"
  using rt_inv_keeps by (fastforce simp: tcp_ok_def)

lemma tcp_fresh_keeps: "tcp_fresh N op t \<Longrightarrow> keeps op t t1 \<Longrightarrow> tcp_fresh N op t1"
  using tcp_ok_keeps by (fastforce simp: tcp_fresh_def keeps_def rt_own_def)

interpretation tcp_laws: itransport_laws "tcp_itransport N" "tcp_ok N op" "tcp_fresh N op" "recv_eof N" for N op
proof
  fix t :: "'a rpc_tcp" and data data1 :: "u8 list" and peer n status t1
  show "tcp_ok N op (it_bind (tcp_itransport N) t)" if "tcp_fresh N op t"
    using that rt_inv_bind by (fastforce simp: tcp_fresh_def tcp_ok_def tcp_itransport_def)
  show "tcp_ok N op (it_connect (tcp_itransport N) t)" if "tcp_fresh N op t"
    using that rt_inv_connect by (fastforce simp: tcp_fresh_def tcp_ok_def tcp_itransport_def)
  show "tcp_ok N op (it_close (tcp_itransport N) t)" if "tcp_ok N op t"
    using that rpc_close_ok(1) by (fastforce simp: tcp_ok_def tcp_itransport_def)
  show "tcp_ok N op (it_suspendRead (tcp_itransport N) t)
      \<and> (tcp_fresh N op t \<longrightarrow> tcp_fresh N op (it_suspendRead (tcp_itransport N) t))" if "tcp_ok N op t"
    using that by (simp add: tcp_itransport_def tcp_ok_keeps [OF _ suspendRead_keeps] tcp_fresh_keeps [OF _ suspendRead_keeps])
  show "\<exists>out t1. it_resumeRead (tcp_itransport N) [] [] 0 0 t = Some (out, t1) \<and> tcp_ok N op t1
      \<and> (tcp_fresh N op t \<longrightarrow> tcp_fresh N op t1) \<and> (ro_status out = IoEof \<longrightarrow> recv_eof N)" if t: "tcp_ok N op t"
  proof -
    obtain out t1 where r: "rpc_resumeRead N [] [] 0 0 t = Some (out, t1)" "keeps op t t1"
      using resumeRead_keeps [of N op 0 0 "[]" "[]" t] t by (auto simp: tcp_ok_def vec_max_def)
    with t resumeRead_eof [OF r(1)] tcp_ok_keeps tcp_fresh_keeps show ?thesis
      by (fastforce simp: tcp_itransport_def)
  qed
  show "tcp_ok N op t1 \<and> (tcp_fresh N op t \<longrightarrow> tcp_fresh N op t1)"
    if "tcp_ok N op t" "it_resumeWrite (tcp_itransport N) data peer t = (n, status, data1, t1)"
    using that resumeWrite_keeps [of N op data peer t n status data1 t1] tcp_ok_keeps tcp_fresh_keeps
    by (fastforce simp: tcp_itransport_def tcp_ok_def)
qed

text \<open>The events of a socket over TCP are safe operations.\<close>

definition over_tcp :: "('w rpc_tcp, 'q) sock_env \<Rightarrow> 'w rpc_env \<Rightarrow> ('q \<Rightarrow> cb list) \<Rightarrow> ('q \<Rightarrow> nat) \<Rightarrow> bool" where
  "over_tcp E N items cap \<longleftrightarrow> sock_env_ok E items cap \<and> se_tr E = tcp_itransport N \<and> \<not> se_emplace_moves E"

interpretation sock: safe_ops "tick E" "event_ok (recv_eof N)"
  "\<lambda>n s. over_tcp E N items cap \<and> tcp_laws.good N op items cap s" for E N items cap op
  by unfold_locales (use tcp_laws.tick_good in \<open>fastforce simp: over_tcp_def\<close>)

lemma tcp_new_good:
  assumes "over_tcp E N items cap" "system_ok N op" "re_alloc N = (\<lambda>_. True)" "rpc_new N address w = Inr t"
  shows "tcp_laws.good N op items cap (new_socket E t)"
proof -
  have E: "sock_env_ok E items cap" using assms(1) by (simp add: over_tcp_def)
  have "rt_inv op (op w) t" by (rule rpc_new_inv [OF assms(4)])
  moreover have "rt_listen_fd t < 0" "rt_client_fd t < 0" "\<not> rt_connected t"
    using assms(4) by (auto simp: rpc_new_def split: option.splits)
  ultimately show ?thesis
    using assms(2,3) new_socket_inv(1) [OF E]
    by (auto simp: tcp_laws.good_def tcp_ok_def tcp_fresh_def new_socket_def ring_okD [OF E])
qed

subsection \<open>Every request is answered\<close>

fun reports_failure :: "io_event \<Rightarrow> bool" where
  "reports_failure (BindRep status endpoint) \<longleftrightarrow> status \<noteq> IoOk"
| "reports_failure (ConnectRep status) \<longleftrightarrow> status \<noteq> IoOk"
| "reports_failure e \<longleftrightarrow> False"

lemma fsm_open:
  "list_all (\<lambda>e. \<not> is_close e \<and> \<not> reports_failure e) evs \<Longrightarrow> st \<noteq> Closed \<Longrightarrow> st \<noteq> CloseWait \<Longrightarrow>
     fold fsm evs st \<noteq> Closed \<and> fold fsm evs st \<noteq> CloseWait"
proof (induction evs arbitrary: st)
  case (Cons e evs)
  have "fsm e st \<noteq> Closed \<and> fsm e st \<noteq> CloseWait"
    using Cons.prems by (cases e; cases st) auto
  with Cons show ?case by simp
qed simp


definition sock_env_for :: "'w rpc_env \<Rightarrow> ('w rpc_tcp, nat \<times> cb list) sock_env" where
  "sock_env_for N = \<lparr>se_tr = tcp_itransport N, se_ring = demo_ring, se_order = (\<lambda>ks. ks), se_emplace_moves = False\<rparr>"

lemma sock_env_for_ok: "over_tcp (sock_env_for N) N snd fst"
  by (simp add: over_tcp_def sock_env_ok_def sock_env_for_def demo_ring_ok)


subsection \<open>Where the promise fails\<close>

text \<open>When a report that a peer is writable is handled after the close, the callback of the write that
  was waiting for this peer is called a second time.\<close>

theorem tcp_late_write_ready_answers_twice:
  assumes "over_tcp E N items cap" "sk_inv items cap s" "sk_state s = Bound"
    and "map_of (sk_write s) peer = Some req" "wr_cb req = Some i" "peer \<noteq> []"
  shows "\<exists>calls s1 s2. tick E (CloseReq (Some j)) s = Some (calls, s1) \<and> CallWrite i IoError \<in> set calls
    \<and> tick E (WriteReadyRep peer) s1 = Some ([CallWrite i IoFatal], s2)"
proof -
  have E: "sock_env_ok E items cap" and T: "se_tr E = tcp_itransport N" using assms(1) by (simp_all add: over_tcp_def)
  have q: "None \<notin> set (items (sk_bind s))" "None \<notin> set (items (sk_connect s))" "sk_state s \<noteq> Closed" "sk_state s \<noteq> CloseWait"
    using assms(2,3) by (simp_all add: sk_inv_def)
  obtain calls s1 where c: "tick E (CloseReq (Some j)) s = Some (calls @ [CallClose j], s1)" "closed_out items s1"
      "sk_transport s1 = it_close (se_tr E) (sk_transport s)" "sk_write s1 = sk_write s"
      "set (fail_writes E (sk_write s)) \<subseteq> set calls"
    using tick_CloseReq_ok [OF E assms(2) q(3,4,1,2), of j] by metis
  have "CallWrite i IoError \<in> set calls" using fail_writes_each [OF E assms(4,5)] c(5) by blast
  moreover have "rpc_resumeWrite N (wr_data req) peer (sk_transport s1) = (minus_one, IoFatal, wr_data req, sk_transport s1)"
    using assms(6) by (simp add: c(3) T tcp_itransport_def rpc_resumeWrite_def rpc_resolve_def rpc_close_def Let_def)
  ultimately show ?thesis
    using c(1,2,4) assms(4,5) T
    by (auto simp: transportWrite_def closed_out_def tcp_itransport_def answer_if_def Let_def)
qed

definition demo_serving :: "cb list \<Rightarrow> (string \<times> wreq) list \<Rightarrow> int list rpc_tcp \<Rightarrow> (int list rpc_tcp, nat \<times> cb list) socket" where
  "demo_serving rds ws t = \<lparr>sk_state = Bound, sk_transport = t, sk_bind = (1, []), sk_connect = (1, []),
     sk_read = (1024, rds), sk_write = ws\<rparr>"

theorem tcp_late_write_ready_answers_twice_witness:
  "\<exists>calls s1 s2. tick (sock_env_for demo_env) (CloseReq (Some 8))
        (demo_serving [] [(''p'', \<lparr>wr_data = [1], wr_peer = ''p'', wr_cb = Some 7\<rparr>)] demo_bound) = Some (calls, s1)
    \<and> CallWrite 7 IoError \<in> set calls \<and> tick (sock_env_for demo_env) (WriteReadyRep ''p'') s1 = Some ([CallWrite 7 IoFatal], s2)"
  by (rule tcp_late_write_ready_answers_twice [OF sock_env_for_ok, where req = "\<lparr>wr_data = [1], wr_peer = ''p'', wr_cb = Some 7\<rparr>"])
    (simp_all add: demo_serving_def sk_inv_def)

text \<open>A read that fails in the kernel is answered as a success: the transport returns -1 as an unsigned
  size, and the user receives 1024 zero bytes from the empty peer.\<close>

theorem tcp_failed_read_reported_ok:
  assumes "over_tcp E N items cap" "re_alloc N = (\<lambda>_. True)" "items (sk_read s) = [Some i]"
    and "rt_hot_read (sk_transport s) = peer" "peer \<noteq> []" "map_of (rt_fd_by_peer (sk_transport s)) peer = Some fd"
    and "map_of (rt_conns (sk_transport s)) fd = Some c"
    and "re_recv N fd 1024 (rt_world (sk_transport s)) = (Inr errno, w)" "\<not> would_block errno"
  shows "\<exists>s1. tick E ReadReadyRep s = Some ([CallRead i IoOk (replicate 1024 0) []], s1) \<and> sk_state s1 = sk_state s"
proof -
  have E: "sock_env_ok E items cap" and T: "se_tr E = tcp_itransport N" using assms(1) by (simp_all add: over_tcp_def)
  obtain q1 where q: "take_front E (sk_read s) = (Some i, q1)" "items q1 = []" using take_front_ok [OF E assms(3)] by blast
  have al: "vec_can_grow (re_alloc N) 1024" by (simp add: vec_can_grow_def assms(2) vec_max_def)
  obtain t1 where r: "rpc_resumeRead N [] [] 0 0 (sk_transport s) =
      Some (\<lparr>ro_n = minus_one, ro_data = replicate 1024 0, ro_peer = [], ro_status = IoFatal\<rparr>, t1)"
    using assms(4-9) al by (simp add: rpc_resumeRead_def read_hot_def sys_def Let_def vec_resize_def)
  show ?thesis
    using assms(3) q r
    by (simp add: transportRead.simps [of E s] transportRead.simps [of E "s\<lparr>sk_transport := t1, sk_read := q1\<rparr>"]
        ring_okD [OF E] T tcp_itransport_def answer_def Let_def minus_one_def)
qed

definition broken_env :: "int list rpc_env" where
  \<comment> \<open>receiving fails, sending takes one byte\<close>
  "broken_env = demo_env\<lparr>re_recv := (\<lambda>fd n w. (Inr 104, w)), re_send := (\<lambda>fd bs w. (Inl 1, w))\<rparr>"

definition demo_hot :: "int list rpc_tcp" where
  "demo_hot = \<lparr>rt_host = ''h'', rt_port = 80, rt_listen_fd = 1, rt_client_fd = -1, rt_hot_read = ''p'', rt_hot_write = [],
     rt_connected = False, rt_fd_by_peer = [(''p'', 2)],
     rt_conns = [(2, \<lparr>cn_fd = 2, cn_peer = ''p'', cn_read_armed = True, cn_write_armed = False\<rparr>)], rt_log = [],
     rt_world = [2, 1]\<rparr>"

theorem tcp_failed_read_reported_ok_witness:
  "\<exists>s1. tick (sock_env_for broken_env) ReadReadyRep (demo_serving [Some 7] [] demo_hot)
    = Some ([CallRead 7 IoOk (replicate 1024 0) []], s1) \<and> sk_state s1 = Bound"
  using tcp_failed_read_reported_ok [OF sock_env_for_ok, of broken_env "demo_serving [Some 7] [] demo_hot" 7 "''p''" 2
      "\<lparr>cn_fd = 2, cn_peer = ''p'', cn_read_armed = True, cn_write_armed = False\<rparr>" 104 "[2, 1]"]
  by (simp add: demo_serving_def demo_hot_def broken_env_def demo_env_def would_block_def errno_defs)

text \<open>A write that the kernel takes in part is answered as a success and forgotten: the rest of its
  bytes is never sent.\<close>

theorem tcp_short_write_reported_ok:
  assumes "over_tcp E N items cap" "sk_inv items cap s" "sk_state s = Bound"
    and "map_of (sk_write s) peer = Some req" "wr_cb req = Some i"
    and "rpc_resolve peer (sk_transport s) = Inr key"
    and "re_send N (cn_fd (the (map_of (rt_conns (sk_transport s)) key))) (wr_data req) (rt_world (sk_transport s)) = (Inl n, w)"
    and "0 < n" "n < length (wr_data req)"
  shows "\<exists>s1. tick E (WriteReadyRep peer) s = Some ([CallWrite i IoOk], s1) \<and> map_of (sk_write s1) peer = None
    \<and> sk_transport s1 = (sk_transport s)\<lparr>rt_world := w\<rparr>"
  using assms
  by (simp add: over_tcp_def transportWrite_def tcp_itransport_def rpc_resumeWrite_def sys_def Let_def answer_if_def
      delete_conv')

theorem tcp_short_write_reported_ok_witness:
  "\<exists>s1. tick (sock_env_for broken_env) (WriteReadyRep ''p'')
      (demo_serving [] [(''p'', \<lparr>wr_data = [1, 2, 3], wr_peer = ''p'', wr_cb = Some 7\<rparr>)] demo_hot)
    = Some ([CallWrite 7 IoOk], s1) \<and> map_of (sk_write s1) ''p'' = None"
proof -
  let ?s = "demo_serving [] [(''p'', \<lparr>wr_data = [1, 2, 3], wr_peer = ''p'', wr_cb = Some 7\<rparr>)] demo_hot"
  have "sk_inv snd fst ?s" by (simp add: demo_serving_def sk_inv_def)
  from tcp_short_write_reported_ok [OF sock_env_for_ok this, where N = broken_env and peer = "''p''" and key = 2 and n = 1
      and w = "[2, 1]" and i = 7 and req = "\<lparr>wr_data = [1, 2, 3], wr_peer = ''p'', wr_cb = Some 7\<rparr>"]
  show ?thesis
    by (auto simp: demo_serving_def demo_hot_def broken_env_def demo_env_def rpc_resolve_def)
qed

end
