(* ===== verification/SocketLoop.thy ===== *)
theory SocketLoop
  imports SocketTcp
begin

section \<open>A socket in its event loop\<close>

text \<open>
  Composes the socket, its TCP transport and the loop that drives both, as \<open>socket.cpp\<close> and
  \<open>tcp_transport.cpp\<close> wire them: the constructor of \<open>Socket\<close> gives the transport a \<open>replay_\<close> that posts the
  event to the loop, the members called by the user post a request, and the callbacks that the transport
  registers with the watcher call its handlers. A state holds the socket (with the transport in it), the
  events posted and not yet handled, and the callbacks called so far. A step is a request of the user, the
  handling of a posted event, or a registered descriptor that is ready. Any posted event may be the next to
  be handled: this covers a loop that runs them in order and one that runs them inline, which the reader of
  the exercise is to write; in both places every \<open>replay_\<close> is the last statement of what calls it.
\<close>

subsection \<open>The composition\<close>

fun is_report :: "io_event \<Rightarrow> bool" where
  "is_report (BindRep status endpoint) = True"
| "is_report (ConnectRep status) = True"
| "is_report ReadReadyRep = True"
| "is_report (WriteReadyRep peer) = True"
| "is_report _ = False"

fun replays :: "rpc_effect list \<Rightarrow> io_event list" where
  \<comment> \<open>the events passed to \<open>replay_\<close>\<close>
  "replays [] = []"
| "replays (RReplay ev # es) = ev # replays es"
| "replays (e # es) = replays es"

definition new_replays :: "'w rpc_tcp \<Rightarrow> 'w rpc_tcp \<Rightarrow> io_event list" where
  "new_replays t t1 = replays (drop (length (rt_log t)) (rt_log t1))"

record ('w, 'q) loop_state =
  lp_socket :: "('w rpc_tcp, 'q) socket"
  lp_posted :: "io_event list"
  lp_made :: "io_event list" \<comment> \<open>the requests of the user\<close>
  lp_calls :: "sk_call list"

definition new_loop :: "('w rpc_tcp, 'q) socket \<Rightarrow> ('w, 'q) loop_state" where
  "new_loop s = \<lparr>lp_socket = s, lp_posted = [], lp_made = [], lp_calls = []\<rparr>"

datatype loop_event =
    LPost io_event
  | LHandle nat \<comment> \<open>a position among the posted events\<close>
  | LReady int wflag

fun ready_handler :: "'w rpc_env \<Rightarrow> int \<Rightarrow> wflag \<Rightarrow> 'w rpc_tcp \<Rightarrow> 'w rpc_tcp" where
  \<comment> \<open>the functions passed to \<open>ew_->watch\<close>\<close>
  "ready_handler N fd RDONLY t = (if fd = rt_listen_fd t then onAcceptReady N t else onReadReady fd t)"
| "ready_handler N fd WRONLY t =
     (if connecting t \<and> fd = rt_client_fd t then onConnectReady N t else onWriteReady fd t)"

fun loop_step :: "('w rpc_tcp, 'q) sock_env \<Rightarrow> 'w rpc_env \<Rightarrow> loop_event \<Rightarrow> ('w, 'q) loop_state \<Rightarrow>
    ('w, 'q) loop_state option" where
  "loop_step E N (LPost ev) l = Some (l\<lparr>lp_posted := lp_posted l @ [ev], lp_made := lp_made l @ [ev]\<rparr>)"
| "loop_step E N (LHandle k) l = do {
     (calls, s1) \<leftarrow> tick E (lp_posted l ! k) (lp_socket l);
     Some (l\<lparr>lp_socket := s1,
             lp_posted := take k (lp_posted l) @ drop (Suc k) (lp_posted l)
               @ new_replays (sk_transport (lp_socket l)) (sk_transport s1),
             lp_calls := lp_calls l @ calls\<rparr>) }"
| "loop_step E N (LReady fd flag) l =
     (let t = sk_transport (lp_socket l); t1 = ready_handler N fd flag t in
      Some (l\<lparr>lp_socket := (lp_socket l)\<lparr>sk_transport := t1\<rparr>, lp_posted := lp_posted l @ new_replays t t1\<rparr>))"

fun loop_enabled :: "loop_event \<Rightarrow> ('w, 'q) loop_state \<Rightarrow> bool" where
  "loop_enabled (LPost ev) l \<longleftrightarrow> \<not> is_report ev"
| "loop_enabled (LHandle k) l \<longleftrightarrow> k < length (lp_posted l)"
| "loop_enabled (LReady fd flag) l \<longleftrightarrow> (fd, flag) \<in> registered (rt_log (sk_transport (lp_socket l)))"

inductive loop_reach :: "('w rpc_tcp, 'q) sock_env \<Rightarrow> 'w rpc_env \<Rightarrow> ('w, 'q) loop_state \<Rightarrow> ('w, 'q) loop_state \<Rightarrow> bool"
  for E :: "('w rpc_tcp, 'q) sock_env" and N :: "'w rpc_env" and l0 :: "('w, 'q) loop_state" where
  loop_refl: "loop_reach E N l0 l0"
| loop_trans: "loop_reach E N l0 l \<Longrightarrow> loop_enabled x l \<Longrightarrow> loop_step E N x l = Some l1 \<Longrightarrow> loop_reach E N l0 l1"

fun loop_run :: "('w rpc_tcp, 'q) sock_env \<Rightarrow> 'w rpc_env \<Rightarrow> loop_event list \<Rightarrow> ('w, 'q) loop_state \<Rightarrow>
    ('w, 'q) loop_state option" where
  \<comment> \<open>a given interleaving\<close>
  "loop_run E N [] l = Some l"
| "loop_run E N (x # xs) l =
     (if loop_enabled x l then do { l1 \<leftarrow> loop_step E N x l; loop_run E N xs l1 } else None)"

lemma loop_run_reach: "loop_run E N xs l = Some l1 \<Longrightarrow> loop_reach E N l0 l \<Longrightarrow> loop_reach E N l0 l1"
proof (induction xs arbitrary: l)
  case (Cons x xs)
  then show ?case by (auto split: if_splits Option.bind_splits intro: loop_trans)
qed simp

subsection \<open>What a transport may do under a socket\<close>

text \<open>
  A relation on the states of a transport that is reflexive, transitive and kept by each of its virtual
  functions is kept by every event a socket handles.
\<close>

locale transport_rel =
  fixes T :: "'t itransport" and R :: "'t \<Rightarrow> 't \<Rightarrow> bool"
  assumes rel_refl: "R t t" and rel_trans: "R t t1 \<Longrightarrow> R t1 t2 \<Longrightarrow> R t t2"
    and bind_rel: "R t (it_bind T t)" and connect_rel: "R t (it_connect T t)" and close_rel: "R t (it_close T t)"
    and suspend_rel: "R t (it_suspendRead T t)"
    and read_rel: "it_resumeRead T [] [] 0 0 t = Some (out, t1) \<Longrightarrow> R t t1"
    and write_rel: "it_resumeWrite T data peer t = (n, status, data1, t1) \<Longrightarrow> R t t1"
begin

lemma spec_rel: "read_spec (it_resumeRead T [] [] 0 0) cs t calls left t1 \<Longrightarrow> R t t1"
proof (induction rule: read_spec.induct)
  case (served t out t1 cs calls left t2 i)
  with read_rel rel_trans show ?case by blast
qed (auto intro: rel_refl read_rel)

lemma transportRead_rel:
  assumes "sock_env_ok E items cap" "se_tr E = T" "transportRead E s = Some (calls, s1)"
  shows "R (sk_transport s) (sk_transport s1)"
  using transportRead_spec [OF assms(1,3)] assms(2) spec_rel suspend_rel rel_trans by (metis (full_types))

lemma transportWrite_rel:
  assumes "se_tr E = T" "transportWrite E peer s = Some (calls, s1)"
  shows "R (sk_transport s) (sk_transport s1)"
  using assms write_rel rel_refl
  by (auto simp: transportWrite_def Let_def split: option.splits prod.splits if_splits)

lemma tick_rel:
  assumes E: "sock_env_ok E items cap" "se_tr E = T" and t: "tick E e s = Some (calls, s1)"
  shows "R (sk_transport s) (sk_transport s1)"
proof (cases e)
  case (ReadReq c)
  with t transportRead_rel [OF E, of "s\<lparr>sk_read := rg_push (se_ring E) c (sk_read s)\<rparr>"] rel_refl show ?thesis
    by (auto simp: tick_ReadReq_def answer_Some split: if_splits)
next
  case ReadReadyRep
  with t transportRead_rel [OF E, of s] show ?thesis by simp
next
  case (WriteReq data peer c)
  with t transportWrite_rel [OF E(2), of peer
      "s\<lparr>sk_write := AList.update peer \<lparr>wr_data = data, wr_peer = peer, wr_cb = c\<rparr> (sk_write s)\<rparr>"] rel_refl
  show ?thesis by (auto simp: tick_WriteReq_def answer_Some split: if_splits)
next
  case (WriteReadyRep peer)
  with t transportWrite_rel [OF E(2), of peer s] show ?thesis by simp
next
  case (CloseReq c)
  have "sk_transport s1 = sk_transport s \<or> sk_transport s1 = it_close T (sk_transport s)"
    using t CloseReq E(2)
    by (auto simp: tick_CloseReq_def answer_Some Let_def split: Option.bind_splits if_splits prod.splits)
  with rel_refl close_rel show ?thesis by metis
qed (use t E(2) rel_refl bind_rel connect_rel in \<open>auto simp: tick_BindReq_def tick_BindRep_def tick_ConnectReq_def
      tick_ConnectRep_def answer_Some Let_def split: if_splits prod.splits\<close>)

end

subsection \<open>What the transport posts\<close>

text \<open>The transport only extends its log, and what it posts are reports.\<close>

definition reporting :: "'w rpc_tcp \<Rightarrow> 'w rpc_tcp \<Rightarrow> bool" where
  "reporting t t1 \<longleftrightarrow> (\<exists>es. rt_log t1 = rt_log t @ es \<and> list_all is_report (replays es))"

lemma replays_append [simp]: "replays (es @ es') = replays es @ replays es'"
  by (induction es rule: replays.induct) simp_all

lemma reporting_refl [wf_intros]: "reporting t t"
  by (simp add: reporting_def)

lemma reporting_trans: "reporting t t1 \<Longrightarrow> reporting t1 t2 \<Longrightarrow> reporting t t2"
  by (fastforce simp: reporting_def)

lemma reporting_new: "reporting t t1 \<Longrightarrow> list_all is_report (new_replays t t1)"
  by (auto simp: reporting_def new_replays_def)

lemma reporting_fields [simp]:
  "reporting t (t1\<lparr>rt_hot_read := p\<rparr>) = reporting t t1" "reporting t (t1\<lparr>rt_hot_write := p\<rparr>) = reporting t t1"
  "reporting t (t1\<lparr>rt_listen_fd := fd\<rparr>) = reporting t t1" "reporting t (t1\<lparr>rt_client_fd := fd\<rparr>) = reporting t t1"
  "reporting t (t1\<lparr>rt_connected := b\<rparr>) = reporting t t1" "reporting t (t1\<lparr>rt_conns := cs\<rparr>) = reporting t t1"
  "reporting t (t1\<lparr>rt_fd_by_peer := ps\<rparr>) = reporting t t1" "reporting t (t1\<lparr>rt_world := w\<rparr>) = reporting t t1"
  by (simp_all add: reporting_def)

lemma reporting_from [simp]: "reporting (t\<lparr>rt_hot_read := p\<rparr>) t1 = reporting t t1"
  by (simp add: reporting_def)

lemma reporting_emit: "reporting t t1 \<Longrightarrow> list_all is_report (replays [e]) \<Longrightarrow> reporting t (emit e t1)"
  by (fastforce simp: reporting_def emit_def)

lemma reporting_emits [intro]:
  "reporting t t1 \<Longrightarrow> reporting t (emit (RWatch fd f) t1)" "reporting t t1 \<Longrightarrow> reporting t (emit (RUnwatch fd f) t1)"
  "reporting t t1 \<Longrightarrow> reporting t (sys_close E fd t1)"
  "reporting t t1 \<Longrightarrow> is_report ev \<Longrightarrow> reporting t (emit (RReplay ev) t1)"
  by (simp_all add: reporting_emit sys_close_def)

lemma reporting_sys [intro]: "reporting t t1 \<Longrightarrow> reporting t (snd (sys f t1))"
  by (simp add: sys_eq)

lemma reporting_arm [intro]: "reporting t t1 \<Longrightarrow> reporting t (on_conn fd (arm f b) t1)"
  by (auto simp: on_conn_def arm_def split: option.splits)

lemma reporting_new_conn [simp]: "reporting t (new_conn fd peer t1) = reporting t t1"
  by (simp add: reporting_def new_conn_def)

lemma reporting_fold:
  "(\<And>x t1. reporting t t1 \<Longrightarrow> reporting t (f x t1)) \<Longrightarrow> reporting t t1 \<Longrightarrow> reporting t (fold f xs t1)"
  by (induction xs arbitrary: t1) simp_all

lemma reporting_release [intro]: "reporting t t1 \<Longrightarrow> reporting t (releaseConnection E fd t1)"
  by (auto simp: releaseConnection_def arm_eqs Let_def split: option.splits)

lemmas reporting_rules = reporting_emits reporting_arm reporting_release reporting_refl reporting_fold

lemma bind_reporting: "reporting t (rpc_bind E t)"
  by (auto simp: rpc_bind_def Let_def sys_eq bind_failed_def watchAccept_def intro!: reporting_rules split: option.split)

lemma connect_reporting: "reporting t (rpc_connect E t)"
  by (auto simp: rpc_connect_def Let_def sys_eq watchConnect_def intro!: reporting_rules split: prod.split)

lemma close_reporting: "reporting t (rpc_close E t)"
  by (auto simp: rpc_close_def Let_def arm_eqs unwatchAccept_def unwatchConnect_def intro!: reporting_rules)

lemma suspend_reporting: "reporting t (rpc_suspendRead E t)"
  by (auto simp: rpc_suspendRead_def arm_eqs intro!: reporting_rules)

lemma read_hot_reporting: "read_hot E out offset capacity fd c t = Some (out1, t1) \<Longrightarrow> reporting t t1"
  by (auto simp: read_hot_def sys_eq arm_eqs Let_def intro!: reporting_rules
      split: sum.splits if_splits Option.bind_splits)

lemma read_scan_reporting: "read_scan E out offset capacity fds t = Some (out1, t1) \<Longrightarrow> reporting t t1"
proof (induction fds arbitrary: t)
  case (Cons fd fds)
  let ?w = "\<lambda>w. (on_conn fd (arm RDONLY True) t)\<lparr>rt_world := w\<rparr>"
  have w: "reporting t (?w w)" for w by (auto intro!: reporting_rules)
  have "reporting t t1" if "read_scan E out offset capacity fds (?w w) = Some (out1, t1)" for w
    by (rule reporting_trans [OF w Cons.IH [OF that]])
  with w Cons show ?case
    by (auto simp: sys_eq arm_eqs Let_def on_conn_arm_frame intro!: reporting_rules
        split: sum.splits if_splits Option.bind_splits option.splits)
qed (auto intro: reporting_refl)

lemma resumeRead_reporting: "rpc_resumeRead E data peer offset len t = Some (out, t1) \<Longrightarrow> reporting t t1"
  by (auto simp: rpc_resumeRead_def Let_def dest!: read_hot_reporting read_scan_reporting
      split: Option.bind_splits option.splits if_splits)

lemma resumeWrite_reporting: "rpc_resumeWrite E data peer t = (n, status, data1, t1) \<Longrightarrow> reporting t t1"
  by (auto simp: rpc_resumeWrite_def sys_eq arm_eqs Let_def intro!: reporting_rules split: sum.splits if_splits)

lemma accept_reporting: "reporting t t1 \<Longrightarrow> reporting t (accept_conns E i t1)"
proof (induction i arbitrary: t1)
  case (Suc i)
  have "reporting t (on_conn fd watchRead (new_conn fd peer (t1\<lparr>rt_world := w\<rparr>)))" for fd peer w
    using Suc.prems by (auto simp: arm_eqs intro!: reporting_rules)
  with Suc show ?case by (auto simp: sys_eq Let_def split: option.split)
qed simp

lemma handler_reporting: "reporting t (ready_handler N fd flag t)"
proof -
  have "reporting t (onConnectReady N t)"
    by (auto simp: onConnectReady_def connect_failed_def unwatchConnect_def sys_eq Let_def intro!: reporting_rules
        split: option.split)
  moreover have "reporting t (onReadReady fd t)" "reporting t (onWriteReady fd t)"
    by (auto simp: onReadReady_def onWriteReady_def intro!: reporting_rules split: option.split)
  ultimately show ?thesis
    by (cases flag) (simp_all add: onAcceptReady_def accept_reporting reporting_refl)
qed

interpretation tcp_rep: transport_rel "tcp_itransport N" reporting for N
  by unfold_locales (auto simp: tcp_itransport_def bind_reporting connect_reporting close_reporting suspend_reporting
      resumeRead_reporting resumeWrite_reporting reporting_refl intro: reporting_trans)

subsection \<open>No step faults\<close>

definition loop_inv :: "('w rpc_tcp, 'q) sock_env \<Rightarrow> 'w rpc_env \<Rightarrow> ('w \<Rightarrow> int set) \<Rightarrow> ('q \<Rightarrow> cb list) \<Rightarrow> ('q \<Rightarrow> nat) \<Rightarrow>
    ('w, 'q) loop_state \<Rightarrow> bool" where
  "loop_inv E N op items cap l \<longleftrightarrow> over_tcp E N items cap \<and> tcp_laws.good N op items cap (lp_socket l)
     \<and> list_all (event_ok (recv_eof N)) (lp_posted l)"

lemma report_ok: "is_report ev \<Longrightarrow> event_ok eof ev" "is_report ev \<Longrightarrow> requested ev = {#}" "is_report ev \<Longrightarrow> \<not> is_close ev"
  by (cases ev; simp)+

lemma reports_ok:
  assumes "list_all is_report evs"
  shows "list_all (event_ok eof) evs" "list_all (\<lambda>ev. \<not> is_close ev) evs" "(\<Sum>ev \<leftarrow> evs. requested ev) = {#}"
  using assms by (induction evs) (auto simp: report_ok)

lemma handler_ok:
  assumes "tcp_ok N op t" "(fd, flag) \<in> registered (rt_log t)"
  shows "tcp_ok N op (ready_handler N fd flag t)"
    and "tcp_fresh N op t \<Longrightarrow> tcp_fresh N op (ready_handler N fd flag t)"
proof -
  obtain base where E: "system_ok N op" and inv: "rt_inv op base t" using assms(1) by (auto simp: tcp_ok_def)
  have kr: "tcp_ok N op (onReadReady fd t)" and kw: "tcp_ok N op (onWriteReady fd t)"
    using tcp_ok_keeps [OF assms(1)] onReadReady_keeps onWriteReady_keeps by blast+
  have "tcp_ok N op (onAcceptReady N t)"
    using assms(1) rt_inv_accept [OF E inv] by (auto simp: tcp_ok_def onAcceptReady_def)
  moreover have "tcp_ok N op (onConnectReady N t)" if "connecting t"
    using assms(1) rt_inv_connectReady [OF E inv that] by (auto simp: tcp_ok_def)
  ultimately show "tcp_ok N op (ready_handler N fd flag t)" using kr kw by (cases flag) simp_all
  show "tcp_fresh N op (ready_handler N fd flag t)" if fr: "tcp_fresh N op t"
  proof -
    have own: "own_fds t = {}" "own_regs t = {}" "\<not> connecting t" using fr by (simp_all add: tcp_fresh_def own_defs)
    then have core: "rt_core op base {} {} t" using inv by (simp add: rt_inv_def)
    then obtain c where "map_of (rt_conns t) fd = Some c" using assms(2) by (auto simp: rt_core_def conn_regs_def)
    from rt_core_conn(2) [OF core this] have "fd \<noteq> rt_listen_fd t" using fr by (auto simp: tcp_fresh_def)
    with own tcp_fresh_keeps [OF fr] onReadReady_keeps onWriteReady_keeps show ?thesis
      by (cases flag) (simp_all, blast+)
  qed
qed

lemma loop_step_safe:
  assumes inv: "loop_inv E N op items cap l" and en: "loop_enabled x l"
    and ok: "\<And>ev. x = LPost ev \<Longrightarrow> event_ok (recv_eof N) ev"
  shows "\<exists>l1. loop_step E N x l = Some l1 \<and> loop_inv E N op items cap l1"
proof -
  let ?s = "lp_socket l"
  have E: "sock_env_ok E items cap" "se_tr E = tcp_itransport N" "\<not> se_emplace_moves E"
    and g: "tcp_laws.good N op items cap ?s" using inv by (simp_all add: loop_inv_def over_tcp_def)
  show ?thesis
  proof (cases x)
    case (LPost ev)
    with inv ok show ?thesis by (simp add: loop_inv_def)
  next
    case (LHandle k)
    with en have k: "k < length (lp_posted l)" by simp
    have po: "list_all (event_ok (recv_eof N)) (lp_posted l)" using inv by (simp add: loop_inv_def)
    with k have "event_ok (recv_eof N) (lp_posted l ! k)" by (simp add: list_all_length)
    from tcp_laws.tick_good [OF E this g] obtain calls s1 where
      t: "tick E (lp_posted l ! k) ?s = Some (calls, s1)" "tcp_laws.good N op items cap s1" by auto
    have "list_all (event_ok (recv_eof N)) (new_replays (sk_transport ?s) (sk_transport s1))"
      by (rule reports_ok(1) [OF reporting_new [OF tcp_rep.tick_rel [OF E(1,2) t(1)]]])
    moreover have "list_all (event_ok (recv_eof N)) (take k (lp_posted l) @ drop (Suc k) (lp_posted l))"
      using po by (auto simp: list_all_iff dest: in_set_takeD in_set_dropD)
    ultimately show ?thesis using LHandle t inv by (simp add: loop_inv_def)
  next
    case (LReady fd flag)
    let ?t = "sk_transport ?s" and ?t1 = "ready_handler N fd flag (sk_transport ?s)"
    have "tcp_ok N op ?t1" "tcp_fresh N op ?t \<Longrightarrow> tcp_fresh N op ?t1"
      using handler_ok [of N op ?t fd flag] g en LReady by (auto simp: tcp_laws.good_def)
    then have "tcp_laws.good N op items cap (?s\<lparr>sk_transport := ?t1\<rparr>)"
      using g by (auto simp: tcp_laws.good_def sk_inv_def)
    moreover have "list_all (event_ok (recv_eof N)) (new_replays ?t ?t1)"
      by (rule reports_ok(1) [OF reporting_new [OF handler_reporting]])
    ultimately show ?thesis using LReady inv by (simp add: loop_inv_def Let_def)
  qed
qed

lemma loop_step_made:
  "loop_step E N x l = Some l1 \<Longrightarrow> lp_made l1 = lp_made l @ (case x of LPost ev \<Rightarrow> [ev] | _ \<Rightarrow> [])"
  by (cases x) (auto simp: Let_def split: Option.bind_splits)

lemma loop_reach_inv:
  assumes "loop_reach E N l0 l"
  shows "list_all (event_ok (recv_eof N)) (lp_made l) \<Longrightarrow> loop_inv E N op items cap l0 \<Longrightarrow> loop_inv E N op items cap l"
  using assms
proof (induction rule: loop_reach.induct)
  case (loop_trans l x l1)
  have made: "lp_made l1 = lp_made l @ (case x of LPost ev \<Rightarrow> [ev] | _ \<Rightarrow> [])"
    by (rule loop_step_made [OF loop_trans.hyps(3)])
  have "loop_inv E N op items cap l" using loop_trans.IH loop_trans.prems made by simp
  moreover have "event_ok (recv_eof N) ev" if "x = LPost ev" for ev using that loop_trans.prems(1) made by simp
  ultimately have "\<exists>l2. loop_step E N x l = Some l2 \<and> loop_inv E N op items cap l2"
    by (rule loop_step_safe [OF _ loop_trans.hyps(2)])
  with loop_trans.hyps(3) show ?case by simp
qed

subsection \<open>Nothing is lost\<close>

definition loop_conserves :: "('q \<Rightarrow> cb list) \<Rightarrow> ('w, 'q) loop_state \<Rightarrow> bool" where
  "loop_conserves items l \<longleftrightarrow> list_all (\<lambda>ev. \<not> is_close ev) (lp_posted l)
     \<and> called (lp_calls l) + pending items (lp_socket l) + (\<Sum>ev \<leftarrow> lp_posted l. requested ev)
       = (\<Sum>ev \<leftarrow> lp_made l. requested ev)"

lemma sum_list_remove:
  fixes f :: "'a \<Rightarrow> 'b :: comm_monoid_add"
  assumes "k < length xs"
  shows "(\<Sum>x \<leftarrow> xs. f x) = f (xs ! k) + (\<Sum>x \<leftarrow> take k xs @ drop (Suc k) xs. f x)"
proof -
  have "(\<Sum>x \<leftarrow> xs. f x) = (\<Sum>x \<leftarrow> take k xs @ xs ! k # drop (Suc k) xs. f x)"
    by (subst id_take_nth_drop [OF assms]) (rule refl)
  then show ?thesis by (simp add: ac_simps)
qed

lemma loop_step_conserves:
  assumes inv: "loop_inv E N op items cap l" and c: "loop_conserves items l" and en: "loop_enabled x l"
    and st: "loop_step E N x l = Some l1" and ok: "\<And>ev. x = LPost ev \<Longrightarrow> \<not> is_close ev"
  shows "loop_conserves items l1"
proof -
  let ?s = "lp_socket l"
  have E: "sock_env_ok E items cap" "se_tr E = tcp_itransport N"
    and si: "sk_inv items cap ?s" using inv by (simp_all add: loop_inv_def over_tcp_def tcp_laws.good_def)
  show ?thesis
  proof (cases x)
    case (LPost ev)
    with c st ok show ?thesis by (auto simp: loop_conserves_def ac_simps)
  next
    case (LHandle k)
    with en have k: "k < length (lp_posted l)" by simp
    let ?rest = "take k (lp_posted l) @ drop (Suc k) (lp_posted l)"
    from st LHandle obtain calls s1 where t: "tick E (lp_posted l ! k) ?s = Some (calls, s1)"
        "l1 = l\<lparr>lp_socket := s1, lp_posted := ?rest @ new_replays (sk_transport ?s) (sk_transport s1),
                lp_calls := lp_calls l @ calls\<rparr>"
      by (auto split: Option.bind_splits)
    have new: "list_all is_report (new_replays (sk_transport ?s) (sk_transport s1))"
      by (rule reporting_new [OF tcp_rep.tick_rel [OF E t(1)]])
    have "\<not> is_close (lp_posted l ! k)" using c k by (simp add: loop_conserves_def list_all_length)
    from tick_pending [OF E(1) t(1) si this]
    have tp: "called calls + pending items s1 = pending items ?s + requested (lp_posted l ! k)" by simp
    have "called (lp_calls l) + called calls + pending items s1 + (\<Sum>ev \<leftarrow> ?rest. requested ev)
        = called (lp_calls l) + (pending items ?s + requested (lp_posted l ! k)) + (\<Sum>ev \<leftarrow> ?rest. requested ev)"
      by (simp only: add.assoc tp [unfolded add.assoc])
    also have "\<dots> = (\<Sum>ev \<leftarrow> lp_made l. requested ev)"
      using c sum_list_remove [OF k, of requested] by (simp add: loop_conserves_def) (simp add: ac_simps)
    finally have "called (lp_calls l) + called calls + pending items s1 + (\<Sum>ev \<leftarrow> ?rest. requested ev)
        = (\<Sum>ev \<leftarrow> lp_made l. requested ev)" .
    moreover have "list_all (\<lambda>ev. \<not> is_close ev) ?rest"
      using c by (auto simp: loop_conserves_def list_all_iff dest: in_set_takeD in_set_dropD)
    ultimately show ?thesis
      using reports_ok(2,3) [OF new] by (simp add: loop_conserves_def t(2))
  next
    case (LReady fd flag)
    let ?t = "sk_transport ?s" and ?t1 = "ready_handler N fd flag (sk_transport ?s)"
    have "list_all is_report (new_replays ?t ?t1)" by (rule reporting_new [OF handler_reporting])
    then show ?thesis
      using c LReady st reports_ok(2,3) [of "new_replays ?t ?t1"]
      by (auto simp: loop_conserves_def pending_def Let_def)
  qed
qed

lemma loop_reach_conserves:
  assumes "loop_reach E N l0 l"
  shows "list_all (\<lambda>ev. event_ok (recv_eof N) ev \<and> \<not> is_close ev) (lp_made l) \<Longrightarrow> loop_inv E N op items cap l0 \<Longrightarrow>
    loop_conserves items l0 \<Longrightarrow> loop_conserves items l"
  using assms
proof (induction rule: loop_reach.induct)
  case (loop_trans l x l1)
  have made: "lp_made l1 = lp_made l @ (case x of LPost ev \<Rightarrow> [ev] | _ \<Rightarrow> [])"
    by (rule loop_step_made [OF loop_trans.hyps(3)])
  have ok: "list_all (\<lambda>ev. event_ok (recv_eof N) ev \<and> \<not> is_close ev) (lp_made l)"
    using loop_trans.prems(1) made by simp
  then have "list_all (event_ok (recv_eof N)) (lp_made l)" by (simp add: list_all_iff)
  from loop_reach_inv [OF loop_trans.hyps(1) this loop_trans.prems(2)]
  have inv: "loop_inv E N op items cap l" .
  have "\<not> is_close ev" if "x = LPost ev" for ev using that loop_trans.prems(1) made by simp
  from loop_step_conserves [OF inv loop_trans.IH [OF ok loop_trans.prems(2,3)] loop_trans.hyps(2,3) this]
  show ?case .
qed

subsection \<open>Reads that wait\<close>

definition unarmed_in :: "'w rpc_tcp \<Rightarrow> int \<Rightarrow> bool" where
  "unarmed_in t fd \<longleftrightarrow> (\<exists>c. map_of (rt_conns t) fd = Some c \<and> \<not> armed RDONLY c)"

lemma unarmed_in_simps [simp]:
  "unarmed_in (t\<lparr>rt_world := w\<rparr>) fd = unarmed_in t fd" "unarmed_in (t\<lparr>rt_hot_read := p\<rparr>) fd = unarmed_in t fd"
  "unarmed_in (on_conn fd1 (arm RDONLY True) t) fd \<longleftrightarrow> fd \<noteq> fd1 \<and> unarmed_in t fd"
  by (auto simp: unarmed_in_def on_conn_arm_table simp del: armed.simps set_armed.simps split: if_splits)

lemma release_cold: "rt_hot_read t = [] \<Longrightarrow> rt_hot_read (releaseConnection N fd t) = []"
  by (simp add: releaseConnection_def arm_eqs Let_def sys_close_def emit_def on_conn_arm_frame split: option.split)

text \<open>A pass over the connections that finds nothing leaves each of them armed.\<close>

lemma read_scan_cold:
  "read_scan N out offset capacity fds t = Some (out1, t1) \<Longrightarrow> rt_hot_read t = [] \<Longrightarrow>
     rt_hot_read t1 = [] \<and> (ro_status out1 = IoWouldBlock \<longrightarrow> unarmed_in t1 fd \<longrightarrow> fd \<notin> set fds \<and> unarmed_in t fd)"
proof (induction fds arbitrary: t)
  case (Cons fd1 fds)
  show ?case
  proof (cases "map_of (rt_conns t) fd1")
    case None
    then have "\<not> unarmed_in t fd1" by (simp add: unarmed_in_def)
    with None Cons.prems Cons.IH [of t] show ?thesis by auto
  next
    case (Some c1)
    define t2 where "t2 = (on_conn fd1 (arm RDONLY True) t)\<lparr>rt_world := snd (re_recv N fd1 capacity (rt_world t))\<rparr>"
    have cold: "rt_hot_read t2 = []" using Cons.prems(2) by (simp add: t2_def on_conn_arm_frame)
    have "unarmed_in t2 fd \<longleftrightarrow> fd \<noteq> fd1 \<and> unarmed_in t fd" by (simp add: t2_def)
    with Some Cons.prems(1) Cons.IH [OF _ cold] cold show ?thesis
      by (auto simp: sys_eq arm_eqs Let_def on_conn_arm_frame t2_def [symmetric] release_cold
          split: sum.splits if_splits Option.bind_splits)
  qed
qed auto

lemma resumeRead_cold:
  assumes "system_ok N op" "rpc_resumeRead N data peer offset len t = Some (out, t1)" "rt_hot_read t = []"
  shows "rt_hot_read t1 = []" "ro_status out = IoWouldBlock \<Longrightarrow> \<not> unarmed_in t1 fd"
proof -
  have same: "t\<lparr>rt_hot_read := []\<rparr> = t" using assms(3) by (cases t) simp
  obtain out0 cap where s: "read_scan N out0 offset cap (conn_fds N t) t = Some (out, t1)"
    using assms(2,3) same by (auto simp: rpc_resumeRead_def Let_def split: Option.bind_splits if_splits)
  note sc = read_scan_cold [OF s assms(3), of fd]
  then show "rt_hot_read t1 = []" by simp
  have "unarmed_in t fd \<Longrightarrow> fd \<in> set (conn_fds N t)"
    unfolding conn_fds_ok(1) [OF assms(1)] unarmed_in_def by (metis domI dom_map_of_conv_image_fst set_map)
  with sc show "ro_status out = IoWouldBlock \<Longrightarrow> \<not> unarmed_in t1 fd" by blast
qed

lemma read_spec_cold:
  assumes E: "system_ok N op"
  shows "read_spec (rpc_resumeRead N [] [] 0 0) cs t calls left t1 \<Longrightarrow> rt_hot_read t = [] \<Longrightarrow>
    rt_hot_read t1 = [] \<and> (left \<noteq> [] \<longrightarrow> \<not> unarmed_in t1 fd)"
  by (induction rule: read_spec.induct) (auto dest: resumeRead_cold [OF E])

end
