(* ===== verification/SocketLoopProps.thy ===== *)
theory SocketLoopProps
  imports SocketLoop
begin

section \<open>What a socket in its loop promises\<close>

text \<open>
  Over every interleaving of the user's requests, the posted events and the ready descriptors: no step
  faults and no request is lost, and a read that waits is told of data from any peer when the pass that
  left it waiting looked at every connection. Then the two cases where a waiting read is forgotten: it was
  made while the socket was connecting, or the pass looked at the hot connection only.
\<close>

subsection \<open>What holds of every reachable state\<close>

lemma reached:
  assumes "over_tcp E N items cap" "system_ok N op" "re_alloc N = (\<lambda>_. True)" "rpc_new N address w = Inr t"
    and "loop_reach E N (new_loop (new_socket E t)) l" "list_all (event_ok (recv_eof N)) (lp_made l)"
  shows "loop_inv E N op items cap l"
proof (rule loop_reach_inv [OF assms(5,6)])
  show "loop_inv E N op items cap (new_loop (new_socket E t))"
    using tcp_new_good [OF assms(1-4)] assms(1) by (simp add: loop_inv_def new_loop_def)
qed

lemma loop_inv_registered:
  assumes "loop_inv E N op items cap l" "t = sk_transport (lp_socket l)"
  shows "registered (rt_log t) = {(fd, f). \<exists>c. map_of (rt_conns t) fd = Some c \<and> armed f c} \<union> own_regs t"
    and "log_ok (rt_log t)"
  using assms by (auto simp: loop_inv_def tcp_laws.good_def tcp_ok_def rt_inv_def rt_core_def conn_regs_def)

subsection \<open>Properties of a socket in its loop\<close>

text \<open>C12: When a pass over the waiting reads that did not begin at a hot connection leaves reads waiting, every
  connection is registered for reading: whichever peer sends next, the socket is told.\<close>

theorem waiting_reads_are_armed:
  assumes "over_tcp E N items cap" "system_ok N op" "re_alloc N = (\<lambda>_. True)" "rpc_new N address w = Inr t"
    and "loop_reach E N (new_loop (new_socket E t)) l" "list_all (event_ok (recv_eof N)) (lp_made l)"
    and "e = ReadReadyRep \<or> e = ReadReq (Some i) \<and> sk_state (lp_socket l) \<noteq> Closed
      \<and> length (items (sk_read (lp_socket l))) < 1024"
    and "tick E e (lp_socket l) = Some (calls, s1)" "items (sk_read s1) \<noteq> []"
    and "rt_hot_read (sk_transport (lp_socket l)) = []" "map_of (rt_conns (sk_transport s1)) fd = Some c"
  shows "(fd, RDONLY) \<in> registered (rt_log (sk_transport s1))"
proof -
  let ?s = "lp_socket l"
  have inv: "loop_inv E N op items cap l" by (rule reached [OF assms(1-6)])
  have E: "sock_env_ok E items cap" "se_tr E = tcp_itransport N" "\<not> se_emplace_moves E"
    using assms(1) by (simp_all add: over_tcp_def)
  have good: "tcp_laws.good N op items cap ?s" using inv by (simp add: loop_inv_def)
  then have st: "sk_state ?s \<noteq> CloseWait" "cap (sk_read ?s) = 1024" by (simp_all add: tcp_laws.good_def sk_inv_def)
  have "event_ok (recv_eof N) e" using assms(7) by auto
  from tcp_laws.tick_good [OF E this good] assms(8) have "tcp_ok N op (sk_transport s1)"
    by (simp add: tcp_laws.good_def)
  then obtain base where core: "rt_core op base (own_fds (sk_transport s1)) (own_regs (sk_transport s1)) (sk_transport s1)"
    by (auto simp: tcp_ok_def rt_inv_def)
  have "\<exists>s. transportRead E s = Some (calls, s1) \<and> sk_transport s = sk_transport ?s"
    using assms(7,8) st by (auto simp: tick_ReadReq_def ring_okD [OF E(1)])
  then obtain s where tr: "transportRead E s = Some (calls, s1)" and s: "sk_transport s = sk_transport ?s" by blast
  obtain cs where "read_spec (rpc_resumeRead N [] [] 0 0) cs (sk_transport ?s) calls (items (sk_read s1)) (sk_transport s1)"
    using transportRead_spec [OF E(1) tr] assms(9) E(2) s by (auto simp: tcp_itransport_def)
  from read_spec_cold [OF assms(2) this assms(10)] assms(9,11) have "armed RDONLY c"
    by (auto simp: unarmed_in_def)
  with core assms(11) show ?thesis by (auto simp: rt_core_def conn_regs_def)
qed


text \<open>C11: Until the user closes the socket, the callbacks called, the requests that wait in the socket and the
  requests still posted are together exactly the requests made, whatever the descriptors and the loop do.\<close>

theorem driven_socket_loses_nothing:
  assumes "over_tcp E N items cap" "system_ok N op" "re_alloc N = (\<lambda>_. True)" "rpc_new N address w = Inr t"
    and "loop_reach E N (new_loop (new_socket E t)) l"
    and "list_all (\<lambda>ev. event_ok (recv_eof N) ev \<and> \<not> is_close ev) (lp_made l)"
  shows "called (lp_calls l) + pending items (lp_socket l) + (\<Sum>ev \<leftarrow> lp_posted l. requested ev)
    = (\<Sum>ev \<leftarrow> lp_made l. requested ev)"
proof -
  have E: "sock_env_ok E items cap" using assms(1) by (simp add: over_tcp_def)
  have "loop_inv E N op items cap (new_loop (new_socket E t))"
    using tcp_new_good [OF assms(1-4)] assms(1) by (simp add: loop_inv_def new_loop_def)
  moreover have "loop_conserves items (new_loop (new_socket E t))"
    using new_socket_inv(2) [OF E] by (simp add: loop_conserves_def new_loop_def)
  ultimately have "loop_conserves items l" by (rule loop_reach_conserves [OF assms(5,6)])
  then show ?thesis by (simp add: loop_conserves_def)
qed

lemma resumeRead_hot_data:
  assumes "system_ok N op" "re_alloc N = (\<lambda>_. True)" "rt_hot_read t = cn_peer c" "cn_peer c \<noteq> []"
    and "map_of (rt_fd_by_peer t) (cn_peer c) = Some fd" "map_of (rt_conns t) fd = Some c"
    and "re_recv N fd 1024 (rt_world t) = (Inl bs, w)" "bs \<noteq> []"
  shows "\<exists>t1. rpc_resumeRead N [] [] 0 0 t = Some (\<lparr>ro_n = length bs, ro_data = bs @ replicate (1024 - length bs) 0,
    ro_peer = cn_peer c, ro_status = IoOk\<rparr>, t1)"
proof -
  have "length bs \<le> 1024" by (rule system_okD(14) [OF assms(1,7)])
  then show ?thesis
    using assms by (simp add: rpc_resumeRead_def read_hot_def sys_eq Let_def vec_can_grow_def vec_max_def vec_resize_def
        blit_def)
qed


subsection \<open>Where a waiting read is forgotten\<close>

lemma onConnectReady_ok:
  assumes "connecting t" "re_so_error N (rt_client_fd t) (rt_world t) = (Some 0, w1)"
    and "re_name N (rt_client_fd t) w1 = (Some peer, w2)"
  shows "onConnectReady N t = emit (RReplay (ConnectRep IoOk)) ((new_conn (rt_client_fd t) peer
      ((emit (RUnwatch (rt_client_fd t) WRONLY) t)\<lparr>rt_world := w2\<rparr>))\<lparr>rt_connected := True\<rparr>)"
  using assms by (simp add: onConnectReady_def unwatchConnect_def connecting_def sys_eq Let_def emit_def)

text \<open>C37: A read made while the socket connects is forgotten when the connection is there: the socket is then
  connected and the read waits, but the connection is not registered for reading and nothing is posted,
  so that no step is possible until the user makes another request.\<close>

theorem read_made_while_connecting_hangs:
  assumes "over_tcp E N items cap" "system_ok N op" "re_alloc N = (\<lambda>_. True)" "rpc_new N address w = Inr t0"
    and "loop_reach E N (new_loop (new_socket E t0)) l" "list_all (event_ok (recv_eof N)) (lp_made l)"
    and "t = sk_transport (lp_socket l)" "sk_state (lp_socket l) = ConnectWait" "lp_posted l = []"
    and "connecting t" "rt_conns t = []" "rt_listen_fd t < 0"
    and "re_so_error N (rt_client_fd t) (rt_world t) = (Some 0, w1)" "re_name N (rt_client_fd t) w1 = (Some peer, w2)"
  shows "\<exists>l1 l2. loop_step E N (LReady (rt_client_fd t) WRONLY) l = Some l1 \<and> loop_step E N (LHandle 0) l1 = Some l2
    \<and> sk_state (lp_socket l2) = Connected \<and> sk_read (lp_socket l2) = sk_read (lp_socket l)
    \<and> (\<forall>x. loop_enabled x l2 \<longrightarrow> (\<exists>ev. x = LPost ev))"
proof -
  have E: "sock_env_ok E items cap" using assms(1) by (simp add: over_tcp_def)
  let ?fd = "rt_client_fd t"
  have "(?fd, WRONLY) \<in> registered (rt_log t)"
    using loop_inv_registered(1) [OF reached [OF assms(1-6)] assms(7)] assms(10) by (auto simp: own_regs_def)
  then have en: "loop_enabled (LReady ?fd WRONLY) l" by (simp add: assms(7))
  define t1 where "t1 = onConnectReady N t"
  note t1 = onConnectReady_ok [OF assms(10,13,14), folded t1_def]
  define l1 where "l1 = l\<lparr>lp_socket := (lp_socket l)\<lparr>sk_transport := t1\<rparr>, lp_posted := [ConnectRep IoOk]\<rparr>"
  have "new_replays t t1 = [ConnectRep IoOk]"
    by (simp add: t1 new_replays_def emit_def new_conn_def)
  then have s1: "loop_step E N (LReady ?fd WRONLY) l = Some l1"
    using assms(7,9,10) by (simp add: l1_def t1_def Let_def)
  have r1: "loop_reach E N (new_loop (new_socket E t0)) l1" by (rule loop_trans [OF assms(5) en s1])
  have good: "tcp_laws.good N op items cap (lp_socket l)" using reached [OF assms(1-6)] by (simp add: loop_inv_def)
  then obtain x where x: "items (sk_connect (lp_socket l)) = [x]"
    using assms(8) by (auto simp: tcp_laws.good_def sk_inv_def length_Suc_conv)
  moreover have "None \<notin> set (items (sk_connect (lp_socket l)))" using good assms(8) by (simp add: tcp_laws.good_def)
  ultimately have "x \<noteq> None" by auto
  with x obtain i q where i: "items (sk_connect (lp_socket l)) = [Some i]" "take_front E (sk_connect (lp_socket l)) = (Some i, q)"
    using take_front_ok [OF E] by (metis option.exhaust)
  define l2 where "l2 = l1\<lparr>lp_socket := (lp_socket l1)\<lparr>sk_connect := q, sk_state := Connected\<rparr>,
    lp_posted := [], lp_calls := lp_calls l1 @ [CallConnect i IoOk]\<rparr>"
  have s2: "loop_step E N (LHandle 0) l1 = Some l2"
    using assms(8) i by (simp add: l1_def l2_def tick_ConnectRep_def ring_okD [OF E] answer_def new_replays_def)
  have r2: "loop_reach E N (new_loop (new_socket E t0)) l2"
    by (rule loop_trans [OF r1 _ s2]) (simp add: l1_def)
  have "registered (rt_log t1) = {(fd, f). \<exists>c. map_of (rt_conns t1) fd = Some c \<and> armed f c} \<union> own_regs t1"
    by (rule loop_inv_registered(1) [OF reached [OF assms(1-4) r2]]) (use assms(6) in \<open>simp_all add: l2_def l1_def\<close>)
  moreover have "own_regs t1 = {}"
    using assms(12) by (simp add: t1 own_regs_def connecting_def emit_def new_conn_def)
  moreover have "\<not> armed f c" if "map_of (rt_conns t1) fd = Some c" for fd f c
    using that assms(11) by (cases f) (auto simp: t1 emit_def new_conn_def split: if_splits)
  ultimately have none: "registered (rt_log t1) = {}" by auto
  have "\<exists>ev. x = LPost ev" if "loop_enabled x l2" for x
    using that none by (cases x) (simp_all add: l2_def l1_def)
  with s1 s2 show ?thesis by (auto simp: l2_def l1_def)
qed

text \<open>On the hot path a read that finds nothing re-arms the hot connection only: a connection that was not
  armed, as none is once reads have been suspended, stays deaf while the read waits.\<close>

theorem hot_read_leaves_others_deaf:
  assumes "over_tcp E N items cap" "re_alloc N = (\<lambda>_. True)" "tcp_ok N op (sk_transport s)"
    and "items (sk_read s) \<noteq> []" "rt_hot_read (sk_transport s) = peer" "peer \<noteq> []"
    and "map_of (rt_fd_by_peer (sk_transport s)) peer = Some fd" "map_of (rt_conns (sk_transport s)) fd = Some c"
    and "re_recv N fd 1024 (rt_world (sk_transport s)) = (Inr errno, w)" "would_block errno"
    and "map_of (rt_conns (sk_transport s)) other = Some c1" "other \<noteq> fd" "\<not> armed RDONLY c1"
  shows "\<exists>s1. tick E ReadReadyRep s = Some ([], s1) \<and> sk_read s1 = sk_read s
    \<and> map_of (rt_conns (sk_transport s1)) other = Some c1
    \<and> (other, RDONLY) \<notin> registered (rt_log (sk_transport s1))"
proof -
  have E: "sock_env_ok E items cap" and T: "se_tr E = tcp_itransport N" using assms(1) by (simp_all add: over_tcp_def)
  let ?t = "sk_transport s"
  have al: "vec_can_grow (re_alloc N) 1024" by (simp add: vec_can_grow_def assms(2) vec_max_def)
  define t1 where "t1 = (on_conn fd (arm RDONLY True) (?t\<lparr>rt_world := w\<rparr>))\<lparr>rt_hot_read := []\<rparr>"
  obtain d where r: "rpc_resumeRead N [] [] 0 0 ?t =
      Some (\<lparr>ro_n = 0, ro_data = d, ro_peer = [], ro_status = IoWouldBlock\<rparr>, t1)"
    using assms(5-10) al by (simp add: rpc_resumeRead_def read_hot_def sys_eq arm_eqs Let_def t1_def)
  have tick: "tick E ReadReadyRep s = Some ([], s\<lparr>sk_transport := t1\<rparr>)"
    using assms(4) r by (simp add: transportRead.simps [of E s] ring_okD [OF E] T tcp_itransport_def)
  have keep: "keeps op ?t t1"
    using resumeRead_keeps [of N op 0 0 "[]" "[]" ?t] r assms(2,3) by (simp add: tcp_ok_def vec_max_def)
  have "tcp_ok N op t1" by (rule tcp_ok_keeps [OF assms(3) keep])
  then obtain base where core: "rt_core op base (own_fds t1) (own_regs t1) t1" by (auto simp: tcp_ok_def rt_inv_def)
  have other: "map_of (rt_conns t1) other = Some c1" using assms(11,12) by (simp add: t1_def on_conn_arm_map)
  from rt_core_conn(4) [OF core this] have "(other, RDONLY) \<notin> own_regs t1" .
  moreover have "(other, RDONLY) \<notin> conn_regs (rt_conns t1)" using other assms(13) by (simp add: conn_regs_def)
  ultimately have "(other, RDONLY) \<notin> registered (rt_log t1)" using core by (simp add: rt_core_def)
  with tick other show ?thesis by simp
qed

subsection \<open>Interleavings of the demonstration\<close>

definition demo_t0 :: "int list rpc_tcp" where
  "demo_t0 = (case rpc_new demo_env ''h'' [] of Inr t \<Rightarrow> t)"

definition demo_start :: "(int list, nat \<times> cb list) loop_state" where
  "demo_start = new_loop (new_socket (sock_env_for demo_env) demo_t0)"

definition demo_served :: "io_event list \<Rightarrow> (int list, nat \<times> cb list) loop_state" where
  \<comment> \<open>bound, with two connections accepted\<close>
  "demo_served evs = \<lparr>lp_socket = demo_serving [] [] demo_bound, lp_posted = evs,
     lp_made = BindReq (Some 1) # evs, lp_calls = [CallBind 1 IoOk ''me:1'']\<rparr>"

definition demo_dialling :: "(int list, nat \<times> cb list) loop_state" where
  \<comment> \<open>connecting, with a read waiting\<close>
  "demo_dialling = \<lparr>lp_socket = \<lparr>sk_state = ConnectWait, sk_transport = rpc_connect demo_env demo_t0, sk_bind = (1, []),
       sk_connect = (1, [Some 1]), sk_read = (1024, [Some 2]), sk_write = []\<rparr>,
     lp_posted = [], lp_made = [ConnectReq (Some 1), ReadReq (Some 2)], lp_calls = []\<rparr>"

lemma demo_t0: "rpc_new demo_env ''h'' [] = Inr demo_t0"
  by (simp add: demo_t0_def rpc_new_def demo_env_def)

lemma demo_t0_fields [simp]: "rt_hot_read demo_t0 = []" "rt_conns demo_t0 = []" "rt_listen_fd demo_t0 = -1"
  "\<not> rt_connected demo_t0"
  by (simp_all add: demo_t0_def rpc_new_def demo_env_def)

lemma demo_bound_t0: "demo_bound = onAcceptReady demo_env (rpc_bind demo_env demo_t0)"
  by (simp add: demo_bound_def demo_t0)

lemma demo_alloc: "re_alloc demo_env = (\<lambda>_. True)" by (simp add: demo_env_def)

lemma demo_env_for_simps:
  "se_tr (sock_env_for N) = tcp_itransport N" "se_ring (sock_env_for N) = demo_ring"
  by (simp_all add: sock_env_for_def)

lemma demo_bind_replays: "new_replays demo_t0 (rpc_bind demo_env demo_t0) = [BindRep IoOk ''me:1'']" by code_simp

lemma demo_accept_replays: "new_replays (rpc_bind demo_env demo_t0) demo_bound = []" by code_simp

lemma demo_bind_watched: "(1, RDONLY) \<in> registered (rt_log (rpc_bind demo_env demo_t0))" by code_simp

lemma demo_listen: "rt_listen_fd (rpc_bind demo_env demo_t0) = 1" by code_simp

lemma demo_connect: "rpc_connect demo_env demo_t0 = emit (RWatch 1 WRONLY) (demo_t0\<lparr>rt_client_fd := 1, rt_world := [1]\<rparr>)"
  by (simp add: demo_t0_def rpc_new_def rpc_connect_def sys_eq Let_def demo_env_def errno_defs fresh_fd_def watchConnect_def
      emit_def)

lemma demo_served_reach:
  assumes "evs = [] \<or> evs = [ReadReq (Some 2)]"
  shows "loop_reach (sock_env_for demo_env) demo_env demo_start (demo_served evs)"
proof (rule loop_run_reach [OF _ loop_refl])
  show "loop_run (sock_env_for demo_env) demo_env
      ([LPost (BindReq (Some 1)), LHandle 0, LHandle 0, LReady 1 RDONLY] @ map LPost evs) demo_start = Some (demo_served evs)"
    using assms demo_bind_replays demo_accept_replays demo_bind_watched demo_listen demo_bound_t0
    by (auto simp: demo_start_def demo_served_def new_loop_def new_socket_def demo_env_for_simps tick_BindReq_def
        tick_BindRep_def demo_ring_def tcp_itransport_def take_front_def answer_def new_replays_def demo_serving_def Let_def)
qed

lemma demo_read_cold:
  assumes "rt_hot_read t = []" "rt_conns t = []"
  shows "rpc_resumeRead demo_env [] [] 0 0 t = Some (\<lparr>ro_n = 0, ro_data = replicate 1024 0, ro_peer = [], ro_status = IoWouldBlock\<rparr>, t)"
  using assms by (cases t) (simp add: rpc_resumeRead_def Let_def vec_can_grow_def vec_max_def vec_resize_def conn_fds_def demo_env_def)

lemma demo_dialling_reach: "loop_reach (sock_env_for demo_env) demo_env demo_start demo_dialling"
proof (rule loop_run_reach [OF _ loop_refl])
  have t: "rt_hot_read (rpc_connect demo_env demo_t0) = []" "rt_conns (rpc_connect demo_env demo_t0) = []"
    by (simp_all add: demo_connect emit_def)
  have r: "new_replays demo_t0 (rpc_connect demo_env demo_t0) = []"
    by (simp add: demo_connect new_replays_def emit_def)
  show "loop_run (sock_env_for demo_env) demo_env
      [LPost (ConnectReq (Some 1)), LHandle 0, LPost (ReadReq (Some 2)), LHandle 0] demo_start = Some demo_dialling"
    using demo_read_cold [OF t] r
    by (simp add: demo_start_def demo_dialling_def new_loop_def new_socket_def demo_env_for_simps tick_ConnectReq_def
        tick_ReadReq_def transportRead.simps demo_ring_def tcp_itransport_def answer_def new_replays_def Let_def)
qed


theorem driven_socket_loses_nothing_witness:
  "called (lp_calls (demo_served [ReadReq (Some 2)])) + (\<Sum>ev \<leftarrow> lp_posted (demo_served [ReadReq (Some 2)]). requested ev)
    = {#1, 2#}"
  using driven_socket_loses_nothing [OF sock_env_for_ok demo_env_ok demo_alloc demo_t0
      demo_served_reach [of "[ReadReq (Some 2)]", unfolded demo_start_def]]
  by (simp add: demo_served_def pending_def demo_serving_def)

theorem read_made_while_connecting_hangs_witness:
  "\<exists>l1 l2. loop_step (sock_env_for demo_env) demo_env (LReady 1 WRONLY) demo_dialling = Some l1
    \<and> loop_step (sock_env_for demo_env) demo_env (LHandle 0) l1 = Some l2
    \<and> sk_state (lp_socket l2) = Connected \<and> snd (sk_read (lp_socket l2)) = [Some 2]
    \<and> (\<forall>x. loop_enabled x l2 \<longrightarrow> (\<exists>ev. x = LPost ev))"
proof -
  have eof: "\<not> recv_eof demo_env" by (simp add: recv_eof_def demo_env_def)
  define t where "t = rpc_connect demo_env demo_t0"
  have t: "connecting t" "rt_conns t = []" "rt_listen_fd t < 0" "rt_client_fd t = 1"
    by (simp_all add: t_def demo_connect connecting_def emit_def)
  from read_made_while_connecting_hangs [OF sock_env_for_ok demo_env_ok demo_alloc demo_t0
      demo_dialling_reach [unfolded demo_start_def] _ _ _ _ t(1-3), of "rt_world t" "''me:1''" "rt_world t"] eof t(4)
  show ?thesis by (auto simp: demo_dialling_def t_def demo_env_def simp del: loop_step.simps)
qed

lemma demo_scan: "\<exists>t1. read_scan demo_env out off cap fds t = Some (out\<lparr>ro_n := 0, ro_status := IoWouldBlock\<rparr>, t1)
    \<and> map fst (rt_conns t1) = map fst (rt_conns t)"
proof (induction fds arbitrary: t)
  case (Cons fd fds)
  let ?t = "(on_conn fd (arm RDONLY True) t)\<lparr>rt_world := rt_world t\<rparr>"
  have "fst (re_recv demo_env fd cap w) = Inr EAGAIN" "snd (re_recv demo_env fd cap w) = w" for w
    by (simp_all add: demo_env_def)
  with Cons.IH [of t] Cons.IH [of ?t] show ?case
    by (auto simp: sys_eq arm_eqs on_conn_arm_frame would_block_def Let_def split: option.split)
qed simp

lemma demo_bound_read:
  obtains out t1 c where "rpc_resumeRead demo_env [] [] 0 0 demo_bound = Some (out, t1)" "ro_n out = 0"
    "ro_status out = IoWouldBlock" "map_of (rt_conns t1) 2 = Some c"
proof -
  have cold: "rt_hot_read demo_bound = []" by code_simp
  define out where "out = \<lparr>ro_n = 0, ro_data = replicate 1024 (0 :: u8), ro_peer = [], ro_status = IoOk\<rparr>"
  obtain t1 where t1: "read_scan demo_env out 0 1024 (conn_fds demo_env (demo_bound\<lparr>rt_hot_read := []\<rparr>)) (demo_bound\<lparr>rt_hot_read := []\<rparr>)
      = Some (out\<lparr>ro_n := 0, ro_status := IoWouldBlock\<rparr>, t1)" "map fst (rt_conns t1) = map fst (rt_conns demo_bound)"
    using demo_scan [of out 0 1024 _ "demo_bound\<lparr>rt_hot_read := []\<rparr>"] by auto
  have "2 \<in> set (map fst (rt_conns demo_bound))" by code_simp
  then have "2 \<in> set (map fst (rt_conns t1))" by (simp only: t1(2))
  then obtain c where "map_of (rt_conns t1) 2 = Some c"
    by (metis domD dom_map_of_conv_image_fst set_map)
  moreover have "rpc_resumeRead demo_env [] [] 0 0 demo_bound = Some (out\<lparr>ro_n := 0, ro_status := IoWouldBlock\<rparr>, t1)"
    using t1(1) by (simp add: rpc_resumeRead_def Let_def cold vec_can_grow_def vec_max_def vec_resize_def demo_alloc out_def)
  ultimately show thesis using that by simp
qed

theorem waiting_reads_are_armed_witness:
  "\<exists>s1 c. tick (sock_env_for demo_env) (ReadReq (Some 2)) (demo_serving [] [] demo_bound) = Some ([], s1)
    \<and> map_of (rt_conns (sk_transport s1)) 2 = Some c \<and> (2, RDONLY) \<in> registered (rt_log (sk_transport s1))"
proof -
  obtain out t1 c where r: "rpc_resumeRead demo_env [] [] 0 0 demo_bound = Some (out, t1)" "ro_n out = 0"
      "ro_status out = IoWouldBlock" "map_of (rt_conns t1) 2 = Some c"
    by (rule demo_bound_read)
  let ?s1 = "demo_serving [Some 2] [] t1"
  have t: "tick (sock_env_for demo_env) (ReadReq (Some 2)) (lp_socket (demo_served [])) = Some ([], ?s1)"
    using r by (simp add: demo_served_def demo_serving_def tick_ReadReq_def transportRead.simps demo_env_for_simps
        demo_ring_def tcp_itransport_def)
  have cold: "rt_hot_read demo_bound = []" by code_simp
  from waiting_reads_are_armed [OF sock_env_for_ok demo_env_ok demo_alloc demo_t0
      demo_served_reach [of "[]", unfolded demo_start_def] _ _ t, of 2 2 c] cold r(4) t
  show ?thesis by (auto simp: demo_served_def demo_serving_def)
qed

definition demo_hot2 :: "int list rpc_tcp" where
  \<comment> \<open>two connections, suspended; the first is still hot\<close>
  "demo_hot2 = \<lparr>rt_host = ''h'', rt_port = 80, rt_listen_fd = -1, rt_client_fd = -1, rt_hot_read = ''p'', rt_hot_write = [],
     rt_connected = False, rt_fd_by_peer = [(''p'', 2), (''q'', 3)],
     rt_conns = [(2, \<lparr>cn_fd = 2, cn_peer = ''p'', cn_read_armed = False, cn_write_armed = False\<rparr>),
       (3, \<lparr>cn_fd = 3, cn_peer = ''q'', cn_read_armed = False, cn_write_armed = False\<rparr>)], rt_log = [],
     rt_world = [3, 2]\<rparr>"

lemma demo_hot2_ok: "tcp_ok demo_env set demo_hot2"
proof -
  have "rt_inv set {} demo_hot2"
    by (auto simp: demo_hot2_def rt_inv_def rt_core_def conns_ok_def table_ok_def conn_regs_def own_defs
        elim: armed.elims split: if_splits)
  then show ?thesis using demo_env_ok demo_alloc by (auto simp: tcp_ok_def)
qed

theorem hot_read_leaves_others_deaf_witness:
  "\<exists>s1. tick (sock_env_for demo_env) ReadReadyRep (demo_serving [Some 7] [] demo_hot2) = Some ([], s1)
    \<and> sk_read s1 = (1024, [Some 7]) \<and> (3, RDONLY) \<notin> registered (rt_log (sk_transport s1))"
  using hot_read_leaves_others_deaf [OF sock_env_for_ok demo_alloc, of set "demo_serving [Some 7] [] demo_hot2" "''p''" 2
      "\<lparr>cn_fd = 2, cn_peer = ''p'', cn_read_armed = False, cn_write_armed = False\<rparr>" EAGAIN "[3, 2]" 3
      "\<lparr>cn_fd = 3, cn_peer = ''q'', cn_read_armed = False, cn_write_armed = False\<rparr>"] demo_hot2_ok
  by (auto simp: demo_serving_def demo_hot2_def would_block_def demo_env_def)

definition feeding_env :: "int list rpc_env" where
  \<comment> \<open>every connection has a byte to read\<close>
  "feeding_env = demo_env\<lparr>re_recv := (\<lambda>fd n w. (Inl (take n [7]), w))\<rparr>"

lemma feeding_env_ok: "system_ok feeding_env set" "re_alloc feeding_env = (\<lambda>_. True)"
  using demo_env_ok by (simp_all add: feeding_env_def system_ok_def keeps_open_def demo_alloc)

definition demo_feeding :: "(int list, nat \<times> cb list) loop_state" where
  \<comment> \<open>a read was made before the connections were accepted\<close>
  "demo_feeding = \<lparr>lp_socket = demo_serving [Some 2] [] demo_bound, lp_posted = [],
     lp_made = [BindReq (Some 1), ReadReq (Some 2)], lp_calls = [CallBind 1 IoOk ''me:1'']\<rparr>"

lemma feeding_simps:
  "rpc_bind feeding_env demo_t0 = rpc_bind demo_env demo_t0" "onAcceptReady feeding_env (rpc_bind demo_env demo_t0) = demo_bound"
  "rt_hot_read (rpc_bind demo_env demo_t0) = []" "rt_conns (rpc_bind demo_env demo_t0) = []"
  by code_simp+

lemma feeding_read_cold:
  assumes "rt_hot_read t = []" "rt_conns t = []"
  shows "rpc_resumeRead feeding_env [] [] 0 0 t = Some (\<lparr>ro_n = 0, ro_data = replicate 1024 0, ro_peer = [], ro_status = IoWouldBlock\<rparr>, t)"
  using assms by (cases t)
    (simp add: rpc_resumeRead_def Let_def vec_can_grow_def vec_max_def vec_resize_def conn_fds_def feeding_env_def demo_env_def)

lemma demo_feeding_reach: "loop_reach (sock_env_for feeding_env) feeding_env demo_start' demo_feeding"
  if "demo_start' = new_loop (new_socket (sock_env_for feeding_env) demo_t0)"
proof (rule loop_run_reach [OF _ loop_refl])
  show "loop_run (sock_env_for feeding_env) feeding_env [LPost (BindReq (Some 1)), LHandle 0, LHandle 0,
      LPost (ReadReq (Some 2)), LHandle 0, LReady 1 RDONLY] demo_start' = Some demo_feeding"
    unfolding that
    using demo_bind_replays demo_accept_replays demo_bind_watched demo_listen feeding_read_cold [OF feeding_simps(3,4)]
    by (simp add: demo_feeding_def new_loop_def new_socket_def demo_env_for_simps tick_BindReq_def feeding_simps
        tick_BindRep_def tick_ReadReq_def transportRead.simps demo_ring_def tcp_itransport_def take_front_def answer_def
        new_replays_def demo_serving_def Let_def)
qed


end
