(* ===== verification/Echo.thy ===== *)
theory Echo
  imports SocketLoop
begin

section \<open>The echo server and client\<close>

text \<open>
  Models \<open>EchoServer\<close>, \<open>EchoClient\<close> and \<open>BM_SocketPingPong\<close> of \<open>tasks/socket/socket_bench.cpp\<close>: the users of
  two sockets, and the thread that starts them, runs rounds of one message there and back, and waits at two
  latches. The functions given to a socket are named \<open>start_cb\<close>, \<open>read_cb\<close> and \<open>write_cb\<close>; \<open>server_call\<close> and
  \<open>client_call\<close> are their bodies. The framed transport is a parameter: its state may change and it may post
  any report at any time. A step is one of the main thread, or at one of the two ends the handling of a
  posted request, a report, or a change of the transport. \<open>None\<close> is a fault: one of the socket, or a latch
  counted down below zero. Timing, the counters of the benchmark library and the destructors at the end are
  left out, and \<open>benchmark::Shutdown()\<close>, which returns to its caller, is the flag \<open>bn_shutdown\<close>.
\<close>

definition start_cb :: nat where [simp]: "start_cb = 0"

definition read_cb :: nat where [simp]: "read_cb = 1"

definition write_cb :: nat where [simp]: "write_cb = 2"

record ('t, 'q) echo_end =
  ee_running :: bool
  ee_status :: iostatus
  ee_started :: nat \<comment> \<open>the latch of \<open>start\<close>\<close>
  ee_latch :: nat \<comment> \<open>the latch given to \<open>run\<close>\<close>
  ee_socket :: "('t, 'q) socket"
  ee_posted :: "io_event list"

definition createSocket :: "('t, 'q) sock_env \<Rightarrow> 't \<Rightarrow> ('t, 'q) echo_end" where
  "createSocket E t = \<lparr>ee_running = False, ee_status = IoFatal, ee_started = 0, ee_latch = 0,
     ee_socket = new_socket E t, ee_posted = []\<rparr>"

subsection \<open>Requests and latches\<close>

definition request :: "io_event list \<Rightarrow> ('t, 'q) echo_end \<Rightarrow> ('t, 'q) echo_end" where
  "request evs e = e\<lparr>ee_posted := ee_posted e @ evs\<rparr>"

definition count_down :: "('t, 'q) echo_end \<Rightarrow> ('t, 'q) echo_end option" where
  "count_down e = (if 0 < ee_latch e then Some (e\<lparr>ee_latch := ee_latch e - 1\<rparr>) else None)"

definition note_status :: "iostatus \<Rightarrow> ('t, 'q) echo_end \<Rightarrow> ('t, 'q) echo_end option" where
  "note_status s e =
     (if 0 < ee_started e then Some (e\<lparr>ee_status := s, ee_started := ee_started e - 1\<rparr>) else None)"

definition fail_if :: "bool \<Rightarrow> ('t, 'q) echo_end \<Rightarrow> ('t, 'q) echo_end" where
  "fail_if bad e = (if bad then e\<lparr>ee_running := False\<rparr> else e)"

subsection \<open>The server\<close>

definition server_start :: "('t, 'q) echo_end \<Rightarrow> bool \<times> ('t, 'q) echo_end" where
  \<comment> \<open>whether it goes on to wait\<close>
  "server_start e =
     (if ee_running e then (False, e)
      else (True, request (socket_bind (Some start_cb)) (e\<lparr>ee_running := True, ee_status := IoFatal, ee_started := 1\<rparr>)))"

definition server_stop :: "('t, 'q) echo_end \<Rightarrow> ('t, 'q) echo_end" where
  "server_stop e = e\<lparr>ee_running := False\<rparr>"

definition server_run :: "('t, 'q) echo_end \<Rightarrow> ('t, 'q) echo_end option" where
  "server_run e =
     (if \<not> ee_running e then count_down e else Some (request (socket_read (Some read_cb)) e))"

fun server_call :: "sk_call \<Rightarrow> ('t, 'q) echo_end \<Rightarrow> ('t, 'q) echo_end option" where
  "server_call (CallBind i s address) e = note_status s e"
| "server_call (CallRead i status data peer) e =
     (if status \<noteq> IoOk then count_down (fail_if True e)
      else Some (request (socket_write data peer (Some write_cb)) e))"
| "server_call (CallWrite i s) e = count_down (fail_if (s \<noteq> IoOk) e)"
| "server_call _ e = None"

subsection \<open>The client\<close>

definition client_start :: "('t, 'q) echo_end \<Rightarrow> bool \<times> ('t, 'q) echo_end" where
  "client_start e =
     (if ee_running e then (False, e)
      else (True, request (socket_connect (Some start_cb)) (e\<lparr>ee_running := True, ee_status := IoFatal, ee_started := 1\<rparr>)))"

definition client_stop :: "('t, 'q) echo_end \<Rightarrow> ('t, 'q) echo_end" where
  "client_stop e = e\<lparr>ee_running := False\<rparr>"

definition client_run :: "u8 list \<Rightarrow> ('t, 'q) echo_end \<Rightarrow> ('t, 'q) echo_end option" where
  "client_run payload e =
     (if \<not> ee_running e then count_down e else Some (request (socket_write payload [] (Some write_cb)) e))"

fun client_call :: "sk_call \<Rightarrow> ('t, 'q) echo_end \<Rightarrow> ('t, 'q) echo_end option" where
  "client_call (CallConnect i s) e = note_status s e"
| "client_call (CallWrite i s) e =
     (if s \<noteq> IoOk then count_down (fail_if True e)
      else Some (request (socket_read (Some read_cb)) e))"
| "client_call (CallRead i s data peer) e = count_down (fail_if (s \<noteq> IoOk) e)"
| "client_call _ e = None"

subsection \<open>An end and its loop\<close>

datatype 't end_event = Handle nat | Report io_event | Transport 't

fun run_calls :: "(sk_call \<Rightarrow> 'e \<Rightarrow> 'e option) \<Rightarrow> sk_call list \<Rightarrow> 'e \<Rightarrow> 'e option" where
  "run_calls h [] e = Some e"
| "run_calls h (c # cs) e = do { e1 \<leftarrow> h c e; run_calls h cs e1 }"

definition end_tick :: "(sk_call \<Rightarrow> ('t, 'q) echo_end \<Rightarrow> ('t, 'q) echo_end option) \<Rightarrow> ('t, 'q) sock_env \<Rightarrow>
    io_event \<Rightarrow> ('t, 'q) echo_end \<Rightarrow> ('t, 'q) echo_end option" where
  "end_tick h E ev e = do {
     (calls, s1) \<leftarrow> tick E ev (ee_socket e);
     run_calls h calls (e\<lparr>ee_socket := s1\<rparr>) }"

fun end_step :: "(sk_call \<Rightarrow> ('t, 'q) echo_end \<Rightarrow> ('t, 'q) echo_end option) \<Rightarrow> ('t, 'q) sock_env \<Rightarrow>
    't end_event \<Rightarrow> ('t, 'q) echo_end \<Rightarrow> ('t, 'q) echo_end option" where
  "end_step h E (Handle k) e =
     end_tick h E (ee_posted e ! k) (e\<lparr>ee_posted := take k (ee_posted e) @ drop (Suc k) (ee_posted e)\<rparr>)"
| "end_step h E (Report ev) e = end_tick h E ev e"
| "end_step h E (Transport t) e = Some (e\<lparr>ee_socket := (ee_socket e)\<lparr>sk_transport := t\<rparr>\<rparr>)"

fun end_enabled :: "('t \<Rightarrow> bool) \<Rightarrow> ('t \<Rightarrow> bool) \<Rightarrow> 't end_event \<Rightarrow> ('t, 'q) echo_end \<Rightarrow> bool" where
  "end_enabled tinv fresh (Handle k) e \<longleftrightarrow> k < length (ee_posted e)"
| "end_enabled tinv fresh (Report ev) e \<longleftrightarrow> is_report ev"
| "end_enabled tinv fresh (Transport t) e \<longleftrightarrow> tinv t \<and> (fresh (sk_transport (ee_socket e)) \<longrightarrow> fresh t)"

subsection \<open>The benchmark\<close>

datatype bench_pc = StartServer | AwaitServer | StartClient | AwaitClient | Iterate | RunServer | RunClient
  | JoinServer | JoinClient | BenchDone

record ('t, 'q) bench =
  bn_pc :: bench_pc
  bn_left :: nat
  bn_shutdown :: bool
  bn_server :: "('t, 'q) echo_end"
  bn_client :: "('t, 'q) echo_end"

definition kPayloadFillByte :: u8 where "kPayloadFillByte = 0xAB"

definition new_bench :: "('t, 'q) sock_env \<Rightarrow> 't \<Rightarrow> 't \<Rightarrow> nat \<Rightarrow> ('t, 'q) bench" where
  "new_bench E ts tc iterations = \<lparr>bn_pc = StartServer, bn_left = iterations, bn_shutdown = False,
     bn_server = createSocket E ts, bn_client = createSocket E tc\<rparr>"

fun main_enabled :: "('t, 'q) bench \<Rightarrow> bool" where
  "main_enabled b \<longleftrightarrow> (case bn_pc b of
      AwaitServer \<Rightarrow> ee_started (bn_server b) = 0
    | AwaitClient \<Rightarrow> ee_started (bn_client b) = 0
    | JoinServer \<Rightarrow> ee_latch (bn_server b) = 0
    | JoinClient \<Rightarrow> ee_latch (bn_client b) = 0
    | pc \<Rightarrow> pc \<noteq> BenchDone)"

definition BM_SocketPingPong :: "nat \<Rightarrow> ('t, 'q) bench \<Rightarrow> ('t, 'q) bench option" where
  \<comment> \<open>the next step of the main thread, where it does not wait\<close>
  "BM_SocketPingPong payload_size b = (case bn_pc b of
      StartServer \<Rightarrow> (let (waits, e) = server_start (bn_server b) in
        Some (b\<lparr>bn_server := e, bn_pc := if waits then AwaitServer else StartClient\<rparr>))
    | AwaitServer \<Rightarrow>
        Some (b\<lparr>bn_shutdown := bn_shutdown b \<or> ee_status (bn_server b) \<noteq> IoOk, bn_pc := StartClient\<rparr>)
    | StartClient \<Rightarrow> (let (waits, e) = client_start (bn_client b) in
        Some (b\<lparr>bn_client := e, bn_pc := if waits then AwaitClient else Iterate\<rparr>))
    | AwaitClient \<Rightarrow>
        Some (b\<lparr>bn_shutdown := bn_shutdown b \<or> ee_status (bn_client b) \<noteq> IoOk, bn_pc := Iterate\<rparr>)
    | Iterate \<Rightarrow> Some (
        if bn_left b = 0
        then b\<lparr>bn_server := server_stop (bn_server b), bn_client := client_stop (bn_client b), bn_pc := BenchDone\<rparr>
        else b\<lparr>bn_left := bn_left b - 1, bn_server := (bn_server b)\<lparr>ee_latch := 1\<rparr>,
               bn_client := (bn_client b)\<lparr>ee_latch := 1\<rparr>, bn_pc := RunServer\<rparr>)
    | RunServer \<Rightarrow> do {
        e \<leftarrow> server_run (bn_server b);
        Some (b\<lparr>bn_server := e, bn_pc := RunClient\<rparr>) }
    | RunClient \<Rightarrow> do {
        e \<leftarrow> client_run (replicate payload_size kPayloadFillByte) (bn_client b);
        Some (b\<lparr>bn_client := e, bn_pc := JoinServer\<rparr>) }
    | JoinServer \<Rightarrow> Some (b\<lparr>bn_pc := JoinClient\<rparr>)
    | JoinClient \<Rightarrow> Some (b\<lparr>bn_pc := Iterate\<rparr>)
    | BenchDone \<Rightarrow> Some b)"

datatype 't bench_event = Main | AtServer "'t end_event" | AtClient "'t end_event"

fun bench_step :: "('t, 'q) sock_env \<Rightarrow> nat \<Rightarrow> 't bench_event \<Rightarrow> ('t, 'q) bench \<Rightarrow> ('t, 'q) bench option" where
  "bench_step E bytes Main b = BM_SocketPingPong bytes b"
| "bench_step E bytes (AtServer x) b =
     map_option (\<lambda>e. b\<lparr>bn_server := e\<rparr>) (end_step server_call E x (bn_server b))"
| "bench_step E bytes (AtClient x) b =
     map_option (\<lambda>e. b\<lparr>bn_client := e\<rparr>) (end_step client_call E x (bn_client b))"

fun bench_enabled :: "('t \<Rightarrow> bool) \<Rightarrow> ('t \<Rightarrow> bool) \<Rightarrow> 't bench_event \<Rightarrow> ('t, 'q) bench \<Rightarrow> bool" where
  "bench_enabled tinv fresh Main b \<longleftrightarrow> main_enabled b"
| "bench_enabled tinv fresh (AtServer x) b \<longleftrightarrow> end_enabled tinv fresh x (bn_server b)"
| "bench_enabled tinv fresh (AtClient x) b \<longleftrightarrow> end_enabled tinv fresh x (bn_client b)"

inductive bench_reach :: "('t \<Rightarrow> bool) \<Rightarrow> ('t \<Rightarrow> bool) \<Rightarrow> ('t, 'q) sock_env \<Rightarrow> nat \<Rightarrow> ('t, 'q) bench \<Rightarrow> ('t, 'q) bench \<Rightarrow> bool"
  for tinv :: "'t \<Rightarrow> bool" and fresh :: "'t \<Rightarrow> bool" and E :: "('t, 'q) sock_env" and bytes :: nat
    and b0 :: "('t, 'q) bench" where
  bench_refl: "bench_reach tinv fresh E bytes b0 b0"
| bench_trans: "bench_reach tinv fresh E bytes b0 b \<Longrightarrow> bench_enabled tinv fresh x b \<Longrightarrow>
    bench_step E bytes x b = Some b1 \<Longrightarrow> bench_reach tinv fresh E bytes b0 b1"

fun bench_run :: "('t \<Rightarrow> bool) \<Rightarrow> ('t \<Rightarrow> bool) \<Rightarrow> ('t, 'q) sock_env \<Rightarrow> nat \<Rightarrow> 't bench_event list \<Rightarrow>
    ('t, 'q) bench \<Rightarrow> ('t, 'q) bench option" where
  \<comment> \<open>a given interleaving\<close>
  "bench_run tinv fresh E bytes [] b = Some b"
| "bench_run tinv fresh E bytes (x # xs) b =
     (if bench_enabled tinv fresh x b
      then do { b1 \<leftarrow> bench_step E bytes x b; bench_run tinv fresh E bytes xs b1 } else None)"

lemma bench_run_reach:
  "bench_run tinv fresh E bytes xs b = Some b1 \<Longrightarrow> bench_reach tinv fresh E bytes b0 b \<Longrightarrow>
     bench_reach tinv fresh E bytes b0 b1"
proof (induction xs arbitrary: b)
  case (Cons x xs)
  then show ?case by (auto split: if_splits Option.bind_splits intro: bench_trans)
qed simp

end
