(* ===== verification/EchoProps.thy ===== *)
theory EchoProps
  imports Echo
begin

section \<open>What the echo benchmark promises\<close>

text \<open>
  For every interleaving of the main thread, the loop at the two ends, and two transports of which only the
  laws of \<open>itransport_laws\<close> are known: each latch counts the callbacks that are still to be called, so that
  none is counted down below zero, none is waited for with nothing outstanding, and none is used after its
  round. The locale \<open>callbacks\<close> is what the bodies of the callbacks of an end keep.
\<close>

subsection \<open>Which function is called with what\<close>

datatype cb_kind = OnBind | OnConnect | OnRead | OnWrite | OnClose

fun call_kind :: "sk_call \<Rightarrow> cb_kind" where
  "call_kind (CallBind i status endpoint) = OnBind"
| "call_kind (CallConnect i status) = OnConnect"
| "call_kind (CallRead i status data peer) = OnRead"
| "call_kind (CallWrite i status) = OnWrite"
| "call_kind (CallClose i) = OnClose"

fun event_kinded :: "(cb_kind \<Rightarrow> nat \<Rightarrow> bool) \<Rightarrow> io_event \<Rightarrow> bool" where
  "event_kinded K (BindReq (Some i)) \<longleftrightarrow> K OnBind i"
| "event_kinded K (ConnectReq (Some i)) \<longleftrightarrow> K OnConnect i"
| "event_kinded K (ReadReq (Some i)) \<longleftrightarrow> K OnRead i"
| "event_kinded K (WriteReq data peer (Some i)) \<longleftrightarrow> K OnWrite i"
| "event_kinded K _ \<longleftrightarrow> True"

definition call_kinded :: "(cb_kind \<Rightarrow> nat \<Rightarrow> bool) \<Rightarrow> sk_call \<Rightarrow> bool" where
  "call_kinded K c \<longleftrightarrow> K (call_kind c) (call_id c)"

definition kinded :: "(cb_kind \<Rightarrow> nat \<Rightarrow> bool) \<Rightarrow> ('q \<Rightarrow> cb list) \<Rightarrow> ('t, 'q) socket \<Rightarrow> bool" where
  "kinded K items s \<longleftrightarrow>
     (\<forall>i. Some i \<in> set (items (sk_bind s)) \<longrightarrow> K OnBind i)
   \<and> (\<forall>i. Some i \<in> set (items (sk_connect s)) \<longrightarrow> K OnConnect i)
   \<and> (\<forall>i. Some i \<in> set (items (sk_read s)) \<longrightarrow> K OnRead i)
   \<and> (\<forall>peer req i. (peer, req) \<in> set (sk_write s) \<longrightarrow> wr_cb req = Some i \<longrightarrow> K OnWrite i)"

lemma kinded_transport [simp]: "kinded K items (s\<lparr>sk_transport := t\<rparr>) = kinded K items s"
  by (simp add: kinded_def)

lemma read_spec_kinded:
  "read_spec recv cs t calls left t1 \<Longrightarrow> \<forall>i. Some i \<in> set cs \<longrightarrow> K OnRead i \<Longrightarrow>
     list_all (call_kinded K) calls \<and> set left \<subseteq> set cs"
proof (induction rule: read_spec.induct)
  case (served t out t1 cs calls left t2 i)
  then show ?case by (auto simp: call_kinded_def read_call_def)
qed auto

lemma transportRead_kinded:
  assumes E: "sock_env_ok E items cap" and r: "transportRead E s = Some (calls, s1)" and k: "kinded K items s"
  shows "list_all (call_kinded K) calls \<and> kinded K items s1"
proof -
  obtain t where "read_spec (it_resumeRead (se_tr E) [] [] 0 0) (items (sk_read s)) (sk_transport s) calls
      (items (sk_read s1)) t"
    using transportRead_spec [OF E r] by blast
  from read_spec_kinded [OF this, of K] k transportRead_fifo [OF E r] show ?thesis
    by (auto simp: kinded_def same_but_read_def)
qed

lemma set_update_assoc: "(p, r) \<in> set (AList.update k v ws) \<Longrightarrow> (p, r) = (k, v) \<or> (p, r) \<in> set ws"
  by (induction ws) (auto split: if_splits)

lemma set_delete_assoc: "(p, r) \<in> set (AList.delete k ws) \<Longrightarrow> (p, r) \<in> set ws"
  by (induction ws) (auto split: if_splits)

lemma transportWrite_kinded:
  assumes "transportWrite E peer s = Some (calls, s1)" "kinded K items s"
  shows "list_all (call_kinded K) calls \<and> kinded K items s1"
  using assms
  by (fastforce simp: transportWrite_def kinded_def answer_if_def call_kinded_def Let_def
      dest!: set_update_assoc set_delete_assoc dest: map_of_SomeD split: option.splits prod.splits if_splits)

lemma take_front_set:
  assumes "sock_env_ok E items cap" "items q \<noteq> []"
  obtains c q1 where "take_front E q = (c, q1)" "c \<in> set (items q)" "set (items q1) \<subseteq> set (items q)"
proof -
  from assms(2) obtain x xs where q: "items q = x # xs" by (cases "items q") auto
  from take_front_ok [OF assms(1) q] that q show thesis by (metis list.set_intros(1) set_subset_Cons)
qed

lemma tick_kinded:
  assumes E: "sock_env_ok E items cap" and t: "tick E e s = Some (calls, s1)" and inv: "sk_inv items cap s"
    and k: "kinded K items s" and e: "event_kinded K e" "\<not> is_close e"
  shows "list_all (call_kinded K) calls \<and> kinded K items s1"
proof (cases e)
  case (BindReq c)
  with t k e inv show ?thesis
    by (auto simp: tick_BindReq_def answer_Some kinded_def call_kinded_def sk_inv_def ring_okD [OF E] split: if_splits)
next
  case (ConnectReq c)
  with t k e inv show ?thesis
    by (auto simp: tick_ConnectReq_def answer_Some kinded_def call_kinded_def sk_inv_def ring_okD [OF E] split: if_splits)
next
  case (BindRep status endpoint)
  show ?thesis
  proof (cases "sk_state s = BindWait")
    case True
    with inv have "items (sk_bind s) \<noteq> []" by (auto simp: sk_inv_def)
    then obtain c q1 where "take_front E (sk_bind s) = (c, q1)" "c \<in> set (items (sk_bind s))"
        "set (items q1) \<subseteq> set (items (sk_bind s))" by (rule take_front_set [OF E])
    with t True k BindRep show ?thesis
      by (auto simp: tick_BindRep_def Let_def ring_okD [OF E] answer_Some kinded_def call_kinded_def split: if_splits)
  qed (use t k BindRep in \<open>auto simp: tick_BindRep_def\<close>)
next
  case (ConnectRep status)
  show ?thesis
  proof (cases "sk_state s = ConnectWait")
    case True
    with inv have "items (sk_connect s) \<noteq> []" by (auto simp: sk_inv_def)
    then obtain c q1 where "take_front E (sk_connect s) = (c, q1)" "c \<in> set (items (sk_connect s))"
        "set (items q1) \<subseteq> set (items (sk_connect s))" by (rule take_front_set [OF E])
    with t True k ConnectRep show ?thesis
      by (auto simp: tick_ConnectRep_def Let_def ring_okD [OF E] answer_Some kinded_def call_kinded_def split: if_splits)
  qed (use t k ConnectRep in \<open>auto simp: tick_ConnectRep_def\<close>)
next
  case (ReadReq c)
  let ?s = "s\<lparr>sk_read := rg_push (se_ring E) c (sk_read s)\<rparr>"
  show ?thesis
  proof (cases "sk_state s = CloseWait \<or> sk_state s = Closed \<or> rg_full (se_ring E) (sk_read s)")
    case True
    with t k e ReadReq show ?thesis
      by (auto simp: tick_ReadReq_def answer_Some call_kinded_def split: if_splits)
  next
    case False
    then have "kinded K items ?s"
      using k e ReadReq ring_okD(4,5) [OF E, of "sk_read s"] by (auto simp: kinded_def)
    with False t ReadReq transportRead_kinded [OF E, of ?s] show ?thesis by (simp add: tick_ReadReq_def)
  qed
next
  case ReadReadyRep
  with t k transportRead_kinded [OF E] show ?thesis by simp
next
  case (WriteReq data peer c)
  let ?s = "s\<lparr>sk_write := AList.update peer \<lparr>wr_data = data, wr_peer = peer, wr_cb = c\<rparr> (sk_write s)\<rparr>"
  have "kinded K items ?s"
    using k e WriteReq by (cases c) (fastforce simp: kinded_def dest!: set_update_assoc)+
  with t k e WriteReq transportWrite_kinded [of E peer ?s] show ?thesis
    by (auto simp: tick_WriteReq_def answer_Some call_kinded_def split: if_splits)
next
  case (WriteReadyRep peer)
  with t k transportWrite_kinded show ?thesis by simp
next
  case (CloseReq c)
  with e show ?thesis by simp
qed

subsection \<open>What an end keeps\<close>

definition outstanding :: "('q \<Rightarrow> cb list) \<Rightarrow> ('t, 'q) echo_end \<Rightarrow> nat multiset" where
  \<comment> \<open>the callbacks still to be called\<close>
  "outstanding items e = pending items (ee_socket e) + (\<Sum>ev \<leftarrow> ee_posted e. requested ev)"

definition tally :: "nat \<Rightarrow> ('t, 'q) echo_end \<Rightarrow> nat multiset \<Rightarrow> bool" where
  \<comment> \<open>\<open>owed\<close>: the call of \<open>run\<close> that is still to come\<close>
  "tally owed e M \<longleftrightarrow> set_mset M \<subseteq> {start_cb, read_cb, write_cb} \<and> count M start_cb = ee_started e
     \<and> count M read_cb + count M write_cb + owed = ee_latch e"

fun cb_of :: "cb_kind \<Rightarrow> cb_kind \<Rightarrow> nat \<Rightarrow> bool" where
  "cb_of starting OnRead i \<longleftrightarrow> i = read_cb"
| "cb_of starting OnWrite i \<longleftrightarrow> i = write_cb"
| "cb_of starting k i \<longleftrightarrow> (if k = starting then i = start_cb else i = 3)"

definition posts_ok :: "cb_kind \<Rightarrow> io_event list \<Rightarrow> bool" where
  "posts_ok starting evs \<longleftrightarrow>
     list_all (\<lambda>ev. event_ok False ev \<and> \<not> is_close ev \<and> event_kinded (cb_of starting) ev) evs"

lemma posts_ok_simps [simp]:
  "posts_ok starting []"
  "posts_ok starting (ev # evs) \<longleftrightarrow>
     event_ok False ev \<and> \<not> is_close ev \<and> event_kinded (cb_of starting) ev \<and> posts_ok starting evs"
  "posts_ok starting (evs @ evs') \<longleftrightarrow> posts_ok starting evs \<and> posts_ok starting evs'"
  by (simp_all add: posts_ok_def)

lemma tally_frame [simp]:
  "tally owed (e\<lparr>ee_socket := s\<rparr>) M = tally owed e M" "tally owed (e\<lparr>ee_posted := evs\<rparr>) M = tally owed e M"
  "tally owed (e\<lparr>ee_running := r\<rparr>) M = tally owed e M"
  by (simp_all add: tally_def)

lemma tally_pos:
  "tally owed e (add_mset i M) \<Longrightarrow> i = start_cb \<and> 0 < ee_started e \<or> i \<in> {read_cb, write_cb} \<and> 0 < ee_latch e"
  by (auto simp: tally_def split: if_splits)

definition winds_down :: "('t, 'q) echo_end \<Rightarrow> ('t, 'q) echo_end \<Rightarrow> bool" where
  "winds_down e e1 \<longleftrightarrow> ee_latch e1 \<le> ee_latch e \<and> ee_started e1 \<le> ee_started e \<and> (ee_running e1 \<longrightarrow> ee_running e)"

locale callbacks =
  fixes h :: "sk_call \<Rightarrow> ('t, 'q) echo_end \<Rightarrow> ('t, 'q) echo_end option" and starting :: cb_kind
  assumes call_ok: "call_kinded (cb_of starting) c \<Longrightarrow> tally owed e (add_mset (call_id c) M) \<Longrightarrow>
    \<exists>e1 evs. h c e = Some e1 \<and> ee_socket e1 = ee_socket e \<and> ee_posted e1 = ee_posted e @ evs
      \<and> posts_ok starting evs \<and> tally owed e1 (M + (\<Sum>ev \<leftarrow> evs. requested ev))"
    and call_down: "h c e = Some e1 \<Longrightarrow> winds_down e e1"
begin

lemma calls_down: "run_calls h calls e = Some e1 \<Longrightarrow> winds_down e e1"
proof (induction calls arbitrary: e)
  case (Cons c calls)
  then obtain e2 where "h c e = Some e2" "winds_down e2 e1" by (auto split: Option.bind_splits)
  with call_down [of c e e2] show ?case by (auto simp: winds_down_def)
qed (simp add: winds_down_def)

lemma end_tick_down: "end_tick h E ev e = Some e1 \<Longrightarrow> winds_down e e1"
  by (auto simp: end_tick_def winds_down_def dest!: calls_down split: Option.bind_splits)

lemma end_step_down: "end_step h E x e = Some e1 \<Longrightarrow> winds_down e e1"
  by (cases x) (auto dest!: end_tick_down simp: winds_down_def)

lemma calls_ok:
  "list_all (call_kinded (cb_of starting)) calls \<Longrightarrow> tally owed e (M + called calls) \<Longrightarrow>
    \<exists>e1 evs. run_calls h calls e = Some e1 \<and> ee_socket e1 = ee_socket e \<and> ee_posted e1 = ee_posted e @ evs
      \<and> posts_ok starting evs \<and> tally owed e1 (M + (\<Sum>ev \<leftarrow> evs. requested ev))"
proof (induction calls arbitrary: e M)
  case (Cons c calls)
  then have c: "call_kinded (cb_of starting) c" "tally owed e (add_mset (call_id c) (M + called calls))" by simp_all
  obtain e1 evs where e1: "h c e = Some e1" "ee_socket e1 = ee_socket e" "ee_posted e1 = ee_posted e @ evs"
      "posts_ok starting evs" "tally owed e1 (M + called calls + (\<Sum>ev \<leftarrow> evs. requested ev))"
    using call_ok [OF c] by blast
  have "tally owed e1 (M + (\<Sum>ev \<leftarrow> evs. requested ev) + called calls)" using e1(5) by (simp add: ac_simps)
  from Cons.IH [OF _ this] Cons.prems(1) obtain e2 evs' where
    "run_calls h calls e1 = Some e2" "ee_socket e2 = ee_socket e1" "ee_posted e2 = ee_posted e1 @ evs'"
    "posts_ok starting evs'" "tally owed e2 (M + (\<Sum>ev \<leftarrow> evs. requested ev) + (\<Sum>ev \<leftarrow> evs'. requested ev))"
    by auto
  with e1 show ?case by (intro exI [of _ e2] exI [of _ "evs @ evs'"]) (simp add: ac_simps)
qed auto

end

definition end_inv :: "cb_kind \<Rightarrow> ('q \<Rightarrow> cb list) \<Rightarrow> (('t, 'q) socket \<Rightarrow> bool) \<Rightarrow> nat \<Rightarrow> ('t, 'q) echo_end \<Rightarrow> bool" where
  "end_inv starting items good owed e \<longleftrightarrow> good (ee_socket e) \<and> kinded (cb_of starting) items (ee_socket e)
     \<and> posts_ok starting (ee_posted e) \<and> tally owed e (outstanding items e)"

definition echo_env_ok :: "('t, 'q) sock_env \<Rightarrow> ('t \<Rightarrow> bool) \<Rightarrow> ('t \<Rightarrow> bool) \<Rightarrow> ('q \<Rightarrow> cb list) \<Rightarrow> ('q \<Rightarrow> nat) \<Rightarrow> bool" where
  \<comment> \<open>the buffers and tables are the library's, the transport keeps its laws, and no peer ends its stream\<close>
  "echo_env_ok E tinv fresh items cap \<longleftrightarrow> sock_env_ok E items cap \<and> \<not> se_emplace_moves E
     \<and> itransport_laws (se_tr E) tinv fresh False"

abbreviation tr_good :: "('t \<Rightarrow> bool) \<Rightarrow> ('t \<Rightarrow> bool) \<Rightarrow> ('q \<Rightarrow> cb list) \<Rightarrow> ('q \<Rightarrow> nat) \<Rightarrow> ('t, 'q) socket \<Rightarrow> bool" where
  "tr_good tinv fresh items cap \<equiv> itransport_laws.good tinv fresh False items cap"

context callbacks
begin

lemma end_tick_ok:
  assumes env: "echo_env_ok E tinv fresh items cap"
    and good: "tr_good tinv fresh items cap (ee_socket e)"
    and k: "kinded (cb_of starting) items (ee_socket e)" "posts_ok starting (ee_posted e)"
    and ev: "posts_ok starting [ev]" and t: "tally owed e (outstanding items e + requested ev)"
  shows "\<exists>e1. end_tick h E ev e = Some e1 \<and> end_inv starting items (tr_good tinv fresh items cap) owed e1"
proof -
  have E: "sock_env_ok E items cap" "\<not> se_emplace_moves E" and T: "itransport_laws (se_tr E) tinv fresh False"
    using env by (simp_all add: echo_env_ok_def)
  let ?s = "ee_socket e"
  have inv: "sk_inv items cap ?s" using good by (simp add: itransport_laws.good_def [OF T])
  obtain calls s1 where r: "tick E ev ?s = Some (calls, s1)" "tr_good tinv fresh items cap s1"
    using itransport_laws.tick_good [OF T E(1) refl E(2) _ good, of ev] ev by auto
  have "called calls + pending items s1 = pending items ?s + requested ev"
    using tick_pending [OF E(1) r(1) inv] ev by simp
  then have "outstanding items e + requested ev = pending items s1 + (\<Sum>x \<leftarrow> ee_posted e. requested x) + called calls"
    by (simp add: outstanding_def ac_simps)
  with t have ta: "tally owed (e\<lparr>ee_socket := s1\<rparr>) (pending items s1 + (\<Sum>x \<leftarrow> ee_posted e. requested x) + called calls)"
    by simp
  have kd: "list_all (call_kinded (cb_of starting)) calls" "kinded (cb_of starting) items s1"
    using tick_kinded [OF E(1) r(1) inv k(1)] ev by simp_all
  from calls_ok [OF kd(1) ta] obtain e1 evs where e1: "run_calls h calls (e\<lparr>ee_socket := s1\<rparr>) = Some e1" "ee_socket e1 = s1"
      "ee_posted e1 = ee_posted e @ evs" "posts_ok starting evs"
      "tally owed e1 (pending items s1 + (\<Sum>x \<leftarrow> ee_posted e. requested x) + (\<Sum>ev \<leftarrow> evs. requested ev))"
    by auto
  then have "end_inv starting items (tr_good tinv fresh items cap) owed e1"
    using r(2) kd(2) k(2) by (simp add: end_inv_def outstanding_def ac_simps)
  with r(1) e1(1) show ?thesis by (simp add: end_tick_def)
qed

lemma end_step_ok:
  assumes env: "echo_env_ok E tinv fresh items cap" and inv: "end_inv starting items (tr_good tinv fresh items cap) owed e"
    and en: "end_enabled tinv fresh x e"
  shows "\<exists>e1. end_step h E x e = Some e1 \<and> end_inv starting items (tr_good tinv fresh items cap) owed e1"
proof -
  have T: "itransport_laws (se_tr E) tinv fresh False" using env by (simp add: echo_env_ok_def)
  note i = inv [unfolded end_inv_def]
  show ?thesis
  proof (cases x)
    case (Handle k)
    with en have k: "k < length (ee_posted e)" by simp
    let ?rest = "take k (ee_posted e) @ drop (Suc k) (ee_posted e)" and ?ev = "ee_posted e ! k"
    have "posts_ok starting (take k (ee_posted e) @ ?ev # drop (Suc k) (ee_posted e))"
      using i id_take_nth_drop [OF k] by simp
    then have "posts_ok starting ?rest" "posts_ok starting [?ev]" by simp_all
    moreover have "outstanding items (e\<lparr>ee_posted := ?rest\<rparr>) + requested ?ev = outstanding items e"
      using sum_list_remove [OF k, of requested] by (simp add: outstanding_def ac_simps)
    ultimately show ?thesis
      using end_tick_ok [OF env, of "e\<lparr>ee_posted := ?rest\<rparr>" ?ev owed] i Handle by simp
  next
    case (Report ev)
    then have rep: "is_report ev" using en by simp
    then have "posts_ok starting [ev]" "requested ev = {#}" by (cases ev; simp)+
    with end_tick_ok [OF env, of e ev owed] i Report show ?thesis by simp
  next
    case (Transport t)
    with en i show ?thesis
      by (simp add: end_inv_def itransport_laws.good_def [OF T] sk_inv_def outstanding_def pending_def)
  qed
qed

end

subsection \<open>The callbacks of the two ends\<close>

lemma count_down_ok: "0 < ee_latch e \<Longrightarrow> count_down e = Some (e\<lparr>ee_latch := ee_latch e - 1\<rparr>)"
  by (simp add: count_down_def)

lemma server_call_down: "server_call c e = Some e1 \<Longrightarrow> winds_down e e1"
  by (cases c)
    (auto simp: winds_down_def count_down_def note_status_def fail_if_def request_def split: if_splits)

interpretation server: callbacks server_call OnBind
proof
  fix c owed and e :: "('a, 'b) echo_end" and M
  assume k: "call_kinded (cb_of OnBind) c" and t: "tally owed e (add_mset (call_id c) M)"
  show "\<exists>e1 evs. server_call c e = Some e1 \<and> ee_socket e1 = ee_socket e \<and> ee_posted e1 = ee_posted e @ evs
      \<and> posts_ok OnBind evs \<and> tally owed e1 (M + (\<Sum>ev \<leftarrow> evs. requested ev))"
  proof (cases c)
    case (CallRead i status data peer)
    then show ?thesis
    proof (cases "status = IoOk")
      case True
      with k t CallRead show ?thesis
        by (intro exI [of _ "request (socket_write data peer (Some write_cb)) e"])
          (auto simp: call_kinded_def request_def socket_write_def tally_def)
    qed (use k t CallRead in \<open>auto simp: call_kinded_def count_down_def fail_if_def tally_def\<close>)
  qed (use k t in \<open>auto simp: call_kinded_def count_down_def note_status_def fail_if_def tally_def\<close>)
qed (rule server_call_down)

lemma client_call_down: "client_call c e = Some e1 \<Longrightarrow> winds_down e e1"
  by (cases c)
    (auto simp: winds_down_def count_down_def note_status_def fail_if_def request_def split: if_splits)

interpretation client: callbacks client_call OnConnect
proof
  fix c owed and e :: "('a, 'b) echo_end" and M
  assume k: "call_kinded (cb_of OnConnect) c" and t: "tally owed e (add_mset (call_id c) M)"
  show "\<exists>e1 evs. client_call c e = Some e1 \<and> ee_socket e1 = ee_socket e \<and> ee_posted e1 = ee_posted e @ evs
      \<and> posts_ok OnConnect evs \<and> tally owed e1 (M + (\<Sum>ev \<leftarrow> evs. requested ev))"
  proof (cases c)
    case (CallWrite i s)
    then show ?thesis
    proof (cases "s = IoOk")
      case True
      with k t CallWrite show ?thesis
        by (intro exI [of _ "request (socket_read (Some read_cb)) e"])
          (auto simp: call_kinded_def request_def socket_read_def tally_def)
    qed (use k t CallWrite in \<open>auto simp: call_kinded_def count_down_def fail_if_def tally_def\<close>)
  qed (use k t in \<open>auto simp: call_kinded_def count_down_def note_status_def fail_if_def tally_def\<close>)
qed (rule client_call_down)

subsection \<open>The benchmark\<close>

fun owed_server :: "bench_pc \<Rightarrow> nat" where
  "owed_server RunServer = 1"
| "owed_server _ = 0"

fun owed_client :: "bench_pc \<Rightarrow> nat" where
  "owed_client RunServer = 1"
| "owed_client RunClient = 1"
| "owed_client _ = 0"

definition between_rounds :: "bench_pc \<Rightarrow> bool" where
  [simp]: "between_rounds pc \<longleftrightarrow> pc \<in> {StartServer, AwaitServer, StartClient, AwaitClient, Iterate, BenchDone}"

definition latches_ok :: "('t, 'q) bench \<Rightarrow> bool" where
  "latches_ok b \<longleftrightarrow> ee_latch (bn_server b) \<le> (if between_rounds (bn_pc b) \<or> bn_pc b = JoinClient then 0 else 1)
     \<and> ee_latch (bn_client b) \<le> (if between_rounds (bn_pc b) then 0 else 1)
     \<and> ee_started (bn_server b) \<le> (if bn_pc b = AwaitServer then 1 else 0)
     \<and> ee_started (bn_client b) \<le> (if bn_pc b = AwaitClient then 1 else 0)"

definition bench_inv :: "('q \<Rightarrow> cb list) \<Rightarrow> (('t, 'q) socket \<Rightarrow> bool) \<Rightarrow> ('t, 'q) bench \<Rightarrow> bool" where
  "bench_inv items good b \<longleftrightarrow> end_inv OnBind items good (owed_server (bn_pc b)) (bn_server b)
     \<and> end_inv OnConnect items good (owed_client (bn_pc b)) (bn_client b) \<and> latches_ok b"

lemma end_inv_frame [simp]:
  "end_inv starting items good owed (e\<lparr>ee_running := r\<rparr>) = end_inv starting items good owed e"
  by (simp add: end_inv_def outstanding_def)

lemma end_inv_tally: "end_inv starting items good owed e \<Longrightarrow> tally owed e (outstanding items e)"
  by (simp add: end_inv_def)

lemma end_inv_latch:
  "ee_latch e = 0 \<Longrightarrow> end_inv starting items good 0 e \<Longrightarrow> end_inv starting items good 1 (e\<lparr>ee_latch := 1\<rparr>)"
  by (simp add: end_inv_def tally_def outstanding_def)

lemma end_inv_request:
  assumes "end_inv starting items good (Suc owed) e" "posts_ok starting [ev]" "requested ev = {#i#}" "i = read_cb \<or> i = write_cb"
  shows "end_inv starting items good owed (request [ev] e)"
  using assms by (auto simp: end_inv_def tally_def request_def outstanding_def)

lemma end_inv_count_down:
  assumes "end_inv starting items good (Suc owed) e"
  shows "\<exists>e1. count_down e = Some e1 \<and> end_inv starting items good owed e1 \<and> winds_down e e1"
  using assms by (auto simp: end_inv_def tally_def outstanding_def count_down_def winds_down_def)

lemma end_inv_start:
  assumes "end_inv starting items good owed e" "ee_started e = 0" "posts_ok starting [ev]" "requested ev = {#start_cb#}"
  shows "end_inv starting items good owed (request [ev] (e\<lparr>ee_running := True, ee_status := s, ee_started := 1\<rparr>))"
  using assms by (auto simp: end_inv_def tally_def request_def outstanding_def)

lemma server_run_ok:
  assumes "end_inv OnBind items good (Suc owed) e"
  shows "\<exists>e1. server_run e = Some e1 \<and> end_inv OnBind items good owed e1 \<and> winds_down e e1"
  using end_inv_count_down [OF assms] end_inv_request [OF assms, of "ReadReq (Some read_cb)" read_cb]
  by (auto simp: server_run_def socket_read_def winds_down_def request_def)

lemma client_run_ok:
  assumes "end_inv OnConnect items good (Suc owed) e"
  shows "\<exists>e1. client_run data e = Some e1 \<and> end_inv OnConnect items good owed e1 \<and> winds_down e e1"
  using end_inv_count_down [OF assms] end_inv_request [OF assms, of "WriteReq data [] (Some write_cb)" write_cb]
  by (auto simp: client_run_def socket_write_def winds_down_def request_def)

lemma main_step_ok:
  assumes inv: "bench_inv items good b" and en: "main_enabled b"
  shows "\<exists>b1. BM_SocketPingPong bytes b = Some b1 \<and> bench_inv items good b1"
proof (cases "bn_pc b")
  case StartServer
  with inv end_inv_start [of OnBind items good 0 "bn_server b" "BindReq (Some start_cb)" IoFatal] show ?thesis
    by (auto simp: BM_SocketPingPong_def server_start_def socket_bind_def bench_inv_def latches_ok_def request_def)
next
  case StartClient
  with inv end_inv_start [of OnConnect items good 0 "bn_client b" "ConnectReq (Some start_cb)" IoFatal] show ?thesis
    by (auto simp: BM_SocketPingPong_def client_start_def socket_connect_def bench_inv_def latches_ok_def request_def)
next
  case Iterate
  with inv end_inv_latch [of "bn_server b" OnBind items good] end_inv_latch [of "bn_client b" OnConnect items good]
  show ?thesis
    by (auto simp: BM_SocketPingPong_def server_stop_def client_stop_def bench_inv_def latches_ok_def)
next
  case RunServer
  with inv obtain e1 where "server_run (bn_server b) = Some e1"
      "end_inv OnBind items good 0 e1" "winds_down (bn_server b) e1"
    using server_run_ok [of items good 0 "bn_server b"] by (auto simp: bench_inv_def)
  with RunServer inv show ?thesis
    by (simp add: BM_SocketPingPong_def bench_inv_def latches_ok_def winds_down_def)
next
  case RunClient
  with inv obtain e1 where "client_run (replicate bytes kPayloadFillByte) (bn_client b) = Some e1"
      "end_inv OnConnect items good 0 e1" "winds_down (bn_client b) e1"
    using client_run_ok [of items good 0 "bn_client b"] by (auto simp: bench_inv_def)
  with RunClient inv show ?thesis
    by (simp add: BM_SocketPingPong_def bench_inv_def latches_ok_def winds_down_def)
qed (use inv en in \<open>auto simp: BM_SocketPingPong_def bench_inv_def latches_ok_def\<close>)

lemma bench_step_ok:
  assumes env: "echo_env_ok E tinv fresh items cap" and inv: "bench_inv items (tr_good tinv fresh items cap) b"
    and en: "bench_enabled tinv fresh x b"
  shows "\<exists>b1. bench_step E bytes x b = Some b1 \<and> bench_inv items (tr_good tinv fresh items cap) b1"
proof (cases x)
  case Main
  with main_step_ok [OF inv] en show ?thesis by simp
next
  case (AtServer y)
  with inv en obtain e1 where e1: "end_step server_call E y (bn_server b) = Some e1"
      "end_inv OnBind items (tr_good tinv fresh items cap) (owed_server (bn_pc b)) e1"
    using server.end_step_ok [OF env, of "owed_server (bn_pc b)" "bn_server b" y] by (auto simp: bench_inv_def)
  from server.end_step_down [OF e1(1)] e1 AtServer inv show ?thesis
    by (auto simp: bench_inv_def latches_ok_def winds_down_def split: if_splits)
next
  case (AtClient y)
  with inv en obtain e1 where e1: "end_step client_call E y (bn_client b) = Some e1"
      "end_inv OnConnect items (tr_good tinv fresh items cap) (owed_client (bn_pc b)) e1"
    using client.end_step_ok [OF env, of "owed_client (bn_pc b)" "bn_client b" y] by (auto simp: bench_inv_def)
  from client.end_step_down [OF e1(1)] e1 AtClient inv show ?thesis
    by (auto simp: bench_inv_def latches_ok_def winds_down_def split: if_splits)
qed

lemma new_bench_inv:
  assumes env: "echo_env_ok E tinv fresh items cap" and t: "tinv ts" "fresh ts" "tinv tc" "fresh tc"
  shows "bench_inv items (tr_good tinv fresh items cap) (new_bench E ts tc n)"
proof -
  have E: "sock_env_ok E items cap" and T: "itransport_laws (se_tr E) tinv fresh False"
    using env by (simp_all add: echo_env_ok_def)
  have "end_inv starting items (tr_good tinv fresh items cap) 0 (createSocket E t)" if "tinv t" "fresh t" for starting t
    using that new_socket_inv [OF E, of t]
    by (simp add: end_inv_def createSocket_def outstanding_def tally_def kinded_def itransport_laws.good_def [OF T])
      (simp add: new_socket_def ring_okD [OF E])
  with t show ?thesis by (simp add: bench_inv_def new_bench_def latches_ok_def) (simp add: createSocket_def)
qed

lemma bench_reach_inv:
  assumes "bench_reach tinv fresh E bytes b0 b" "echo_env_ok E tinv fresh items cap"
    and "bench_inv items (tr_good tinv fresh items cap) b0"
  shows "bench_inv items (tr_good tinv fresh items cap) b"
  using assms
proof (induction rule: bench_reach.induct)
  case (bench_trans b x b1)
  from bench_step_ok [OF bench_trans.prems(1) bench_trans.IH [OF bench_trans.prems] bench_trans.hyps(2), of bytes]
    bench_trans.hyps(3) show ?case by auto
qed

lemma tally_size: "tally owed e M \<Longrightarrow> ee_started e + ee_latch e = size M + owed"
proof -
  assume t: "tally owed e M"
  then have "size M = (\<Sum>i \<in> {0, 1, 2 :: nat}. count M i)"
    unfolding size_multiset_overloaded_eq
    by (intro sum.mono_neutral_left) (auto simp: tally_def count_eq_zero_iff)
  with t show ?thesis by (simp add: tally_def)
qed

lemma bench_inv_sizes:
  assumes "bench_inv items good b"
  shows "ee_started (bn_server b) + ee_latch (bn_server b) = size (outstanding items (bn_server b)) + owed_server (bn_pc b)"
    and "ee_started (bn_client b) + ee_latch (bn_client b) = size (outstanding items (bn_client b)) + owed_client (bn_pc b)"
  using assms unfolding bench_inv_def by (blast intro: tally_size end_inv_tally)+


subsection \<open>A client that has failed\<close>

definition silent :: "('q \<Rightarrow> cb list) \<Rightarrow> ('t, 'q) bench \<Rightarrow> bool" where
  "silent items b \<longleftrightarrow> \<not> ee_running (bn_client b) \<and> outstanding items (bn_client b) = {#}
     \<and> bn_pc b \<notin> {StartServer, AwaitServer, StartClient}"

lemma silent_step:
  assumes env: "echo_env_ok E tinv fresh items cap" and inv: "bench_inv items (tr_good tinv fresh items cap) b"
    and en: "bench_enabled tinv fresh x b" and st: "bench_step E bytes x b = Some b1" and si: "silent items b"
  shows "silent items b1"
proof (cases x)
  case Main
  with st si show ?thesis
    by (auto simp: BM_SocketPingPong_def silent_def client_run_def count_down_def client_stop_def outstanding_def
        split: bench_pc.splits if_splits Option.bind_splits)
next
  case (AtServer y)
  with st si show ?thesis by (auto simp: silent_def)
next
  case (AtClient y)
  with st obtain e1 where e1: "end_step client_call E y (bn_client b) = Some e1" "b1 = b\<lparr>bn_client := e1\<rparr>" by auto
  have down: "winds_down (bn_client b) e1" by (rule client.end_step_down [OF e1(1)])
  have "end_inv OnConnect items (tr_good tinv fresh items cap) (owed_client (bn_pc b)) (bn_client b)"
    using inv by (simp add: bench_inv_def)
  with client.end_step_ok [OF env this, of y] en AtClient e1(1)
  have t: "tally (owed_client (bn_pc b)) (bn_client b) (outstanding items (bn_client b))"
      "tally (owed_client (bn_pc b)) e1 (outstanding items e1)" by (auto intro: end_inv_tally)
  have "size (outstanding items e1) = 0"
    using tally_size [OF t(1)] tally_size [OF t(2)] down si
    by (auto simp: silent_def winds_down_def simp del: size_eq_0_iff_empty)
  with down si e1(2) show ?thesis by (auto simp: silent_def winds_down_def)
qed


subsection \<open>Transports that keep the laws\<close>

text \<open>The laws hold of the TCP transport, and of the queue of messages of the demonstration.\<close>

lemma echo_over_tcp:
  assumes "over_tcp E N items cap" "\<not> recv_eof N"
  shows "echo_env_ok E (tcp_ok N op) (tcp_fresh N op) items cap"
  using assms tcp_laws.itransport_laws_axioms [of N op] by (simp add: echo_env_ok_def over_tcp_def)

definition demo_msgs :: "u8 list list \<Rightarrow> bool" where "demo_msgs t \<longleftrightarrow> [] \<notin> set t"

definition broken_sock :: "(u8 list list, nat \<times> cb list) sock_env" where
  \<comment> \<open>every write fails\<close>
  "broken_sock = demo_sock\<lparr>se_tr := demo_tr\<lparr>it_resumeWrite := (\<lambda>data peer t. (0, IoError, data, t))\<rparr>\<rparr>"

lemma demo_echo_env: "echo_env_ok demo_sock demo_msgs demo_msgs snd fst"
  "echo_env_ok broken_sock demo_msgs demo_msgs snd fst"
  using demo_sock_ok
  by (auto simp: echo_env_ok_def broken_sock_def demo_sock_def sock_env_ok_def demo_msgs_def demo_tr_def
      split: list.splits intro!: itransport_laws.intro)

definition demo_round :: "u8 list list bench_event list" where
  \<comment> \<open>starting, and a first round up to the wait for the server\<close>
  "demo_round = [Main, AtServer (Handle 0), AtServer (Report (BindRep IoOk ''me'')), Main,
     Main, AtClient (Handle 0), AtClient (Report (ConnectRep IoOk)), Main, Main, Main, Main]"

definition demo_reply :: "u8 list list bench_event list" where
  \<comment> \<open>the message reaches the server and returns, and the main thread joins\<close>
  "demo_reply = (let message = replicate 3 kPayloadFillByte in
     [AtServer (Handle 0), AtClient (Handle 0), AtServer (Transport [message]), AtServer (Report ReadReadyRep),
      AtServer (Handle 0), AtClient (Handle 0), AtClient (Transport [message]), AtClient (Report ReadReadyRep),
      Main, Main])"

lemmas demo_bench_defs = demo_round_def demo_reply_def new_bench_def createSocket_def new_socket_def broken_sock_def
  demo_sock_def demo_ring_def demo_tr_def demo_msgs_def BM_SocketPingPong_def server_start_def client_start_def
  server_run_def client_run_def socket_bind_def socket_connect_def socket_read_def socket_write_def request_def
  end_tick_def tick_BindReq_def tick_BindRep_def tick_ConnectReq_def tick_ConnectRep_def tick_WriteReq_def
  tick_ReadReq_def transportRead.simps transportWrite_def take_front_def answer_def answer_if_def note_status_def
  fail_if_def count_down_def outstanding_def pending_def



end
