(* ===== verification/TaskWatcher.thy ===== *)
theory TaskWatcher
  imports Watcher
begin

section \<open>The event watcher of the exercises\<close>

text \<open>
  Models \<open>tasks/event_watcher/event_watcher.hpp\<close> and \<open>.cpp\<close>; the files of the same name in
  \<open>tasks/socket\<close> are copies of these. The callbacks stand in one table keyed by descriptor and
  direction, and every change of it is a task handed to \<open>runInEventWatcherLoop\<close>. The bodies of
  \<open>runInEventWatcherLoop\<close>, \<open>invokeCallback\<close> and \<open>waitLoop\<close> are left to the reader of the exercise
  and empty in the repository: the first is the parameter \<open>te_submit\<close>, the other two do not appear.
  The descriptors, the queue of tasks, the pipe and the user's functions are parameters too. Tasks and
  the calls of \<open>epoll_ctl\<close> they make use the vocabulary of the transports' watcher.
\<close>

unbundle bit_operations_syntax

subsection \<open>State and tasks\<close>

type_synonym 'c callbacks = "((int \<times> wflag) \<times> 'c) list"

record ('c, 'q) task_watcher =
  tw_epoll :: int
  tw_read_end :: int
  tw_write_end :: int
  tw_callbacks :: "'c callbacks"
  tw_running :: bool
  tw_queue :: 'q
  tw_ctls :: "ctl list" \<comment> \<open>the calls of \<open>epoll_ctl\<close>\<close>
  tw_closed :: "int list" \<comment> \<open>the descriptors closed, in order\<close>

datatype 'c wtask = DoWatch int wflag 'c | DoUnwatch int wflag | DoUnwatchAll | DoUser 'c

record ('c, 'q, 'w) task_env =
  te_submit :: "'c wtask \<Rightarrow> ('c, 'q) task_watcher \<times> 'w \<Rightarrow> ('c, 'q) task_watcher \<times> 'w"
  te_pop :: "'q \<Rightarrow> 'c wtask option option \<times> 'q" \<comment> \<open>\<open>tryTake\<close>; a task may be an empty function\<close>
  te_user :: "'c \<Rightarrow> ('c, 'q) task_watcher \<times> 'w \<Rightarrow> bool \<times> ('c, 'q) task_watcher \<times> 'w" \<comment> \<open>whether it threw\<close>
  te_write :: "int \<Rightarrow> 'w \<Rightarrow> (int \<times> int) \<times> 'w" \<comment> \<open>the result and \<open>errno\<close> of writing one byte\<close>
  te_read :: "int \<Rightarrow> 'w \<Rightarrow> 'w" \<comment> \<open>the loop ignores what it reads\<close>

definition new_task_watcher :: "int \<Rightarrow> int \<times> int \<Rightarrow> 'q \<Rightarrow> int option \<Rightarrow> int + ('c, 'q) task_watcher" where
  \<comment> \<open>the constructor, with the descriptors of the system and the \<open>errno\<close> of the call of \<open>epoll_ctl\<close> where it
    fails: then the constructor throws\<close>
  "new_task_watcher epoll pipe q failed =
     (case failed of
        Some errno \<Rightarrow> Inl errno
      | None \<Rightarrow> Inr \<lparr>tw_epoll = epoll, tw_read_end = fst pipe, tw_write_end = snd pipe, tw_callbacks = [],
          tw_running = True, tw_queue = q, tw_ctls = [(CtlAdd, fst pipe, flag_bit RDONLY)], tw_closed = []\<rparr>)"

fun other_flag :: "wflag \<Rightarrow> wflag" where
  "other_flag RDONLY = WRONLY"
| "other_flag WRONLY = RDONLY"

definition watch_task :: "int \<Rightarrow> wflag \<Rightarrow> 'c \<Rightarrow> ('c, 'q) task_watcher \<Rightarrow> ('c, 'q) task_watcher" where
  "watch_task fd flag cb tw =
     (let inserted = (map_of (tw_callbacks tw) (fd, flag) = None);
          tw1 = tw\<lparr>tw_callbacks := AList.update (fd, flag) cb (tw_callbacks tw)\<rparr> in
      if \<not> inserted then tw1
      else
        let fd_in_epoll = (map_of (tw_callbacks tw1) (fd, other_flag flag) \<noteq> None);
            events = (if fd_in_epoll then flag_bit flag OR flag_bit (other_flag flag) else flag_bit flag);
            op = (if fd_in_epoll then CtlMod else CtlAdd) in
        tw1\<lparr>tw_ctls := tw_ctls tw1 @ [(op, fd, events)]\<rparr>)"

definition unwatch_task :: "int \<Rightarrow> wflag \<Rightarrow> ('c, 'q) task_watcher \<Rightarrow> ('c, 'q) task_watcher" where
  "unwatch_task fd flag tw =
     (let tw1 = tw\<lparr>tw_callbacks := AList.delete (fd, flag) (tw_callbacks tw)\<rparr>;
          fd_in_epoll = (map_of (tw_callbacks tw1) (fd, other_flag flag) \<noteq> None);
          events = (if fd_in_epoll then flag_bit (other_flag flag) else 0);
          op = (if fd_in_epoll then CtlMod else CtlDel) in
      tw1\<lparr>tw_ctls := tw_ctls tw1 @ [(op, fd, events)]\<rparr>)"

definition own_pipe :: "('c, 'q) task_watcher \<Rightarrow> int \<Rightarrow> bool" where
  "own_pipe tw fd \<longleftrightarrow> fd = tw_read_end tw \<or> fd = tw_write_end tw"

fun unwatchAll_loop :: "'c callbacks \<Rightarrow> ('c, 'q) task_watcher \<Rightarrow> ('c, 'q) task_watcher" where
  \<comment> \<open>the rest of the iteration over the table; erasing an entry does not disturb it\<close>
  "unwatchAll_loop [] tw = tw"
| "unwatchAll_loop (((fd, flag), cb) # rest) tw =
     (if \<not> own_pipe tw fd
      then unwatchAll_loop rest
        (tw\<lparr>tw_ctls := tw_ctls tw @ [(CtlDel, fd, 0)], tw_callbacks := AList.delete (fd, flag) (tw_callbacks tw)\<rparr>)
      else unwatchAll_loop rest tw)"

definition unwatchAll_task :: "('c, 'q) task_watcher \<Rightarrow> ('c, 'q) task_watcher" where
  "unwatchAll_task tw = unwatchAll_loop (tw_callbacks tw) tw"

fun run_task :: "('c, 'q, 'w) task_env \<Rightarrow> 'c wtask \<Rightarrow> ('c, 'q) task_watcher \<times> 'w \<Rightarrow>
    bool \<times> ('c, 'q) task_watcher \<times> 'w" where
  \<comment> \<open>calling a task; whether it threw\<close>
  "run_task env (DoWatch fd flag cb) (tw, w) = (False, watch_task fd flag cb tw, w)"
| "run_task env (DoUnwatch fd flag) (tw, w) = (False, unwatch_task fd flag tw, w)"
| "run_task env DoUnwatchAll (tw, w) = (False, unwatchAll_task tw, w)"
| "run_task env (DoUser c) (tw, w) = te_user env c (tw, w)"

subsection \<open>The members\<close>

partial_function (option) wakeup :: "('c, 'q, 'w) task_env \<Rightarrow> int \<Rightarrow> 'w \<Rightarrow> (bool \<times> 'w) option" where
  \<comment> \<open>False when it gives up with a message\<close>
  "wakeup env write_end w =
     (let ((written, errno), w1) = te_write env write_end w in
      if written = 1 then Some (True, w1)
      else if written = -1 \<and> errno = EINTR then wakeup env write_end w1
      else if written = -1 \<and> errno = EAGAIN then Some (True, w1)
      else Some (False, w1))"

partial_function (option) drain_tasks :: "('c, 'q, 'w) task_env \<Rightarrow> ('c, 'q) task_watcher \<times> 'w \<Rightarrow>
    (('c wtask \<times> bool) list \<times> ('c, 'q) task_watcher \<times> 'w) option" where
  \<comment> \<open>the tasks called, in order, each with whether it threw\<close>
  "drain_tasks env st =
     (let (t, q1) = te_pop env (tw_queue (fst st)); st1 = ((fst st)\<lparr>tw_queue := q1\<rparr>, snd st) in
      case t of
        None \<Rightarrow> Some ([], st1)
      | Some None \<Rightarrow> drain_tasks env st1
      | Some (Some f) \<Rightarrow>
          (let (threw, st2) = run_task env f st1 in
           do { (ts, st3) \<leftarrow> drain_tasks env st2; Some ((f, threw) # ts, st3) }))"

definition onWakeup :: "('c, 'q, 'w) task_env \<Rightarrow> int \<Rightarrow> ('c, 'q) task_watcher \<times> 'w \<Rightarrow>
    (('c wtask \<times> bool) list \<times> ('c, 'q) task_watcher \<times> 'w) option" where
  "onWakeup env fd st = drain_tasks env (fst st, te_read env fd (snd st))"

definition task_watch :: "('c, 'q, 'w) task_env \<Rightarrow> int \<Rightarrow> wflag \<Rightarrow> 'c \<Rightarrow> ('c, 'q) task_watcher \<times> 'w \<Rightarrow>
    ('c, 'q) task_watcher \<times> 'w" where
  "task_watch env fd flag cb st = (if tw_running (fst st) then te_submit env (DoWatch fd flag cb) st else st)"

definition task_unwatch :: "('c, 'q, 'w) task_env \<Rightarrow> int \<Rightarrow> wflag \<Rightarrow> ('c, 'q) task_watcher \<times> 'w \<Rightarrow>
    ('c, 'q) task_watcher \<times> 'w" where
  "task_unwatch env fd flag st = (if tw_running (fst st) then te_submit env (DoUnwatch fd flag) st else st)"

definition task_unwatchAll :: "('c, 'q, 'w) task_env \<Rightarrow> ('c, 'q) task_watcher \<times> 'w \<Rightarrow>
    (('c, 'q) task_watcher \<times> 'w) option" where
  "task_unwatchAll env st =
     (let st1 = (if tw_running (fst st) then te_submit env DoUnwatchAll st else st) in
      map_option (\<lambda>(ok, w). (fst st1, w)) (wakeup env (tw_write_end (fst st1)) (snd st1)))"

definition destroy_task_watcher :: "('c, 'q, 'w) task_env \<Rightarrow> ('c, 'q) task_watcher \<times> 'w \<Rightarrow>
    (('c, 'q) task_watcher \<times> 'w) option" where
  \<comment> \<open>the destructor and that of the pipe, once the loop's thread has been joined\<close>
  "destroy_task_watcher env st =
     (let tw = fst st; st1 = (tw\<lparr>tw_running := False\<rparr>, snd st) in do {
        st2 \<leftarrow> (if tw_running tw then
                 map_option (\<lambda>(tw2, w). (tw2\<lparr>tw_closed := tw_closed tw2 @ [tw_epoll tw2]\<rparr>, w)) (task_unwatchAll env st1)
               else Some st1);
        Some ((fst st2)\<lparr>tw_closed := tw_closed (fst st2) @ [tw_write_end tw, tw_read_end tw]\<rparr>, snd st2) })"

end
