(* ===== verification/TaskWatcherProps.thy ===== *)
theory TaskWatcherProps
  imports TaskWatcher WatcherProps
begin

section \<open>What the watcher of the exercises guarantees\<close>

text \<open>
  A wake-up performs every queued task once, in order, whatever the tasks throw; the table refines a
  flat map of registrations and the kernel's interest list follows it; on the same watches and
  unwatches it leaves the kernel as the transports' watcher does. Then what its destructor omits.
\<close>

unbundle bit_operations_syntax

subsection \<open>Registrations\<close>

type_synonym 'c registrations = "int \<times> wflag \<Rightarrow> 'c option"

definition tw_abs :: "('c, 'q) task_watcher \<Rightarrow> 'c registrations" where
  "tw_abs tw = map_of (tw_callbacks tw)"

definition reg_mask :: "'c registrations \<Rightarrow> int \<Rightarrow> u32" where
  "reg_mask m fd = (if m (fd, RDONLY) = None then 0 else flag_bit RDONLY)
     OR (if m (fd, WRONLY) = None then 0 else flag_bit WRONLY)"

definition kernel_view :: "int \<Rightarrow> 'c registrations \<Rightarrow> int \<Rightarrow> u32 option" where
  \<comment> \<open>the interest list that goes with the registrations and the pipe\<close>
  "kernel_view read_end m fd = (if fd = read_end then Some (flag_bit RDONLY)
     else if reg_mask m fd = 0 then None else Some (reg_mask m fd))"

definition tw_inv :: "('c, 'q) task_watcher \<Rightarrow> bool" where
  "tw_inv tw \<longleftrightarrow> (\<forall>k \<in> dom (tw_abs tw). \<not> own_pipe tw (fst k))
     \<and> interest (tw_ctls tw) = kernel_view (tw_read_end tw) (tw_abs tw)"

fun task_flat :: "'c wtask \<Rightarrow> 'c registrations \<Rightarrow> 'c registrations" where
  "task_flat (DoWatch fd flag cb) m = m((fd, flag) \<mapsto> cb)"
| "task_flat (DoUnwatch fd flag) m = m((fd, flag) := None)"
| "task_flat DoUnwatchAll m = Map.empty"
| "task_flat (DoUser c) m = m"

fun task_ok :: "int \<times> int \<Rightarrow> 'c wtask \<Rightarrow> bool" where
  \<comment> \<open>a task of the watcher itself, on no end of its pipe\<close>
  "task_ok pipe (DoWatch fd flag cb) \<longleftrightarrow> fd \<noteq> fst pipe \<and> fd \<noteq> snd pipe"
| "task_ok pipe (DoUnwatch fd flag) \<longleftrightarrow> fd \<noteq> fst pipe \<and> fd \<noteq> snd pipe"
| "task_ok pipe DoUnwatchAll \<longleftrightarrow> True"
| "task_ok pipe (DoUser c) \<longleftrightarrow> False"

abbreviation ends :: "('c, 'q) task_watcher \<Rightarrow> int \<times> int" where
  "ends tw \<equiv> (tw_read_end tw, tw_write_end tw)"

lemma reg_mask_0: "reg_mask m fd = 0 \<longleftrightarrow> m (fd, RDONLY) = None \<and> m (fd, WRONLY) = None"
  by (simp add: reg_mask_def)

lemma kernel_view_empty: "kernel_view r Map.empty = [r \<mapsto> 1]"
  by (auto simp: kernel_view_def reg_mask_def)

lemma watch_task_ok:
  assumes "tw_inv tw" "\<not> own_pipe tw fd"
  shows "tw_inv (watch_task fd flag cb tw)" "tw_abs (watch_task fd flag cb tw) = (tw_abs tw)((fd, flag) \<mapsto> cb)"
proof -
  show abs: "tw_abs (watch_task fd flag cb tw) = (tw_abs tw)((fd, flag) \<mapsto> cb)"
    by (simp add: watch_task_def tw_abs_def Let_def update_conv')
  have "interest (tw_ctls (watch_task fd flag cb tw)) = kernel_view (tw_read_end tw) ((tw_abs tw)((fd, flag) \<mapsto> cb))"
    using assms by (cases flag)
      (auto simp: watch_task_def tw_abs_def Let_def update_conv' tw_inv_def kernel_view_def reg_mask_def own_pipe_def
        fun_eq_iff)
  with assms show "tw_inv (watch_task fd flag cb tw)"
    unfolding tw_inv_def abs by (auto simp: watch_task_def Let_def own_pipe_def split: if_splits)
qed

lemma unwatch_task_ok:
  assumes "tw_inv tw" "\<not> own_pipe tw fd"
  shows "tw_inv (unwatch_task fd flag tw)" "tw_abs (unwatch_task fd flag tw) = (tw_abs tw)((fd, flag) := None)"
proof -
  show abs: "tw_abs (unwatch_task fd flag tw) = (tw_abs tw)((fd, flag) := None)"
    by (simp add: unwatch_task_def tw_abs_def Let_def delete_conv')
  have "interest (tw_ctls (unwatch_task fd flag tw)) = kernel_view (tw_read_end tw) ((tw_abs tw)((fd, flag) := None))"
    using assms by (cases flag)
      (auto simp: unwatch_task_def tw_abs_def Let_def delete_conv' tw_inv_def kernel_view_def reg_mask_def own_pipe_def
        fun_eq_iff)
  with assms show "tw_inv (unwatch_task fd flag tw)"
    unfolding tw_inv_def abs by (auto simp: unwatch_task_def Let_def own_pipe_def split: if_splits)
qed

lemma unwatchAll_loop_ok:
  assumes "\<forall>(k, c) \<in> set cs. \<not> own_pipe tw (fst k)"
  shows "unwatchAll_loop cs tw = tw\<lparr>tw_callbacks := filter (\<lambda>(k, c). k \<notin> fst ` set cs) (tw_callbacks tw),
    tw_ctls := tw_ctls tw @ map (\<lambda>(k, c). (CtlDel, fst k, 0)) cs\<rparr>"
  using assms
proof (induction cs tw rule: unwatchAll_loop.induct)
  case (1 tw)
  then show ?case by (simp add: case_prod_unfold)
next
  case (2 fd flag cb rest tw)
  then show ?case
    by (auto simp: own_pipe_def AList.delete_eq case_prod_unfold eq_commute [of "(fd, flag)"])
qed

lemma interest_dels:
  "foldl interest_step m (map (\<lambda>(k, c). (CtlDel, fst k, 0)) cs) fd = (if fd \<in> (fst \<circ> fst) ` set cs then None else m fd)"
  by (induction cs arbitrary: m) auto

lemma unwatchAll_task_ok:
  assumes "tw_inv tw"
  shows "tw_inv (unwatchAll_task tw)" "tw_abs (unwatchAll_task tw) = Map.empty"
proof -
  have "\<forall>(k, c) \<in> set (tw_callbacks tw). \<not> own_pipe tw (fst k)"
    using assms by (fastforce simp: tw_inv_def tw_abs_def dom_map_of_conv_image_fst)
  note l = unwatchAll_loop_ok [OF this]
  have none: "filter (\<lambda>(k, c). k \<notin> fst ` set (tw_callbacks tw)) (tw_callbacks tw) = []"
    by (auto simp: filter_empty_conv intro: rev_image_eqI)
  show abs: "tw_abs (unwatchAll_task tw) = Map.empty"
    by (simp add: unwatchAll_task_def l none tw_abs_def)
  have "kernel_view (tw_read_end tw) (tw_abs tw) fd = (if fd = tw_read_end tw then Some 1 else None)"
    if "fd \<notin> (fst \<circ> fst) ` set (tw_callbacks tw)" for fd
  proof -
    have "tw_abs tw (fd, f) = None" for f using that by (force simp: tw_abs_def map_of_eq_None_iff)
    then show ?thesis by (simp add: kernel_view_def reg_mask_def)
  qed
  moreover have "tw_read_end tw \<notin> (fst \<circ> fst) ` set (tw_callbacks tw)"
    using assms by (fastforce simp: tw_inv_def tw_abs_def dom_map_of_conv_image_fst own_pipe_def)
  ultimately have "interest (tw_ctls (unwatchAll_task tw)) = [tw_read_end tw \<mapsto> 1]"
    using assms by (auto simp: unwatchAll_task_def l interest_def interest_dels tw_inv_def fun_eq_iff)
  then show "tw_inv (unwatchAll_task tw)"
    by (simp add: tw_inv_def abs kernel_view_empty) (simp add: unwatchAll_task_def l)
qed

lemmas own_task_ok = watch_task_ok unwatch_task_ok unwatchAll_task_ok

lemma own_task_frame [simp]:
  "tw_read_end (watch_task fd flag cb tw) = tw_read_end tw" "tw_write_end (watch_task fd flag cb tw) = tw_write_end tw"
  "tw_queue (watch_task fd flag cb tw) = tw_queue tw"
  "tw_read_end (unwatch_task fd flag tw) = tw_read_end tw" "tw_write_end (unwatch_task fd flag tw) = tw_write_end tw"
  "tw_queue (unwatch_task fd flag tw) = tw_queue tw"
  by (simp_all add: watch_task_def unwatch_task_def Let_def)

lemma unwatchAll_frame [simp]:
  "tw_read_end (unwatchAll_task tw) = tw_read_end tw" "tw_write_end (unwatchAll_task tw) = tw_write_end tw"
  "tw_queue (unwatchAll_task tw) = tw_queue tw"
proof -
  have "tw_read_end (unwatchAll_loop cs tw) = tw_read_end tw \<and> tw_write_end (unwatchAll_loop cs tw) = tw_write_end tw
      \<and> tw_queue (unwatchAll_loop cs tw) = tw_queue tw" for cs
    by (induction cs tw rule: unwatchAll_loop.induct) auto
  then show "tw_read_end (unwatchAll_task tw) = tw_read_end tw" "tw_write_end (unwatchAll_task tw) = tw_write_end tw"
      "tw_queue (unwatchAll_task tw) = tw_queue tw" by (simp_all add: unwatchAll_task_def)
qed

lemma new_task_watcher_ok:
  assumes "new_task_watcher epoll pipe q None = Inr tw"
  shows "tw_inv tw" "tw_abs tw = Map.empty" "ends tw = pipe" "tw_queue tw = q"
  using assms by (auto simp: new_task_watcher_def tw_inv_def tw_abs_def kernel_view_empty [simplified] interest_def)

subsection \<open>Wake-ups\<close>

definition task_queue_ok :: "('c, 'q, 'w) task_env \<Rightarrow> ('q \<Rightarrow> 'c wtask option list) \<Rightarrow> bool" where
  \<comment> \<open>\<open>tryTake\<close> takes the oldest element\<close>
  "task_queue_ok env items \<longleftrightarrow> (\<forall>q. case items q of
      [] \<Rightarrow> (\<exists>q1. te_pop env q = (None, q1) \<and> items q1 = [])
    | t # ts \<Rightarrow> (\<exists>q1. te_pop env q = (Some t, q1) \<and> items q1 = ts))"

definition live :: "'a option list \<Rightarrow> 'a list" where
  "live = List.map_filter (\<lambda>t. t)"

lemma live_simps [simp]: "live [] = []" "live (None # ts) = live ts" "live (Some t # ts) = t # live ts"
  by (simp_all add: live_def List.map_filter_simps)

lemma live_map_Some [simp]: "live (map Some ts) = ts"
  by (induction ts) simp_all

lemma task_queue_okD:
  assumes "task_queue_ok env items"
  shows "items q = [] \<Longrightarrow> \<exists>q1. te_pop env q = (None, q1) \<and> items q1 = []"
    and "items q = t # ts \<Longrightarrow> \<exists>q1. te_pop env q = (Some t, q1) \<and> items q1 = ts"
  using assms by (auto simp: task_queue_ok_def dest!: spec [of _ q])

lemma drain_tasks_Nil:
  assumes "task_queue_ok env items" "items (tw_queue tw) = []"
  obtains q1 where "drain_tasks env (tw, w) = Some ([], tw\<lparr>tw_queue := q1\<rparr>, w)" "items q1 = []"
  using task_queue_okD(1) [OF assms] by (auto simp: drain_tasks.simps)

lemma drain_tasks_Cons:
  assumes "task_queue_ok env items" "items (tw_queue tw) = t # ts"
  obtains q1 where "items q1 = ts" "drain_tasks env (tw, w) = (case t of None \<Rightarrow> drain_tasks env (tw\<lparr>tw_queue := q1\<rparr>, w)
    | Some f \<Rightarrow> (let (threw, st) = run_task env f (tw\<lparr>tw_queue := q1\<rparr>, w) in
        do { (rs, st1) \<leftarrow> drain_tasks env st; Some ((f, threw) # rs, st1) }))"
proof -
  from task_queue_okD(2) [OF assms] obtain q1 where q: "te_pop env (tw_queue tw) = (Some t, q1)" "items q1 = ts" by blast
  show thesis by (rule that [OF q(2)]) (simp add: drain_tasks.simps [of env "(tw, w)"] q(1) split: option.split)
qed

lemma run_task_queue:
  assumes "\<And>c tw w. tw_queue (fst (snd (te_user env c (tw, w)))) = tw_queue tw"
  shows "tw_queue (fst (snd (run_task env t (tw, w)))) = tw_queue tw"
  using assms by (cases t) simp_all

text \<open>A wake-up returns with the queue empty and has called every task that is a function exactly once,
  in the order of their submission, those after a task that throws included.\<close>

theorem onWakeup_runs_all_tasks:
  assumes "task_queue_ok env items"
    and "\<And>c tw w. tw_queue (fst (snd (te_user env c (tw, w)))) = tw_queue tw"
  shows "\<exists>rs tw1 w1. onWakeup env fd (tw, w) = Some (rs, tw1, w1)
    \<and> map fst rs = live (items (tw_queue tw)) \<and> items (tw_queue tw1) = []"
proof -
  have "\<exists>rs tw1 w1. drain_tasks env (tw, w) = Some (rs, tw1, w1) \<and> map fst rs = live ts \<and> items (tw_queue tw1) = []"
    if "items (tw_queue tw) = ts" for ts w using that
  proof (induction ts arbitrary: tw w)
    case Nil
    then show ?case by (auto elim!: drain_tasks_Nil [OF assms(1), of _ w])
  next
    case (Cons t ts)
    obtain q1 where q: "items q1 = ts" and d: "drain_tasks env (tw, w) = (case t of
        None \<Rightarrow> drain_tasks env (tw\<lparr>tw_queue := q1\<rparr>, w)
      | Some f \<Rightarrow> (let (threw, st) = run_task env f (tw\<lparr>tw_queue := q1\<rparr>, w) in
          do { (rs, st1) \<leftarrow> drain_tasks env st; Some ((f, threw) # rs, st1) }))"
      by (rule drain_tasks_Cons [OF assms(1) Cons.prems])
    show ?case
    proof (cases t)
      case None
      then show ?thesis using Cons.IH [of "tw\<lparr>tw_queue := q1\<rparr>" w] q d by simp
    next
      case (Some f)
      obtain threw tw2 w2 where r: "run_task env f (tw\<lparr>tw_queue := q1\<rparr>, w) = (threw, tw2, w2)" by (metis prod_cases3)
      have "tw_queue tw2 = q1" using run_task_queue [OF assms(2), of f "tw\<lparr>tw_queue := q1\<rparr>" w] r by simp
      then show ?thesis using Cons.IH [of tw2 w2] q d r Some by auto
    qed
  qed
  then show ?thesis by (simp add: onWakeup_def)
qed

type_synonym 'c demo_queue = "'c wtask option list"

definition demo_task_env :: "(string, string demo_queue, string list) task_env" where
  \<comment> \<open>user functions note their names and throw when called bad; the pipe is full\<close>
  "demo_task_env = \<lparr>te_submit = (\<lambda>t (tw, w). (tw\<lparr>tw_queue := tw_queue tw @ [Some t]\<rparr>, w)),
     te_pop = (\<lambda>q. case q of [] \<Rightarrow> (None, []) | t # ts \<Rightarrow> (Some t, ts)),
     te_user = (\<lambda>c (tw, w). (c = ''bad'', tw, w @ [c])),
     te_write = (\<lambda>fd w. ((-1, EAGAIN), w)), te_read = (\<lambda>fd w. w)\<rparr>"

lemma demo_task_env_ok: "task_queue_ok demo_task_env (\<lambda>q. q)"
  by (simp add: task_queue_ok_def demo_task_env_def split: list.split)

definition demo_task_watcher :: "string demo_queue \<Rightarrow> (string, string demo_queue) task_watcher" where
  "demo_task_watcher q = \<lparr>tw_epoll = 3, tw_read_end = 4, tw_write_end = 5, tw_callbacks = [], tw_running = True,
     tw_queue = q, tw_ctls = [(CtlAdd, 4, 1)], tw_closed = []\<rparr>"

lemma demo_task_watcher_new: "new_task_watcher 3 (4, 5) q None = Inr (demo_task_watcher q)"
  by (simp add: new_task_watcher_def demo_task_watcher_def)

theorem onWakeup_runs_all_tasks_witness:
  "\<exists>rs tw1 w1. onWakeup demo_task_env 4 (demo_task_watcher [Some (DoUser ''bad''), None, Some (DoUser ''b'')], []) = Some (rs, tw1, w1)
    \<and> map fst rs = [DoUser ''bad'', DoUser ''b''] \<and> tw_queue tw1 = []"
proof -
  have "tw_queue (fst (snd (te_user demo_task_env c (tw, w)))) = tw_queue tw" for c tw w
    by (simp add: demo_task_env_def)
  from onWakeup_runs_all_tasks [OF demo_task_env_ok this, of 4 "demo_task_watcher [Some (DoUser ''bad''), None, Some (DoUser ''b'')]" "[]"]
  show ?thesis by (simp add: demo_task_watcher_def)
qed

lemma run_own_task:
  assumes "task_ok (ends tw) t" "tw_inv tw"
  shows "\<exists>tw1. run_task env t (tw, w) = (False, tw1, w) \<and> tw_inv tw1 \<and> tw_abs tw1 = task_flat t (tw_abs tw)
    \<and> ends tw1 = ends tw \<and> tw_queue tw1 = tw_queue tw"
  using assms own_task_ok [OF assms(2)] by (cases t) (simp_all add: own_pipe_def)

lemma queue_irrelevant [simp]:
  "tw_inv (tw\<lparr>tw_queue := q\<rparr>) = tw_inv tw" "tw_abs (tw\<lparr>tw_queue := q\<rparr>) = tw_abs tw"
  by (simp_all add: tw_inv_def tw_abs_def own_pipe_def)

lemma drain_own_tasks:
  assumes q: "task_queue_ok env items"
  shows "items (tw_queue tw) = ts \<Longrightarrow> list_all (task_ok (ends tw)) (live ts) \<Longrightarrow> tw_inv tw \<Longrightarrow>
    \<exists>tw1. drain_tasks env (tw, w) = Some (map (\<lambda>t. (t, False)) (live ts), tw1, w) \<and> tw_inv tw1
      \<and> tw_abs tw1 = fold task_flat (live ts) (tw_abs tw) \<and> ends tw1 = ends tw \<and> items (tw_queue tw1) = []"
proof (induction ts arbitrary: tw w)
  case Nil
  obtain q1 where "drain_tasks env (tw, w) = Some ([], tw\<lparr>tw_queue := q1\<rparr>, w)" "items q1 = []"
    by (rule drain_tasks_Nil [OF q Nil.prems(1)])
  with Nil.prems(3) show ?case by simp
next
  case (Cons t ts)
  obtain q1 where qs: "items q1 = ts" and d: "drain_tasks env (tw, w) = (case t of
      None \<Rightarrow> drain_tasks env (tw\<lparr>tw_queue := q1\<rparr>, w)
    | Some f \<Rightarrow> (let (threw, st) = run_task env f (tw\<lparr>tw_queue := q1\<rparr>, w) in
        do { (rs, st1) \<leftarrow> drain_tasks env st; Some ((f, threw) # rs, st1) }))"
    by (rule drain_tasks_Cons [OF q Cons.prems(1)])
  show ?case
  proof (cases t)
    case None
    then show ?thesis using Cons.IH [of "tw\<lparr>tw_queue := q1\<rparr>" w] Cons.prems(2,3) qs d by simp
  next
    case (Some f)
    with run_own_task [of "tw\<lparr>tw_queue := q1\<rparr>" f env w] Cons.prems(2,3) obtain tw2 where
      r: "run_task env f (tw\<lparr>tw_queue := q1\<rparr>, w) = (False, tw2, w)" and
      tw2: "tw_inv tw2" "tw_abs tw2 = task_flat f (tw_abs tw)" "ends tw2 = ends tw" "tw_queue tw2 = q1" by auto
    from Cons.IH [of tw2 w] Cons.prems(2) tw2 qs Some obtain tw1 where
      "drain_tasks env (tw2, w) = Some (map (\<lambda>t. (t, False)) (live ts), tw1, w)" "tw_inv tw1"
      "tw_abs tw1 = fold task_flat (live ts) (tw_abs tw2)" "ends tw1 = ends tw2" "items (tw_queue tw1) = []" by auto
    then show ?thesis using d r tw2 Some by simp
  qed
qed

text \<open>A wake-up with any queue of watches, unwatches and unwatches of everything, on descriptors other
  than the watcher's pipe, leaves in the table what the flat map of registrations holds after them, and
  in the kernel the pipe's read end and each registered descriptor with the events of its callbacks.\<close>

theorem task_watcher_tracks_registrations:
  assumes "task_queue_ok env items" "tw_inv tw" "list_all (task_ok (ends tw)) (live (items (tw_queue tw)))"
  shows "\<exists>rs tw1. onWakeup env fd (tw, w) = Some (rs, tw1, te_read env fd w) \<and> tw_inv tw1
    \<and> tw_abs tw1 = fold task_flat (live (items (tw_queue tw))) (tw_abs tw)
    \<and> interest (tw_ctls tw1) = kernel_view (tw_read_end tw) (tw_abs tw1)"
  using drain_own_tasks [OF assms(1) refl assms(3,2), of "te_read env fd w"]
  by (auto simp: onWakeup_def tw_inv_def)

theorem task_watcher_tracks_registrations_witness:
  "\<exists>rs tw1. onWakeup demo_task_env 4 (demo_task_watcher [Some (DoWatch 7 RDONLY ''old''), Some DoUnwatchAll,
       Some (DoWatch 7 WRONLY ''w''), Some (DoWatch 7 RDONLY ''r''), Some (DoUnwatch 8 RDONLY)], []) = Some (rs, tw1, [])
    \<and> interest (tw_ctls tw1) = [4 \<mapsto> 1, 7 \<mapsto> 5] \<and> tw_abs tw1 (7, RDONLY) = Some ''r''"
proof -
  let ?ts = "[DoWatch 7 RDONLY ''old'', DoUnwatchAll, DoWatch 7 WRONLY ''w'', DoWatch 7 RDONLY ''r'', DoUnwatch 8 RDONLY]"
  let ?tw = "demo_task_watcher (map Some ?ts)"
  note n = new_task_watcher_ok [OF demo_task_watcher_new, of "map Some ?ts"]
  have "list_all (task_ok (ends ?tw)) (live (tw_queue ?tw))" unfolding n(3,4) live_map_Some by simp
  from task_watcher_tracks_registrations [OF demo_task_env_ok n(1) this, of 4 "[]"] obtain rs tw1 where
    r: "onWakeup demo_task_env 4 (?tw, []) = Some (rs, tw1, [])" "interest (tw_ctls tw1) = kernel_view 4 (tw_abs tw1)"
      "tw_abs tw1 = fold task_flat ?ts Map.empty"
    unfolding n(2,4) live_map_Some by (auto simp: demo_task_env_def demo_task_watcher_def)
  then have "interest (tw_ctls tw1) = [4 \<mapsto> 1, 7 \<mapsto> 5]" "tw_abs tw1 (7, RDONLY) = Some ''r''"
    by (auto simp: kernel_view_def reg_mask_def fun_eq_iff)
  with r(1) show ?thesis by auto
qed

subsection \<open>Agreement with the watcher of the transports\<close>

type_synonym 'c registration = "int \<times> wflag \<times> 'c option" \<comment> \<open>a watch, or an unwatch where there is no callback\<close>

fun as_task :: "'c registration \<Rightarrow> 'c wtask" where
  "as_task (fd, flag, Some c) = DoWatch fd flag c"
| "as_task (fd, flag, None) = DoUnwatch fd flag"

fun as_op :: "'c registration \<Rightarrow> 'c wop" where
  "as_op (fd, flag, Some c) = OpWatch fd flag (User c)"
| "as_op (fd, flag, None) = OpUnwatch fd flag"

definition as_entry :: "'c registrations \<Rightarrow> int \<Rightarrow> 'c wcb option \<times> 'c wcb option" where
  "as_entry m fd = (map_option User (m (fd, RDONLY)), map_option User (m (fd, WRONLY)))"

lemma as_entry_upd:
  "as_entry (m((fd, flag) := c)) fd' = (if fd' = fd then upd_cb flag (map_option User c) (as_entry m fd) else as_entry m fd')"
  by (cases flag) (simp_all add: as_entry_def)

lemma flat_maps_agree:
  "\<forall>f. f \<noteq> evfd \<longrightarrow> M f = as_entry m f \<Longrightarrow> list_all (\<lambda>r. fst r \<noteq> evfd) rs \<Longrightarrow> fd \<noteq> evfd \<Longrightarrow>
    fold flat_step (map as_op rs) M fd = as_entry (fold task_flat (map as_task rs) m) fd"
proof (induction rs arbitrary: m M)
  case Nil
  then show ?case by simp
next
  case (Cons r rs)
  obtain f flag c where r: "r = (f, flag, c)" by (cases r)
  have "flat_step (as_op r) M fd' = as_entry (task_flat (as_task r) m) fd'" if "fd' \<noteq> evfd" for fd'
    using Cons.prems(1,2) that by (cases c) (auto simp: r as_entry_upd)
  with Cons.IH [of "flat_step (as_op r) M" "task_flat (as_task r) m"] Cons.prems(2,3) show ?case by simp
qed

lemma kernel_view_entry:
  "fd \<noteq> read_end \<Longrightarrow> kernel_view read_end m fd =
    (case as_entry m fd of (None, None) \<Rightarrow> None | (r, w) \<Rightarrow> Some (cb_mask r w))"
  by (simp add: kernel_view_def as_entry_def reg_mask_def cb_mask_def split: option.split)

text \<open>C26: The two event watchers of the repository are interchangeable for watching and unwatching: fed the
  same registrations, they hold the same callbacks for every descriptor but those they wake themselves with,
  and ask the kernel for the same events of it.\<close>

theorem watchers_agree:
  fixes rs :: "'c registration list" and ring :: 'd
  assumes "task_queue_ok env items" "new_task_watcher epoll pipe q None = Inr tw" "0 \<le> evfd"
    and "items q = map (\<lambda>r. Some (as_task r)) rs"
    and "list_all (\<lambda>(fd, _, _). 0 \<le> fd \<and> fd \<notin> {evfd, fst pipe, snd pipe}) rs"
  shows "\<exists>ds tw1 ew0 us ew. onWakeup env (fst pipe) (tw, w) = Some (ds, tw1, te_read env (fst pipe) w)
    \<and> new_watcher evfd ring = Some ew0 \<and> run_ops ew_op_step (map as_op rs) ew0 = Some (us, ew)
    \<and> (\<forall>fd \<ge> 0. fd \<notin> {evfd, fst pipe} \<longrightarrow> interest (tw_ctls tw1) fd = interest (ew_ctls ew) fd
        \<and> ew_abs ew fd = as_entry (tw_abs tw1) fd)"
proof -
  note n = new_task_watcher_ok [OF assms(2)]
  have ts: "live (items (tw_queue tw)) = map as_task rs"
    using live_map_Some [of "map as_task rs"] by (simp add: n assms(4) comp_def)
  have "task_ok (ends tw) (as_task r)" if "r \<in> set rs" for r
    using assms(5) that unfolding n(3) by (cases r rule: as_task.cases) (auto simp: list_all_iff)
  then have "list_all (task_ok (ends tw)) (live (items (tw_queue tw)))" by (auto simp: ts list_all_iff)
  from drain_own_tasks [OF assms(1) refl this n(1), of "te_read env (fst pipe) w"] obtain ds tw1 where
    t: "onWakeup env (fst pipe) (tw, w) = Some (ds, tw1, te_read env (fst pipe) w)" "tw_inv tw1" "ends tw1 = pipe"
      "tw_abs tw1 = fold task_flat (map as_task rs) Map.empty"
    unfolding ts n(2) onWakeup_def by (auto simp: n(3))
  have "ew_op_ok (as_op r)" if "r \<in> set rs" for r
    using assms(5) that by (cases r rule: as_op.cases) (auto simp: list_all_iff)
  then have "list_all ew_op_ok (map as_op rs)" by (simp add: list_all_iff)
  moreover obtain ew0 :: "('c, 'd) watcher" where ew0: "new_watcher evfd ring = Some ew0" "ew_inv ew0"
      "ew_abs ew0 = (\<lambda>_. (None, None))(evfd := (Some Wakeup, None))"
    using new_watcher_ok [OF assms(3)] by metis
  ultimately obtain us ew where e: "run_ops ew_op_step (map as_op rs) ew0 = Some (us, ew)" "ew_inv ew"
      "spec_run flat_spec (map as_op rs) (ew_abs ew0) (map (\<lambda>u. u) us) (ew_abs ew)"
    using ew.run_safe_refines [of "map as_op rs" ew0] by blast
  have at: "ew_abs ew fd = as_entry (tw_abs tw1) fd" if "fd \<noteq> evfd" for fd
    unfolding spec_run_flat [OF e(3)] t(4) using that assms(5)
    by (intro flat_maps_agree) (auto simp: ew0(3) as_entry_def list_all_iff)
  have "interest (ew_ctls ew) fd = (case ew_abs ew fd of (None, None) \<Rightarrow> None | (r, w) \<Rightarrow> Some (cb_mask r w))"
    if "0 \<le> fd" for fd
    using ew_inv_entry(1,2) [OF e(2) that] that by (auto simp: ew_abs_def cb_mask_0 split: option.split)
  then have "interest (tw_ctls tw1) fd = interest (ew_ctls ew) fd" if "0 \<le> fd" "fd \<noteq> evfd" "fd \<noteq> fst pipe" for fd
    using t(2,3) that at by (auto simp: tw_inv_def kernel_view_entry)
  with t(1) ew0(1) e(1) at show ?thesis by blast
qed

theorem watchers_agree_witness:
  "\<exists>ds tw1 ew0 us ew. onWakeup demo_task_env 4 (demo_task_watcher [Some (DoWatch 70 WRONLY ''w''), Some (DoUnwatch 9 RDONLY)], [])
        = Some (ds, tw1, []) \<and> new_watcher 6 () = Some ew0
    \<and> run_ops ew_op_step [OpWatch 70 WRONLY (User ''w''), OpUnwatch 9 RDONLY] ew0 = Some (us, ew)
    \<and> interest (tw_ctls tw1) 70 = interest (ew_ctls ew) 70"
proof -
  let ?rs = "[(70, WRONLY, Some ''w''), (9, RDONLY, None)]"
  have "list_all (\<lambda>(fd, _, _). 0 \<le> fd \<and> fd \<notin> {6, fst (4, 5), snd (4 :: int, 5 :: int)}) ?rs" by simp
  from watchers_agree [OF demo_task_env_ok demo_task_watcher_new _ _ this, of _ "[]" "()"]
  show ?thesis by (fastforce simp: demo_task_env_def)
qed

subsection \<open>Destruction\<close>

text \<open>The destructor clears the running flag before it calls unwatchAll, which then submits nothing: it only
  writes to the pipe, and the callbacks and their registrations are still there when the descriptors close.\<close>

theorem task_watcher_destroyed_watching:
  assumes "wakeup env (tw_write_end tw) w = Some (ok, w1)" "tw_running tw"
  shows "destroy_task_watcher env (tw, w) = Some (tw\<lparr>tw_running := False,
    tw_closed := tw_closed tw @ [tw_epoll tw, tw_write_end tw, tw_read_end tw]\<rparr>, w1)"
  using assms by (simp add: destroy_task_watcher_def task_unwatchAll_def)

theorem task_watcher_destroyed_watching_witness:
  "\<exists>tw1. destroy_task_watcher demo_task_env (watch_task 7 RDONLY ''r'' (demo_task_watcher []), []) = Some (tw1, [])
    \<and> tw_callbacks tw1 = [((7, RDONLY), ''r'')] \<and> interest (tw_ctls tw1) 7 = Some 1 \<and> tw_closed tw1 = [3, 5, 4]"
proof -
  have "wakeup demo_task_env (tw_write_end (watch_task 7 RDONLY ''r'' (demo_task_watcher []))) [] = Some (True, [])"
    by (simp add: wakeup.simps demo_task_env_def errno_defs)
  from task_watcher_destroyed_watching [OF this] show ?thesis
    by (simp add: watch_task_def demo_task_watcher_def interest_def Let_def)
qed

subsection \<open>Waking the loop\<close>

text \<open>A wake-up call returns once a write is not interrupted, and is silent exactly when the byte was
  written or the pipe is full already, when the loop is about to wake anyway.\<close>

theorem wakeup_returns:
  assumes "te_write env fd (W n) = ((r, errno), w1)" "r = -1 \<longrightarrow> errno \<noteq> EINTR"
    and "\<And>k. k < n \<Longrightarrow> te_write env fd (W k) = ((-1, EINTR), W (Suc k))"
  shows "wakeup env fd (W 0) = Some (r = 1 \<or> r = -1 \<and> errno = EAGAIN, w1)"
  using assms
proof (induction n arbitrary: W)
  case 0
  then show ?case by (auto simp: wakeup.simps)
next
  case (Suc n)
  have "te_write env fd (W 0) = ((-1, EINTR), W 1)" using Suc.prems(3) [of 0] by simp
  then have "wakeup env fd (W 0) = wakeup env fd (W 1)" by (subst wakeup.simps) simp
  with Suc.IH [of "\<lambda>k. W (Suc k)"] Suc.prems show ?case by simp
qed

definition interrupted_env :: "(string, unit, nat) task_env" where
  \<comment> \<open>a write is interrupted for as often as the world counts\<close>
  "interrupted_env = \<lparr>te_submit = (\<lambda>t st. st), te_pop = (\<lambda>q. (None, q)), te_user = (\<lambda>c st. (False, st)),
     te_write = (\<lambda>fd w. if w = 0 then ((1, 0), 0) else ((-1, EINTR), w - 1)), te_read = (\<lambda>fd w. w)\<rparr>"

theorem wakeup_returns_witness: "wakeup interrupted_env 5 3 = Some (True, 0)"
  using wakeup_returns [of interrupted_env 5 "\<lambda>k. 3 - k" 3 1 0 0] by (auto simp: interrupted_env_def)

end
