(* ===== verification/WaitGroup.thy ===== *)
theory WaitGroup
  imports Prelude
begin

section \<open>The wait group\<close>

text \<open>
  Models \<open>tasks/thread-pool/wait_group.hpp\<close>. Every member holds the mutex from beginning to end, except
  that \<open>wait\<close> releases it while it sleeps on the condition variable, so the threads interleave in
  steps: a whole \<open>add\<close> or \<open>done\<close>, the first test of \<open>wait\<close>, and each test after a wake-up. A sleeping
  thread wakes when it is notified, or spuriously at any time; it has then left the condition variable
  and waits for the mutex.
\<close>

subsection \<open>The members\<close>

record 't wait_group =
  wg_pending :: "64 word"
  wg_sleeping :: "'t list" \<comment> \<open>the threads in the condition variable\<close>
  wg_woken :: "'t list" \<comment> \<open>those that have left it and not tested again yet\<close>

definition new_wait_group :: "'t wait_group" where
  "new_wait_group = \<lparr>wg_pending = 0, wg_sleeping = [], wg_woken = []\<rparr>"

definition wg_add :: "64 word \<Rightarrow> 't wait_group \<Rightarrow> 't wait_group" where
  "wg_add tickets g = g\<lparr>wg_pending := wg_pending g + tickets\<rparr>"

definition wg_notify_all :: "'t wait_group \<Rightarrow> 't wait_group" where
  "wg_notify_all g = g\<lparr>wg_sleeping := [], wg_woken := wg_woken g @ wg_sleeping g\<rparr>"

definition wg_done :: "'t wait_group \<Rightarrow> 't wait_group" where
  "wg_done g = (let g1 = g\<lparr>wg_pending := wg_pending g - 1\<rparr> in
     if wg_pending g1 = 0 then wg_notify_all g1 else g1)"

definition wg_wait :: "'t \<Rightarrow> 't wait_group \<Rightarrow> bool \<times> 't wait_group" where
  \<comment> \<open>one test of the predicate: whether \<open>wait\<close> returns, or else the thread sleeps\<close>
  "wg_wait t g = (if wg_pending g = 0 then (True, g) else (False, g\<lparr>wg_sleeping := wg_sleeping g @ [t]\<rparr>))"

subsection \<open>Interleavings\<close>

datatype 't wg_event =
    EvAdd "64 word"
  | EvDone
  | EvWait 't bool \<comment> \<open>the call of \<open>wait\<close>, and whether it returns at once\<close>
  | EvWake 't \<comment> \<open>a spurious wake-up\<close>
  | EvResume 't bool \<comment> \<open>a test after a wake-up, and whether \<open>wait\<close> returns\<close>

inductive wg_step :: "'t wait_group \<Rightarrow> 't wg_event \<Rightarrow> 't wait_group \<Rightarrow> bool" where
  ev_add: "wg_step g (EvAdd n) (wg_add n g)"
| ev_done: "wg_step g EvDone (wg_done g)"
| ev_wait: "t \<notin> set (wg_sleeping g) \<Longrightarrow> t \<notin> set (wg_woken g) \<Longrightarrow> wg_wait t g = (r, g1) \<Longrightarrow> wg_step g (EvWait t r) g1"
| ev_wake: "t \<in> set (wg_sleeping g) \<Longrightarrow>
    wg_step g (EvWake t) (g\<lparr>wg_sleeping := remove1 t (wg_sleeping g), wg_woken := wg_woken g @ [t]\<rparr>)"
| ev_resume: "t \<in> set (wg_woken g) \<Longrightarrow> wg_wait t (g\<lparr>wg_woken := remove1 t (wg_woken g)\<rparr>) = (r, g1) \<Longrightarrow>
    wg_step g (EvResume t r) g1"

inductive_cases wg_stepE: "wg_step g e g1"
inductive_simps wg_step_waits: "wg_step g (EvWait t r) g1" "wg_step g (EvResume t r) g1"

inductive wg_run :: "'t wg_event list \<Rightarrow> 't wait_group \<Rightarrow> bool" where
  start: "wg_run [] new_wait_group"
| step: "wg_run evs g \<Longrightarrow> wg_step g e g1 \<Longrightarrow> wg_run (evs @ [e]) g1"

fun ev_added :: "'t wg_event \<Rightarrow> nat" where
  "ev_added (EvAdd n) = unat n"
| "ev_added _ = 0"

fun ev_given :: "'t wg_event \<Rightarrow> nat" where
  "ev_given EvDone = 1"
| "ev_given _ = 0"

definition added :: "'t wg_event list \<Rightarrow> nat" where "added evs = sum_list (map ev_added evs)"
definition finished :: "'t wg_event list \<Rightarrow> nat" where "finished evs = sum_list (map ev_given evs)"

definition balanced :: "'t wg_event list \<Rightarrow> bool" where
  \<comment> \<open>at every moment no ticket was given back that was not taken, and those out fit a \<open>size_t\<close>\<close>
  "balanced evs \<longleftrightarrow> (\<forall>k \<le> length evs. finished (take k evs) \<le> added (take k evs)
     \<and> added (take k evs) - finished (take k evs) < 2 ^ 64)"

lemma balanced_snoc:
  "balanced (evs @ [e]) \<longleftrightarrow> balanced evs \<and> finished (evs @ [e]) \<le> added (evs @ [e])
     \<and> added (evs @ [e]) - finished (evs @ [e]) < 2 ^ 64"
  by (auto simp: balanced_def le_Suc_eq all_conj_distrib disj_imp)

lemma totals_snoc [simp]:
  "added (evs @ [e]) = added evs + ev_added e" "finished (evs @ [e]) = finished evs + ev_given e"
  by (simp_all add: added_def finished_def)

lemma balanced_now: "balanced evs \<Longrightarrow> finished evs \<le> added evs"
  by (auto simp: balanced_def dest: spec [of _ "length evs"])

lemma unat_add_exact: "unat (a :: 64 word) + unat b < 2 ^ 64 \<Longrightarrow> unat (a + b) = unat a + unat b"
  by (subst unat_add_lem [THEN iffD1]) simp_all

lemma unat_dec: "0 < unat (a :: 64 word) \<Longrightarrow> unat (a - 1) = unat a - 1"
  by (metis One_nat_def unat_gt_0 unat_minus_one)

definition wg_inv :: "nat \<Rightarrow> 't wait_group \<Rightarrow> bool" where
  \<comment> \<open>with so many tickets out\<close>
  "wg_inv n g \<longleftrightarrow> unat (wg_pending g) = n \<and> (n = 0 \<longrightarrow> wg_sleeping g = [])"

lemma wg_inv_woken [simp]: "wg_inv n (g\<lparr>wg_woken := ts\<rparr>) = wg_inv n g"
  by (simp add: wg_inv_def)

lemma wg_wait_inv: "wg_inv n g \<Longrightarrow> wg_wait t g = (r, g1) \<Longrightarrow> wg_inv n g1 \<and> (r \<longleftrightarrow> n = 0)"
  by (auto simp: wg_wait_def wg_inv_def unat_eq_0 unat_gt_0 split: if_splits)

lemma wg_step_inv:
  assumes "wg_step g e g1" "wg_inv n g" "ev_given e \<le> n + ev_added e" "n + ev_added e - ev_given e < 2 ^ 64"
  shows "wg_inv (n + ev_added e - ev_given e) g1"
  using assms(1)
proof cases
  case (ev_add k)
  then show ?thesis using assms(2,4) by (auto simp: wg_inv_def wg_add_def unat_add_exact)
next
  case ev_done
  moreover have "wg_pending g = 1 \<longleftrightarrow> n = 1" using assms(2) by (auto simp: wg_inv_def word_unat_eq_iff)
  ultimately show ?thesis using assms(2,3)
    by (auto simp: wg_inv_def wg_done_def wg_notify_all_def Let_def unat_dec)
next
  case (ev_wait t r)
  then show ?thesis using wg_wait_inv [OF assms(2)] by simp
next
  case (ev_wake t)
  then show ?thesis using assms(2) by (auto simp: wg_inv_def)
next
  case (ev_resume t r)
  have "wg_inv n (g\<lparr>wg_woken := remove1 t (wg_woken g)\<rparr>)" using assms(2) by simp
  from wg_wait_inv [OF this ev_resume(3)] show ?thesis by (simp add: ev_resume(1))
qed

lemma wg_run_inv: "wg_run evs g \<Longrightarrow> balanced evs \<Longrightarrow> wg_inv (added evs - finished evs) g"
proof (induction rule: wg_run.induct)
  case start
  then show ?case by (simp add: wg_inv_def new_wait_group_def added_def finished_def)
next
  case (step evs g e g1)
  then have b: "balanced evs" "finished evs + ev_given e \<le> added evs + ev_added e"
      "added evs + ev_added e - (finished evs + ev_given e) < 2 ^ 64" by (simp_all add: balanced_snoc)
  have "added evs - finished evs + ev_added e - ev_given e = added evs + ev_added e - (finished evs + ev_given e)"
    using balanced_now [OF b(1)] by simp
  with wg_step_inv [OF step.hyps(2) step.IH [OF b(1)]] b balanced_now [OF b(1)] show ?case by simp
qed

text \<open>C27: In every interleaving in which no more tickets are given back than were taken, and never more are
  out than a size_t counts, a test of a waiting thread lets it return exactly when no ticket is out; and
  when none is out no thread sleeps on the condition variable, so that no wake-up is ever lost.\<close>

theorem wait_group_no_lost_wakeup:
  assumes "wg_run evs g" "balanced evs"
  shows "(finished evs = added evs \<longrightarrow> wg_sleeping g = [] \<and> (\<forall>t \<in> set (wg_woken g). \<exists>g1. wg_step g (EvResume t True) g1))
    \<and> (\<forall>t r g1. wg_step g (EvWait t r) g1 \<or> wg_step g (EvResume t r) g1 \<longrightarrow> r = (finished evs = added evs))"
proof -
  have inv: "wg_inv (added evs - finished evs) g" by (rule wg_run_inv [OF assms])
  have eq: "added evs - finished evs = 0 \<longleftrightarrow> finished evs = added evs" using balanced_now [OF assms(2)] by auto
  have "wg_inv (added evs - finished evs) (g\<lparr>wg_woken := ws\<rparr>)" for ws using inv by simp
  then have "r = (finished evs = added evs)" if "wg_step g (EvWait t r) g1 \<or> wg_step g (EvResume t r) g1" for t r g1
    using that wg_wait_inv [OF inv] wg_wait_inv eq unfolding wg_step_waits by metis
  moreover have "\<exists>g1. wg_step g (EvResume t True) g1" if "finished evs = added evs" "t \<in> set (wg_woken g)" for t
    using that inv by (auto simp: wg_step_waits wg_wait_def wg_inv_def unat_eq_0)
  ultimately show ?thesis using inv eq by (simp add: wg_inv_def)
qed

lemma demo_wait: "wg_run [EvAdd 1, EvWait ''t'' False, EvDone] \<lparr>wg_pending = 0, wg_sleeping = [], wg_woken = [''t'']\<rparr>"
proof -
  have "wg_run ([] @ [EvAdd 1]) \<lparr>wg_pending = 1, wg_sleeping = [], wg_woken = []\<rparr>"
    using wg_run.step [OF wg_run.start wg_step.ev_add, of 1] by (simp add: wg_add_def new_wait_group_def)
  then have "wg_run ([EvAdd 1] @ [EvWait ''t'' False]) \<lparr>wg_pending = 1, wg_sleeping = [''t''], wg_woken = []\<rparr>"
    by (intro wg_run.step) (auto simp: wg_step_waits wg_wait_def)
  from wg_run.step [OF this wg_step.ev_done] show ?thesis by (simp add: wg_done_def wg_notify_all_def)
qed

theorem wait_group_no_lost_wakeup_witness:
  "\<exists>g1. wg_step \<lparr>wg_pending = 0, wg_sleeping = [], wg_woken = [''t'']\<rparr> (EvResume ''t'' True) g1"
proof -
  have "balanced ([] :: string wg_event list)" by (simp add: balanced_def added_def finished_def)
  then have "balanced ((([] @ [EvAdd 1]) @ [EvWait ''t'' False]) @ [EvDone])"
    unfolding balanced_snoc by (simp add: added_def finished_def)
  then have "balanced [EvAdd 1, EvWait ''t'' False, EvDone]" by simp
  from wait_group_no_lost_wakeup [OF demo_wait this] show ?thesis by (simp add: added_def finished_def)
qed

text \<open>A call of \<open>done\<close> too many wraps the counter, and every later \<open>wait\<close> sleeps.\<close>

lemma extra_done_blocks: "fst (wg_wait t (wg_done new_wait_group)) = False"
  by (simp add: wg_wait_def wg_done_def new_wait_group_def)

end
