(* ===== verification/ThreadPool.thy ===== *)
theory ThreadPool
  imports Prelude
begin

section \<open>The thread pool\<close>

text \<open>
  Models \<open>tasks/thread-pool/thread_pool.hpp\<close> and \<open>.cpp\<close> as they stand: the workers are left to the reader
  of the exercise, and \<open>start\<close> and \<open>stop\<close> throw in their place. \<open>put\<close> of the queue, whose body is left
  out too, is a parameter. What is settled already is when a task is taken, and it depends on whether
  assertions are compiled in: the transition to \<open>RUNNING\<close> stands inside an \<open>assert\<close>.
\<close>

datatype pool_state = PoolNone | PoolRunning | PoolStopping | PoolStopped

record 'q thread_pool =
  tp_state :: pool_state
  tp_count :: u32
  tp_queue :: 'q

definition new_pool :: "nat \<Rightarrow> 'q \<Rightarrow> 'q thread_pool" where
  \<comment> \<open>a \<open>size_t\<close> narrowed to \<open>uint32_t\<close>\<close>
  "new_pool threads q = \<lparr>tp_state = PoolNone, tp_count = of_nat threads, tp_queue = q\<rparr>"

definition pool_start :: "bool \<Rightarrow> 'q thread_pool \<Rightarrow> (string \<times> 'q thread_pool) option" where
  \<comment> \<open>what it throws; \<open>None\<close> where the assertion aborts, and with \<open>ndebug\<close> there is no assertion and no
    transition\<close>
  "pool_start ndebug p =
     (if ndebug then Some (''start()'', p)
      else if tp_state p = PoolNone then Some (''start()'', p\<lparr>tp_state := PoolRunning\<rparr>)
      else None)"

definition pool_submit :: "('task \<Rightarrow> 'q \<Rightarrow> 'q) \<Rightarrow> 'task \<Rightarrow> 'q thread_pool \<Rightarrow> bool \<times> 'q thread_pool" where
  "pool_submit put task p =
     (if tp_state p \<noteq> PoolRunning then (False, p) else (True, p\<lparr>tp_queue := put task (tp_queue p)\<rparr>))"

definition pool_stop :: "'q thread_pool \<Rightarrow> string \<times> 'q thread_pool" where
  "pool_stop p = (''stop()'', p)"

definition destroy_pool :: "'q thread_pool \<Rightarrow> 'q thread_pool option" where
  \<comment> \<open>a destructor is \<open>noexcept\<close>: what \<open>stop\<close> throws terminates the program\<close>
  "destroy_pool p = (if tp_state p \<noteq> PoolStopped then None else Some p)"

subsection \<open>When tasks are taken\<close>

datatype 'task pool_op = OpStart | OpSubmit 'task

fun pool_step :: "bool \<Rightarrow> ('task \<Rightarrow> 'q \<Rightarrow> 'q) \<Rightarrow> 'task pool_op \<Rightarrow> 'q thread_pool \<Rightarrow> (bool \<times> 'q thread_pool) option" where
  \<comment> \<open>whether a task was taken\<close>
  "pool_step ndebug put OpStart p = map_option (\<lambda>(_, p1). (False, p1)) (pool_start ndebug p)"
| "pool_step ndebug put (OpSubmit task) p = Some (pool_submit put task p)"

lemma pool_release_step:
  "tp_state p \<noteq> PoolRunning \<Longrightarrow> pool_step True put x p = Some (False, p)"
  by (cases x) (simp_all add: pool_start_def pool_submit_def)

text \<open>In a build without assertions a pool never runs: every task of every sequence of starts and
  submissions is refused and the queue stays as it was.\<close>

theorem pool_release_build_never_runs:
  "run_ops (pool_step True put) ops (new_pool threads q) = Some (map (\<lambda>_. False) ops, new_pool threads q)"
  by (induction ops) (simp_all add: pool_release_step new_pool_def)

text \<open>With assertions a started pool takes every task, in order.\<close>

lemma pool_running_takes_all:
  "tp_state p = PoolRunning \<Longrightarrow> run_ops (pool_step nd put) (map OpSubmit ts) p =
    Some (map (\<lambda>_. True) ts, p\<lparr>tp_queue := fold put ts (tp_queue p)\<rparr>)"
  by (induction ts arbitrary: p) (simp_all add: pool_submit_def)

text \<open>With assertions, tasks submitted before the first start are refused and those submitted after
  it are all queued, in order; a second start aborts.\<close>

theorem pool_takes_tasks_once_started:
  "run_ops (pool_step False put) (map OpSubmit early @ OpStart # map OpSubmit late) (new_pool threads q) =
    Some (map (\<lambda>_. False) early @ False # map (\<lambda>_. True) late,
      (new_pool threads (fold put late q))\<lparr>tp_state := PoolRunning\<rparr>)
   \<and> run_ops (pool_step False put) (OpStart # map OpSubmit late @ [OpStart]) (new_pool threads q) = None"
proof -
  let ?run = "run_ops (pool_step False put)"
  have refuse: "?run (map OpSubmit early) (new_pool threads q) = Some (map (\<lambda>_. False) early, new_pool threads q)"
    by (induction early) (simp_all add: pool_submit_def new_pool_def)
  have start: "pool_step False put OpStart (new_pool threads q) = Some (False, (new_pool threads q)\<lparr>tp_state := PoolRunning\<rparr>)"
    by (simp add: pool_start_def new_pool_def)
  have late: "?run (map OpSubmit late) ((new_pool threads q)\<lparr>tp_state := PoolRunning\<rparr>) =
      Some (map (\<lambda>_. True) late, (new_pool threads (fold put late q))\<lparr>tp_state := PoolRunning\<rparr>)"
    by (subst pool_running_takes_all) (simp_all add: new_pool_def)
  have again: "pool_step False put OpStart ((new_pool threads (fold put late q))\<lparr>tp_state := PoolRunning\<rparr>) = None"
    by (simp add: pool_start_def)
  show ?thesis
    by (simp add: run_ops_append refuse start late again del: pool_step.simps)
qed

end
