(* ===== verification/QueueBench.thy ===== *)
theory QueueBench
  imports Prelude "HOL-Library.Multiset"
begin

section \<open>The benchmark of the queue\<close>

text \<open>
  Models \<open>BM_MultipleProducers\<close> of \<open>tasks/mpsc_queue/queue_bench.cpp\<close>: in every iteration the main thread
  starts producers that wait at a latch with it and then push their items; it joins them and takes what they
  pushed. The queue is an exercise whose members are empty: it is the parameter \<open>Q\<close>, and \<open>queue_contract\<close> what
  the benchmark needs of one. A step is one of the main thread or of a producer; \<open>None\<close> is a latch counted
  down below zero. Counts of items are \<open>size_t\<close> values, written as natural numbers with their wrap-around.
  Timing and the counters reported are left out. The history of what was taken is kept beside the state.
\<close>

record 'q taking_queue =
  mq_push :: "int \<Rightarrow> 'q \<Rightarrow> 'q"
  mq_take :: "'q \<Rightarrow> int option \<times> 'q" \<comment> \<open>\<open>tryTake\<close>\<close>

datatype producer_pc = AtCountDown | AtWait | Pushing nat | Exited

datatype main_pc = Spawn | CountDown | WaitStart | Join nat | Consume nat | Ended

record 'q queue_bench =
  qb_queue :: 'q
  qb_latch :: nat
  qb_producers :: "producer_pc list"
  qb_main :: main_pc
  qb_left :: nat \<comment> \<open>the iterations to come\<close>
  qb_taken :: "int list" \<comment> \<open>what \<open>tryTake\<close> returned in this iteration\<close>
  qb_missed :: nat \<comment> \<open>how often it returned nothing\<close>

definition begin_iteration :: "nat \<Rightarrow> 'q queue_bench \<Rightarrow> 'q queue_bench" where
  "begin_iteration num_producers b =
     (if qb_left b = 0 then b\<lparr>qb_main := Ended\<rparr>
      else b\<lparr>qb_left := qb_left b - 1, qb_latch := size_add num_producers 1, qb_producers := [], qb_main := Spawn,
             qb_taken := []\<rparr>)"

definition new_queue_bench :: "nat \<Rightarrow> nat \<Rightarrow> 'q \<Rightarrow> 'q queue_bench" where
  "new_queue_bench num_producers iterations q = begin_iteration num_producers
     \<lparr>qb_queue = q, qb_latch = 0, qb_producers = [], qb_main = Ended, qb_left = iterations, qb_taken = [], qb_missed = 0\<rparr>"

definition total_items :: "nat \<Rightarrow> nat \<Rightarrow> nat" where
  "total_items num_producers items_per_producer = (num_producers * items_per_producer) mod 2 ^ 64"

definition int_cast :: "nat \<Rightarrow> int" where
  \<comment> \<open>\<open>static_cast<int>\<close> of a \<open>size_t\<close>\<close>
  "int_cast n = sint (of_nat n :: 32 word)"

definition start_count_down :: "'q queue_bench \<Rightarrow> 'q queue_bench option" where
  "start_count_down b = (if 0 < qb_latch b then Some (b\<lparr>qb_latch := qb_latch b - 1\<rparr>) else None)"

subsection \<open>Steps\<close>

definition producer_step :: "'q taking_queue \<Rightarrow> nat \<Rightarrow> nat \<Rightarrow> 'q queue_bench \<Rightarrow> 'q queue_bench option" where
  "producer_step Q items_per_producer p b = (case qb_producers b ! p of
      AtCountDown \<Rightarrow> do {
        b1 \<leftarrow> start_count_down b;
        Some (b1\<lparr>qb_producers := (qb_producers b1)[p := AtWait]\<rparr>) }
    | AtWait \<Rightarrow> Some (b\<lparr>qb_producers := (qb_producers b)[p := Pushing 0]\<rparr>)
    | Pushing i \<Rightarrow> Some (
        if i < items_per_producer
        then b\<lparr>qb_queue := mq_push Q (int_cast i) (qb_queue b), qb_producers := (qb_producers b)[p := Pushing (size_add i 1)]\<rparr>
        else b\<lparr>qb_producers := (qb_producers b)[p := Exited]\<rparr>)
    | Exited \<Rightarrow> Some b)"

definition BM_MultipleProducers :: "'q taking_queue \<Rightarrow> nat \<Rightarrow> nat \<Rightarrow> 'q queue_bench \<Rightarrow> 'q queue_bench option" where
  \<comment> \<open>the next step of the main thread, where it does not wait\<close>
  "BM_MultipleProducers Q num_producers items_per_producer b = (case qb_main b of
      Spawn \<Rightarrow> Some (
        if length (qb_producers b) < num_producers then b\<lparr>qb_producers := qb_producers b @ [AtCountDown]\<rparr>
        else b\<lparr>qb_main := CountDown\<rparr>)
    | CountDown \<Rightarrow> do {
        b1 \<leftarrow> start_count_down b;
        Some (b1\<lparr>qb_main := WaitStart\<rparr>) }
    | WaitStart \<Rightarrow> Some (b\<lparr>qb_main := Join 0\<rparr>)
    | Join p \<Rightarrow> Some (b\<lparr>qb_main := if p < length (qb_producers b) then Join (p + 1) else Consume 0\<rparr>)
    | Consume consumed \<Rightarrow> Some (
        if consumed < total_items num_producers items_per_producer
        then case mq_take Q (qb_queue b) of
            (None, q1) \<Rightarrow> b\<lparr>qb_queue := q1, qb_missed := qb_missed b + 1\<rparr>
          | (Some x, q1) \<Rightarrow> b\<lparr>qb_queue := q1, qb_taken := qb_taken b @ [x], qb_main := Consume (size_add consumed 1)\<rparr>
        else begin_iteration num_producers b)
    | Ended \<Rightarrow> Some b)"

datatype queue_bench_event = MainStep | ProducerStep nat

fun qb_step :: "'q taking_queue \<Rightarrow> nat \<Rightarrow> nat \<Rightarrow> queue_bench_event \<Rightarrow> 'q queue_bench \<Rightarrow> 'q queue_bench option" where
  "qb_step Q np ip MainStep b = BM_MultipleProducers Q np ip b"
| "qb_step Q np ip (ProducerStep p) b = producer_step Q ip p b"

fun qb_enabled :: "queue_bench_event \<Rightarrow> 'q queue_bench \<Rightarrow> bool" where
  \<comment> \<open>a thread waits at the latch until it is down to zero, and in \<open>join\<close> until the producer has returned\<close>
  "qb_enabled MainStep b \<longleftrightarrow> (case qb_main b of
      WaitStart \<Rightarrow> qb_latch b = 0
    | Join p \<Rightarrow> p < length (qb_producers b) \<longrightarrow> qb_producers b ! p = Exited
    | pc \<Rightarrow> pc \<noteq> Ended)"
| "qb_enabled (ProducerStep p) b \<longleftrightarrow> p < length (qb_producers b) \<and> (case qb_producers b ! p of
      AtWait \<Rightarrow> qb_latch b = 0 | pc \<Rightarrow> pc \<noteq> Exited)"

inductive qb_reach :: "'q taking_queue \<Rightarrow> nat \<Rightarrow> nat \<Rightarrow> 'q queue_bench \<Rightarrow> nat \<Rightarrow> 'q queue_bench \<Rightarrow> bool"
  for Q :: "'q taking_queue" and np ip :: nat and b0 :: "'q queue_bench" where
  \<comment> \<open>in so many steps\<close>
  qb_refl: "qb_reach Q np ip b0 0 b0"
| qb_trans: "qb_reach Q np ip b0 n b \<Longrightarrow> qb_enabled x b \<Longrightarrow> qb_step Q np ip x b = Some b1 \<Longrightarrow> qb_reach Q np ip b0 (Suc n) b1"

subsection \<open>The contract of the queue\<close>

definition queue_contract :: "'q taking_queue \<Rightarrow> ('q \<Rightarrow> int multiset) \<Rightarrow> bool" where
  \<comment> \<open>it keeps what is pushed, each item is taken once, in any order, and is found when it is there\<close>
  "queue_contract Q held \<longleftrightarrow> (\<forall>x q. held (mq_push Q x q) = add_mset x (held q))
     \<and> (\<forall>q. case mq_take Q q of
         (None, q1) \<Rightarrow> held q = {#} \<and> held q1 = {#}
       | (Some x, q1) \<Rightarrow> held q = add_mset x (held q1))"

subsection \<open>What a producer pushes\<close>

definition pushed :: "nat \<Rightarrow> int multiset" where
  \<comment> \<open>the first items of a producer\<close>
  "pushed n = image_mset int_cast (mset [0..<n])"

fun pushed_by :: "nat \<Rightarrow> producer_pc \<Rightarrow> int multiset" where
  "pushed_by ip (Pushing i) = pushed i"
| "pushed_by ip Exited = pushed ip"
| "pushed_by ip _ = {#}"

fun before_latch :: "producer_pc \<Rightarrow> nat" where
  "before_latch AtCountDown = 1"
| "before_latch _ = 0"

lemma pushed_simps [simp]: "pushed 0 = {#}" "pushed (Suc n) = add_mset (int_cast n) (pushed n)" "size (pushed n) = n"
  by (simp_all add: pushed_def)

lemma sum_list_update:
  fixes f :: "'a \<Rightarrow> 'b :: cancel_comm_monoid_add"
  assumes "p < length xs"
  shows "(\<Sum>x \<leftarrow> xs[p := y]. f x) + f (xs ! p) = (\<Sum>x \<leftarrow> xs. f x) + f y"
proof -
  have "xs = take p xs @ xs ! p # drop (Suc p) xs" by (rule id_take_nth_drop [OF assms])
  then have "(\<Sum>x \<leftarrow> xs. f x) = (\<Sum>x \<leftarrow> take p xs. f x) + (f (xs ! p) + (\<Sum>x \<leftarrow> drop (Suc p) xs. f x))"
    by (metis list.simps(9) map_append sum_list.append sum_list.Cons)
  moreover have "(\<Sum>x \<leftarrow> xs[p := y]. f x) = (\<Sum>x \<leftarrow> take p xs. f x) + (f y + (\<Sum>x \<leftarrow> drop (Suc p) xs. f x))"
    by (simp add: upd_conv_take_nth_drop [OF assms])
  ultimately show ?thesis by (simp add: ac_simps)
qed

lemma list_all_update: "list_all P xs \<Longrightarrow> P y \<Longrightarrow> list_all P (xs[p := y])"
  using set_update_subset_insert [of xs p y] by (auto simp: list_all_iff)

subsection \<open>The invariant\<close>

fun at_latch :: "producer_pc \<Rightarrow> bool" where
  "at_latch AtCountDown \<longleftrightarrow> True"
| "at_latch AtWait \<longleftrightarrow> True"
| "at_latch _ \<longleftrightarrow> False"

fun producer_ok :: "nat \<Rightarrow> producer_pc \<Rightarrow> bool" where
  "producer_ok ip (Pushing i) \<longleftrightarrow> i \<le> ip"
| "producer_ok ip _ \<longleftrightarrow> True"

fun main_ok :: "nat \<Rightarrow> nat \<Rightarrow> main_pc \<Rightarrow> 'q queue_bench \<Rightarrow> bool" where
  "main_ok np ip Spawn b \<longleftrightarrow> length (qb_producers b) \<le> np \<and> qb_taken b = []"
| "main_ok np ip CountDown b \<longleftrightarrow> length (qb_producers b) = np \<and> qb_taken b = []"
| "main_ok np ip WaitStart b \<longleftrightarrow> length (qb_producers b) = np \<and> qb_taken b = []"
| "main_ok np ip (Join k) b \<longleftrightarrow> length (qb_producers b) = np \<and> qb_taken b = [] \<and> qb_latch b = 0
     \<and> k \<le> np \<and> (\<forall>j < k. qb_producers b ! j = Exited)"
| "main_ok np ip (Consume c) b \<longleftrightarrow> qb_producers b = replicate np Exited \<and> c = length (qb_taken b) \<and> qb_latch b = 0"
| "main_ok np ip Ended b \<longleftrightarrow> set (qb_producers b) \<subseteq> {Exited} \<and> qb_left b = 0 \<and> qb_latch b = 0"

fun main_counts :: "main_pc \<Rightarrow> nat" where
  "main_counts Spawn = 1"
| "main_counts CountDown = 1"
| "main_counts _ = 0"

definition qb_inv :: "('q \<Rightarrow> int multiset) \<Rightarrow> nat \<Rightarrow> nat \<Rightarrow> 'q queue_bench \<Rightarrow> bool" where
  "qb_inv held np ip b \<longleftrightarrow> main_ok np ip (qb_main b) b \<and> list_all (producer_ok ip) (qb_producers b) \<and> qb_missed b = 0
     \<and> held (qb_queue b) + mset (qb_taken b) = (\<Sum>p \<leftarrow> qb_producers b. pushed_by ip p)
     \<and> (qb_main b \<noteq> Ended \<longrightarrow> qb_latch b = (np - length (qb_producers b)) + (\<Sum>p \<leftarrow> qb_producers b. before_latch p) + main_counts (qb_main b))
     \<and> (0 < qb_latch b \<longrightarrow> list_all at_latch (qb_producers b))
     \<and> (qb_main b = Ended \<longrightarrow> held (qb_queue b) = {#})"

fun producer_weight :: "nat \<Rightarrow> producer_pc \<Rightarrow> nat" where
  \<comment> \<open>the steps a producer has still to make\<close>
  "producer_weight ip AtCountDown = ip + 3"
| "producer_weight ip AtWait = ip + 2"
| "producer_weight ip (Pushing i) = ip - i + 1"
| "producer_weight ip Exited = 0"

fun main_weight :: "nat \<Rightarrow> nat \<Rightarrow> nat \<Rightarrow> main_pc \<Rightarrow> nat" where
  \<comment> \<open>the steps of the main thread in this iteration, and those of the producers it has not started\<close>
  "main_weight np ip l Spawn = np + np * ip + 5 + (np - l) * (ip + 4)"
| "main_weight np ip l CountDown = np + np * ip + 4"
| "main_weight np ip l WaitStart = np + np * ip + 3"
| "main_weight np ip l (Join k) = np - k + np * ip + 2"
| "main_weight np ip l (Consume c) = np * ip - c + 1"
| "main_weight np ip l Ended = 0"

definition iteration_steps :: "nat \<Rightarrow> nat \<Rightarrow> nat" where
  "iteration_steps np ip = 2 * np * ip + 5 * np + 5"

definition steps_left :: "nat \<Rightarrow> nat \<Rightarrow> 'q queue_bench \<Rightarrow> nat" where
  "steps_left np ip b = qb_left b * iteration_steps np ip + main_weight np ip (length (qb_producers b)) (qb_main b)
     + (\<Sum>p \<leftarrow> qb_producers b. producer_weight ip p)"

lemma spawn_weight: "main_weight np ip 0 Spawn = iteration_steps np ip"
  by (simp add: iteration_steps_def algebra_simps)

lemma begin_iteration_ok:
  assumes "np + 1 < 2 ^ 64" "held (qb_queue b) = {#}" "qb_missed b = 0" "qb_left b = 0 \<longrightarrow>
    set (qb_producers b) \<subseteq> {Exited} \<and> qb_latch b = 0 \<and> mset (qb_taken b) = (\<Sum>p \<leftarrow> qb_producers b. pushed_by ip p)"
  shows "qb_inv held np ip (begin_iteration np b)"
    and "steps_left np ip (begin_iteration np b) = qb_left b * iteration_steps np ip"
proof -
  have "list_all (producer_ok ip) ps" if "set ps \<subseteq> {Exited}" for ps
    using that by (induction ps) auto
  with assms show "qb_inv held np ip (begin_iteration np b)" by (simp add: qb_inv_def begin_iteration_def)
  show "steps_left np ip (begin_iteration np b) = qb_left b * iteration_steps np ip"
    using assms(4) by (cases "qb_left b")
      (auto simp: steps_left_def begin_iteration_def spawn_weight [simplified])
qed

lemma before_latch_none: "(\<Sum>p \<leftarrow> ps. before_latch p) = 0 \<longleftrightarrow> AtCountDown \<notin> set ps"
proof (induction ps)
  case (Cons x ps)
  then show ?case by (cases x) auto
qed simp

subsection \<open>Every step\<close>

definition qb_params :: "'q taking_queue \<Rightarrow> ('q \<Rightarrow> int multiset) \<Rightarrow> nat \<Rightarrow> nat \<Rightarrow> bool" where
  \<comment> \<open>the counts fit a \<open>size_t\<close>, and the latch a \<open>ptrdiff_t\<close>\<close>
  "qb_params Q held np ip \<longleftrightarrow> queue_contract Q held \<and> np + 1 < 2 ^ 63 \<and> ip < 2 ^ 64 \<and> np * ip < 2 ^ 64"

lemma producer_update:
  assumes inv: "qb_inv held np ip b" and p: "p < length (qb_producers b)" "qb_producers b ! p \<noteq> Exited"
    and b1: "b1 = b\<lparr>qb_producers := (qb_producers b)[p := y], qb_queue := q1, qb_latch := l1\<rparr>"
    and y: "producer_ok ip y" "producer_weight ip y + 1 = producer_weight ip (qb_producers b ! p)" "0 < l1 \<longrightarrow> at_latch y"
    and q: "held q1 + pushed_by ip (qb_producers b ! p) = held (qb_queue b) + pushed_by ip y"
    and l: "l1 + before_latch (qb_producers b ! p) = qb_latch b + before_latch y" "0 < l1 \<longrightarrow> 0 < qb_latch b"
  shows "qb_inv held np ip b1 \<and> Suc (steps_left np ip b1) = steps_left np ip b"
proof -
  let ?ps = "qb_producers b"
  note upd = sum_list_update [OF p(1), where y = y]
  have main: "main_ok np ip (qb_main b) b" using inv by (simp add: qb_inv_def)
  have m: "qb_main b \<noteq> Ended" "qb_main b \<noteq> Consume c" for c
    using main p by auto (metis nth_mem singletonD subsetD)
  have "main_ok np ip (qb_main b) b1" using main m l(2) p by (cases "qb_main b") (auto simp: b1 nth_list_update)
  moreover have "list_all (producer_ok ip) (?ps[p := y])"
    using inv y(1) by (simp add: qb_inv_def list_all_update)
  moreover have "held q1 + mset (qb_taken b) = (\<Sum>x \<leftarrow> ?ps[p := y]. pushed_by ip x)"
  proof -
    have "(held q1 + mset (qb_taken b)) + pushed_by ip (?ps ! p) = (held q1 + pushed_by ip (?ps ! p)) + mset (qb_taken b)"
      by (simp only: ac_simps)
    also have "\<dots> = (held (qb_queue b) + mset (qb_taken b)) + pushed_by ip y" by (simp only: q ac_simps)
    also have "\<dots> = (\<Sum>x \<leftarrow> ?ps. pushed_by ip x) + pushed_by ip y" using inv by (simp add: qb_inv_def)
    also have "\<dots> = (\<Sum>x \<leftarrow> ?ps[p := y]. pushed_by ip x) + pushed_by ip (?ps ! p)" by (rule upd [symmetric])
    finally show ?thesis by simp
  qed
  moreover have "l1 = (np - length ?ps) + (\<Sum>x \<leftarrow> ?ps[p := y]. before_latch x) + main_counts (qb_main b)"
    using inv upd [of before_latch] l(1) m(1) by (simp add: qb_inv_def)
  moreover have "list_all at_latch (?ps[p := y])" if "0 < l1"
    using inv y(3) l(2) that by (simp add: qb_inv_def list_all_update)
  ultimately have "qb_inv held np ip b1" using inv m(1) by (simp add: qb_inv_def b1)
  moreover have "Suc (steps_left np ip b1) = steps_left np ip b"
    using upd [of "producer_weight ip"] y(2) by (simp add: steps_left_def b1)
  ultimately show ?thesis ..
qed

lemma producer_step_to:
  assumes "producer_step Q ip p b = Some b1" "qb_inv held np ip b" "p < length (qb_producers b)" "qb_producers b ! p \<noteq> Exited"
    and "b1 = b\<lparr>qb_producers := (qb_producers b)[p := y], qb_queue := q1, qb_latch := l1\<rparr>"
    and "producer_ok ip y" "producer_weight ip y + 1 = producer_weight ip (qb_producers b ! p)" "0 < l1 \<longrightarrow> at_latch y"
    and "held q1 + pushed_by ip (qb_producers b ! p) = held (qb_queue b) + pushed_by ip y"
    and "l1 + before_latch (qb_producers b ! p) = qb_latch b + before_latch y" "0 < l1 \<longrightarrow> 0 < qb_latch b"
  shows "\<exists>b1. producer_step Q ip p b = Some b1 \<and> qb_inv held np ip b1 \<and> Suc (steps_left np ip b1) = steps_left np ip b"
  using producer_update [OF assms(2-)] assms(1) by blast

lemma producer_step_ok:
  assumes Q: "qb_params Q held np ip" and inv: "qb_inv held np ip b" and en: "qb_enabled (ProducerStep p) b"
  shows "\<exists>b1. producer_step Q ip p b = Some b1 \<and> qb_inv held np ip b1 \<and> Suc (steps_left np ip b1) = steps_left np ip b"
proof -
  have p: "p < length (qb_producers b)" "qb_producers b ! p \<noteq> Exited" using en by auto
  have ok: "producer_ok ip (qb_producers b ! p)" using inv p(1) by (simp add: qb_inv_def list_all_length)
  have lat: "at_latch (qb_producers b ! p)" if "0 < qb_latch b" using inv p(1) that by (simp add: qb_inv_def list_all_length)
  show ?thesis
  proof (cases "qb_producers b ! p")
    case AtCountDown
    have "AtCountDown \<in> set (qb_producers b)" using p(1) AtCountDown by (metis nth_mem)
    then have "0 < (\<Sum>x \<leftarrow> qb_producers b. before_latch x)" using before_latch_none by (metis gr0I)
    moreover have "qb_main b \<noteq> Ended" using inv p AtCountDown by (auto simp: qb_inv_def dest!: nth_mem)
    ultimately have pos: "0 < qb_latch b" using inv by (simp add: qb_inv_def)
    then have st: "producer_step Q ip p b = Some (b\<lparr>qb_producers := (qb_producers b)[p := AtWait], qb_queue := qb_queue b,
        qb_latch := qb_latch b - 1\<rparr>)"
      by (simp add: producer_step_def AtCountDown start_count_down_def)
    show ?thesis
      by (rule producer_step_to [OF st inv p refl]) (use pos in \<open>simp_all add: AtCountDown\<close>)
  next
    case AtWait
    with en have z: "qb_latch b = 0" by simp
    have st: "producer_step Q ip p b = Some (b\<lparr>qb_producers := (qb_producers b)[p := Pushing 0], qb_queue := qb_queue b,
        qb_latch := qb_latch b\<rparr>)"
      by (simp add: producer_step_def AtWait)
    show ?thesis
      by (rule producer_step_to [OF st inv p refl]) (simp_all add: AtWait z)
  next
    case (Pushing i)
    have z: "qb_latch b = 0" using lat Pushing by (cases "qb_latch b") auto
    show ?thesis
    proof (cases "i < ip")
      case True
      then have add: "size_add i 1 = Suc i" using Q by (simp add: qb_params_def)
      have st: "producer_step Q ip p b = Some (b\<lparr>qb_producers := (qb_producers b)[p := Pushing (Suc i)],
          qb_queue := mq_push Q (int_cast i) (qb_queue b), qb_latch := qb_latch b\<rparr>)"
        using True add by (simp add: producer_step_def Pushing)
      have "held (mq_push Q (int_cast i) (qb_queue b)) = add_mset (int_cast i) (held (qb_queue b))"
        using Q by (simp add: qb_params_def queue_contract_def)
      with True show ?thesis
        by (intro producer_step_to [OF st inv p refl]) (simp_all add: Pushing z)
    next
      case False
      then have "i = ip" using ok Pushing by simp
      have st: "producer_step Q ip p b = Some (b\<lparr>qb_producers := (qb_producers b)[p := Exited], qb_queue := qb_queue b,
          qb_latch := qb_latch b\<rparr>)"
        using False by (simp add: producer_step_def Pushing)
      show ?thesis
        by (rule producer_step_to [OF st inv p refl]) (simp_all add: Pushing z \<open>i = ip\<close>)
    qed
  qed (use p in simp)
qed

lemma sum_exited: "sum_list (replicate n M) = repeat_mset n M"
  by (induction n) simp_all

lemma all_exited: "length ps = n \<Longrightarrow> \<forall>j < n. ps ! j = Exited \<Longrightarrow> ps = replicate n Exited"
  by (simp add: list_eq_iff_nth_eq)

lemma consuming:
  assumes "qb_inv held np ip b" "qb_main b = Consume c"
  shows "held (qb_queue b) + mset (qb_taken b) = repeat_mset np (pushed ip)"
    and "size (held (qb_queue b)) + c = np * ip"
proof -
  show bag: "held (qb_queue b) + mset (qb_taken b) = repeat_mset np (pushed ip)"
    using assms by (simp add: qb_inv_def sum_exited)
  from arg_cong [OF bag, of size] show "size (held (qb_queue b)) + c = np * ip"
    using assms by (simp add: qb_inv_def)
qed

lemma qb_main_step_ok:
  assumes Q: "qb_params Q held np ip" and inv: "qb_inv held np ip b" and en: "qb_enabled MainStep b"
  shows "\<exists>b1. BM_MultipleProducers Q np ip b = Some b1 \<and> qb_inv held np ip b1 \<and> Suc (steps_left np ip b1) = steps_left np ip b"
proof (cases "qb_main b")
  case Spawn
  show ?thesis
  proof (cases "length (qb_producers b) < np")
    case True
    moreover have "\<not> 0 < qb_latch b \<longrightarrow> False" using inv Spawn by (simp add: qb_inv_def)
    moreover have "np - length (qb_producers b) = Suc (np - Suc (length (qb_producers b)))" using True by simp
    ultimately show ?thesis using inv Spawn
      by (auto simp: BM_MultipleProducers_def qb_inv_def steps_left_def)
  next
    case False
    with inv Spawn show ?thesis by (auto simp: BM_MultipleProducers_def qb_inv_def steps_left_def)
  qed
next
  case CountDown
  with inv show ?thesis
    by (auto simp: BM_MultipleProducers_def start_count_down_def qb_inv_def steps_left_def)
next
  case WaitStart
  with inv en show ?thesis by (auto simp: BM_MultipleProducers_def qb_inv_def steps_left_def)
next
  case (Join k)
  show ?thesis
  proof (cases "k < np")
    case True
    with inv en Join show ?thesis
      by (auto simp: BM_MultipleProducers_def qb_inv_def steps_left_def less_Suc_eq)
  next
    case False
    with inv Join have ex: "qb_producers b = replicate np Exited" by (intro all_exited) (auto simp: qb_inv_def)
    with False inv Join show ?thesis
      by (auto simp: BM_MultipleProducers_def qb_inv_def steps_left_def)
  qed
next
  case (Consume c)
  have n: "np * ip < 2 ^ 64" "total_items np ip = np * ip" using Q by (simp_all add: qb_params_def total_items_def)
  note bag = consuming [OF inv Consume]
  show ?thesis
  proof (cases "c < np * ip")
    case True
    obtain x q1 where t: "mq_take Q (qb_queue b) = (x, q1)" by fastforce
    have "case mq_take Q (qb_queue b) of (None, q1) \<Rightarrow> held (qb_queue b) = {#} \<and> held q1 = {#}
        | (Some y, q1) \<Rightarrow> held (qb_queue b) = add_mset y (held q1)"
      using Q by (simp add: qb_params_def queue_contract_def)
    then have law: "case x of None \<Rightarrow> held (qb_queue b) = {#} | Some y \<Rightarrow> held (qb_queue b) = add_mset y (held q1)"
      by (auto simp: t split: option.splits)
    have "held (qb_queue b) \<noteq> {#}" using bag(2) True by auto
    with law obtain y where y: "x = Some y" "held (qb_queue b) = add_mset y (held q1)" by (cases x) auto
    have "size_add c 1 = Suc c" using True n(1) by simp
    with True inv Consume t y n(2) show ?thesis
      by (auto simp: BM_MultipleProducers_def qb_inv_def steps_left_def)
  next
    case False
    with bag(2) have "size (held (qb_queue b)) = 0" "c = np * ip" by linarith+
    then have z: "held (qb_queue b) = {#}" "c = np * ip" by simp_all
    have "mset (qb_taken b) = (\<Sum>p \<leftarrow> qb_producers b. pushed_by ip p)"
      using inv z(1) by (simp add: qb_inv_def)
    moreover have ps: "qb_producers b = replicate np Exited" "qb_latch b = 0" "qb_missed b = 0"
      using inv Consume by (simp_all add: qb_inv_def)
    ultimately have h: "qb_left b = 0 \<longrightarrow> set (qb_producers b) \<subseteq> {Exited} \<and> qb_latch b = 0
        \<and> mset (qb_taken b) = (\<Sum>p \<leftarrow> qb_producers b. pushed_by ip p)" by auto
    have "np + 1 < 2 ^ 64" using Q by (simp add: qb_params_def)
    note it = begin_iteration_ok [of np held b ip, OF this z(1) ps(3) h]
    with it ps(1) z(2) Consume n(2) show ?thesis
      by (simp add: BM_MultipleProducers_def steps_left_def)
  qed
next
  case Ended
  with en show ?thesis by simp
qed

lemma qb_step_ok:
  assumes "qb_params Q held np ip" "qb_inv held np ip b" "qb_enabled x b"
  shows "\<exists>b1. qb_step Q np ip x b = Some b1 \<and> qb_inv held np ip b1 \<and> Suc (steps_left np ip b1) = steps_left np ip b"
proof (cases x)
  case MainStep
  with qb_main_step_ok [OF assms(1,2)] assms(3) show ?thesis by simp
next
  case (ProducerStep p)
  with producer_step_ok [OF assms(1,2), of p] assms(3) show ?thesis by simp
qed

lemma qb_reach_inv:
  assumes "qb_reach Q np ip (new_queue_bench np iterations q) n b" "qb_params Q held np ip" "held q = {#}"
  shows "qb_inv held np ip b \<and> n + steps_left np ip b = iterations * iteration_steps np ip"
  using assms
proof (induction rule: qb_reach.induct)
  case qb_refl
  then show ?case
    using begin_iteration_ok [of np held "\<lparr>qb_queue = q, qb_latch = 0, qb_producers = [], qb_main = Ended,
      qb_left = iterations, qb_taken = [], qb_missed = 0\<rparr>" ip]
    by (simp add: new_queue_bench_def qb_params_def)
next
  case (qb_trans n b x b1)
  with qb_step_ok [of Q held np ip b x] show ?case by auto
qed

lemma some_enabled:
  assumes "qb_inv held np ip b" "qb_main b \<noteq> Ended"
  shows "\<exists>x. qb_enabled x b"
proof (cases "qb_enabled MainStep b")
  case False
  have waiting: "\<exists>x. qb_enabled x b" if "p < length (qb_producers b)" "qb_producers b ! p \<noteq> Exited" "qb_latch b = 0" for p
    using that by (intro exI [of _ "ProducerStep p"]) (cases "qb_producers b ! p"; simp)
  consider "qb_main b = WaitStart" "0 < qb_latch b" | k where "qb_main b = Join k" "k < length (qb_producers b)" "qb_producers b ! k \<noteq> Exited"
    using False assms(2) by (cases "qb_main b") auto
  then show ?thesis
  proof cases
    case 1
    then have "0 < (\<Sum>p \<leftarrow> qb_producers b. before_latch p)" using assms(1) by (simp add: qb_inv_def)
    then have "AtCountDown \<in> set (qb_producers b)" using before_latch_none by (metis less_numeral_extra(3))
    then obtain p where "p < length (qb_producers b)" "qb_producers b ! p = AtCountDown" by (metis in_set_conv_nth)
    then show ?thesis by (intro exI [of _ "ProducerStep p"]) simp
  next
    case (2 k)
    then have "qb_latch b = 0" using assms(1) by (simp add: qb_inv_def)
    with waiting 2 show ?thesis by blast
  qed
qed blast

text \<open>C28: Over any queue that keeps what is pushed, and in every interleaving, no step of the benchmark counts the
  latch down below zero and, until it has ended, some thread can go on; when the main thread takes items, every
  producer has returned, and what it took with what the queue holds is what all producers pushed; the queue never
  has nothing for it, and is empty in the end.\<close>

theorem queue_bench_takes_all:
  assumes "qb_params Q held np ip" "held q = {#}" "qb_reach Q np ip (new_queue_bench np iterations q) n b"
  shows "(\<forall>x. qb_enabled x b \<longrightarrow> qb_step Q np ip x b \<noteq> None)
    \<and> (qb_main b \<noteq> Ended \<longrightarrow> (\<exists>x. qb_enabled x b))
    \<and> (\<forall>c. qb_main b = Consume c \<longrightarrow> qb_producers b = replicate np Exited
        \<and> held (qb_queue b) + mset (qb_taken b) = repeat_mset np (image_mset int_cast (mset [0..<ip])))
    \<and> qb_missed b = 0 \<and> (qb_main b = Ended \<longrightarrow> held (qb_queue b) = {#})"
proof -
  have inv: "qb_inv held np ip b" using qb_reach_inv [OF assms(3,1,2)] by simp
  have "qb_producers b = replicate np Exited
      \<and> held (qb_queue b) + mset (qb_taken b) = repeat_mset np (image_mset int_cast (mset [0..<ip]))"
    if "qb_main b = Consume c" for c
    using consuming(1) [OF inv that] inv that by (simp add: qb_inv_def pushed_def)
  moreover have "qb_missed b = 0" "qb_main b = Ended \<Longrightarrow> held (qb_queue b) = {#}" using inv by (simp_all add: qb_inv_def)
  moreover have "qb_step Q np ip x b \<noteq> None" if "qb_enabled x b" for x using qb_step_ok [OF assms(1) inv that] by auto
  ultimately show ?thesis using some_enabled [OF inv] by blast
qed

text \<open>C29: Every run of the benchmark ends, and whatever the interleaving it ends after the same number of steps:
  each iteration makes 2 steps for each item, 5 for each producer and 5 more.\<close>

theorem queue_bench_ends:
  assumes "qb_params Q held np ip" "held q = {#}" "qb_reach Q np ip (new_queue_bench np iterations q) n b"
  shows "n \<le> iterations * (2 * np * ip + 5 * np + 5)
    \<and> (qb_main b = Ended \<longleftrightarrow> n = iterations * (2 * np * ip + 5 * np + 5))"
proof -
  have inv: "qb_inv held np ip b" and n: "n + steps_left np ip b = iterations * iteration_steps np ip"
    using qb_reach_inv [OF assms(3,1,2)] by simp_all
  have "steps_left np ip b = 0" if "qb_main b = Ended"
  proof -
    have "set (qb_producers b) \<subseteq> {Exited}" "qb_left b = 0" using inv that by (simp_all add: qb_inv_def)
    then show ?thesis using that by (auto simp: steps_left_def)
  qed
  moreover have "0 < steps_left np ip b" if "qb_main b \<noteq> Ended"
    using that by (cases "qb_main b") (simp_all add: steps_left_def)
  ultimately show ?thesis using n unfolding iteration_steps_def by (cases "qb_main b = Ended") auto
qed

definition list_taking :: "int list taking_queue" where
  \<comment> \<open>a queue that keeps the contract\<close>
  "list_taking = \<lparr>mq_push = (\<lambda>x q. q @ [x]), mq_take = (\<lambda>q. case q of [] \<Rightarrow> (None, []) | x # xs \<Rightarrow> (Some x, xs))\<rparr>"

lemma list_taking_contract: "qb_params list_taking mset 1 1"
  by (auto simp: qb_params_def queue_contract_def list_taking_def split: list.split)

fun qb_run :: "'q taking_queue \<Rightarrow> nat \<Rightarrow> nat \<Rightarrow> queue_bench_event list \<Rightarrow> 'q queue_bench \<Rightarrow> 'q queue_bench option" where
  \<comment> \<open>a given interleaving\<close>
  "qb_run Q np ip [] b = Some b"
| "qb_run Q np ip (x # xs) b = (if qb_enabled x b then do { b1 \<leftarrow> qb_step Q np ip x b; qb_run Q np ip xs b1 } else None)"

lemma qb_run_reach: "qb_run Q np ip xs b = Some b1 \<Longrightarrow> qb_reach Q np ip b0 n b \<Longrightarrow> qb_reach Q np ip b0 (n + length xs) b1"
proof (induction xs arbitrary: b n)
  case (Cons x xs)
  from Cons.prems(1) obtain b2 where "qb_enabled x b" "qb_step Q np ip x b = Some b2" "qb_run Q np ip xs b2 = Some b1"
    by (auto split: if_splits Option.bind_splits)
  with Cons.IH [of b2 "Suc n"] qb_trans [OF Cons.prems(2)] show ?case by simp
qed simp

definition demo_bench_run :: "queue_bench_event list" where
  "demo_bench_run = [MainStep, MainStep, ProducerStep 0, MainStep, MainStep, ProducerStep 0, ProducerStep 0,
     ProducerStep 0, MainStep, MainStep]"

lemma demo_bench: "\<exists>b. qb_run list_taking 1 1 demo_bench_run (new_queue_bench 1 1 []) = Some b \<and> qb_main b = Consume 0"
  by (simp add: demo_bench_run_def new_queue_bench_def begin_iteration_def BM_MultipleProducers_def producer_step_def
      start_count_down_def list_taking_def)

theorem queue_bench_takes_all_witness:
  "\<exists>n b. qb_reach list_taking 1 1 (new_queue_bench 1 1 []) n b \<and> qb_main b = Consume 0
    \<and> mset (qb_queue b) + mset (qb_taken b) = {#0#}"
proof -
  obtain b where b: "qb_run list_taking 1 1 demo_bench_run (new_queue_bench 1 1 []) = Some b" "qb_main b = Consume 0"
    using demo_bench by blast
  note r = qb_run_reach [OF b(1) qb_refl]
  from queue_bench_takes_all [OF list_taking_contract _ r] b(2)
  have "mset (qb_queue b) + mset (qb_taken b) = {#0#}" by (simp add: int_cast_def)
  with r b(2) show ?thesis by blast
qed

theorem queue_bench_ends_witness:
  "\<exists>b. qb_reach list_taking 1 1 (new_queue_bench 1 1 []) 12 b \<and> qb_main b = Ended"
proof -
  obtain b where "qb_run list_taking 1 1 (demo_bench_run @ [MainStep, MainStep]) (new_queue_bench 1 1 []) = Some b"
    by (simp add: demo_bench_run_def new_queue_bench_def begin_iteration_def BM_MultipleProducers_def producer_step_def
        start_count_down_def list_taking_def total_items_def)
  from qb_run_reach [OF this qb_refl] have r: "qb_reach list_taking 1 1 (new_queue_bench 1 1 []) 12 b"
    by (simp add: demo_bench_run_def eval_nat_numeral)
  from queue_bench_ends [OF list_taking_contract _ r] r show ?thesis by auto
qed

end
