(* ===== verification/Spec2Isabelle.thy ===== *)
theory Spec2Isabelle
  imports Prelude ByteBuf Conveyor Chunker Pipeline Myfs MyfsProps Watcher WatcherProps WatcherThreads
    WatcherThreadsProps LoopTransport TransportProps TransportMessages TransportLoop TransportLoopProps Endpoints RpcTransport
    RpcTransportProps Socket SocketProps SocketTcp SocketLoop SocketLoopProps Echo EchoProps TaskWatcher
    TaskWatcherProps WaitGroup ThreadPool QueueBench
begin

text \<open>
  A verification development of the C++ code under \<open>src/tasks\<close>. The repository is a set of tasks around
  the building blocks of a replicated system: a transport library, an rpc socket, a file system served
  through FUSE, event watchers and primitives of concurrency.

  The parts and how they interact. In \<open>tasks/transport\<close> a connection is a transport whose bytes enter and
  leave through a conveyor, a pipeline of stages; the chunker is the stage that cuts the byte stream
  into messages. The transport is told by an event watcher, an epoll loop on a thread of its own, when its
  descriptor is ready; dialers and listeners make transports. In \<open>tasks/socket\<close> a socket is a state
  machine driven by requests of its user and reports of its transport, both posted to the loop of an event
  watcher (the one of \<open>tasks/event_watcher\<close>); its TCP transport keeps the tables of connections. \<open>tasks/myfs\<close>
  and \<open>tasks/thread-pool\<close> stand on their own.

  Theories and code:
  \<^item> \<open>Prelude\<close>: machine types, \<open>size_t\<close> arithmetic, bounds-checked copies, values of \<open>errno\<close>, and the locales
    \<open>safe_ops\<close> and \<open>refined_ops\<close> of operations that never fault, keep an invariant and follow a specification.
  \<^item> \<open>ByteBuf\<close>: \<open>transport/byte_buffer.hpp\<close>; the class is the record \<open>bytebuf\<close>, \<open>bb_contents\<close> its readable bytes.
  \<^item> \<open>Conveyor\<close>: \<open>transport/event.hpp\<close>, \<open>transport/conveyor.hpp\<close>; stages, contexts and dispatch, and the
    locale \<open>stage_contract\<close> under which a pipeline returns.
  \<^item> \<open>Chunker\<close>: \<open>transport/chunker.*\<close>, with the specification \<open>drain\<close> on byte strings; \<open>Pipeline\<close>: pipelines of
    chunkers, by interpretation of the contract.
  \<^item> \<open>Watcher\<close>, \<open>WatcherProps\<close>: \<open>transport/event_watcher/*\<close>; the block map (\<open>FdWatchMap\<close>), \<open>handleWatch\<close>,
    \<open>handleUnwatch\<close>, \<open>loop\<close>, the task queue and \<open>curr_\<close>. \<open>WatcherThreads\<close>, \<open>WatcherThreadsProps\<close>: the loop
    interleaved with the threads that submit tasks, at the ring and the event descriptor.
  \<^item> \<open>LoopTransport\<close>, \<open>TransportProps\<close>: \<open>transport/abstract_transport.*\<close>, \<open>transport/tcp/tcp_transport.*\<close>; the
    locale \<open>stream_io\<close> is the contract of the virtual \<open>readSome\<close> and \<open>writeSome\<close>. \<open>TransportMessages\<close>: two
    transports with framed pipelines, from the messages sent to the messages received. \<open>TransportLoop\<close>,
    \<open>TransportLoopProps\<close>: the transport and the watcher as one system, with members called in another
    thread and callbacks in the loop's.
  \<^item> \<open>Endpoints\<close>: \<open>transport/tcp/tcp_dialer.*\<close>, \<open>transport/tcp/tcp_listener.*\<close>.
  \<^item> \<open>RpcTransport\<close>, \<open>RpcTransportProps\<close>: \<open>socket/transport.hpp\<close>, \<open>socket/tcp_transport.*\<close>; the class is the
    record \<open>rpc_tcp\<close>, its members the \<open>rpc_\<close> definitions and those with the names of the code.
  \<^item> \<open>Socket\<close>, \<open>SocketProps\<close>, \<open>SocketTcp\<close>: \<open>socket/socket.*\<close>; one definition per overload of \<open>tick\<close>, the locale
    \<open>itransport_laws\<close> for what a socket needs of a transport, and its interpretation on the TCP transport.
  \<^item> \<open>SocketLoop\<close>, \<open>SocketLoopProps\<close>: the socket, its TCP transport and the loop as one system: requests and
    reports are posted, posted events are handled (\<open>tick\<close>), registered descriptors call the transport's
    handlers. The locale \<open>transport_rel\<close> lifts a relation kept by a transport to the events of its socket.
  \<^item> \<open>Echo\<close>, \<open>EchoProps\<close>: \<open>EchoServer\<close>, \<open>EchoClient\<close> and \<open>BM_SocketPingPong\<close> of \<open>socket/socket_bench.cpp\<close>, users of
    two sockets over any transports that keep the laws; the locale \<open>callbacks\<close> is what the functions given
    to a socket keep of the latches.
  \<^item> \<open>TaskWatcher\<close>, \<open>TaskWatcherProps\<close>: \<open>event_watcher/event_watcher.*\<close> and its copy in \<open>socket\<close>.
  \<^item> \<open>WaitGroup\<close>, \<open>ThreadPool\<close>: \<open>thread-pool/wait_group.hpp\<close>, \<open>thread-pool/thread_pool.*\<close>.
  \<^item> \<open>QueueBench\<close>: \<open>mpsc_queue/queue_bench.cpp\<close>, over any queue that keeps the contract \<open>queue_contract\<close>.
  \<^item> \<open>Myfs\<close>, \<open>MyfsProps\<close>: \<open>myfs/myfs_server.*\<close>; one definition per handler, \<open>fs_dispatch\<close> for the table of
    \<open>run\<close>, and \<open>fs_spec\<close> for the file system the handlers implement.
  \<^item> This theory: the properties that span the transport of a socket and its watcher.

  What the lemmas show. Each component has an invariant that its operations keep and a lemma per operation
  for what it does on each branch. On these rest the refinements (the block map and the table of callbacks
  refine flat maps and the kernel's interest list follows; the write buffer is a queue of bytes; the
  handlers of the file system refine it; the socket follows its diagram), the round trips of words and of
  frames under any fragmentation and across a connection, the conservation of the socket's requests also
  while its loop runs, the latches of the echo benchmark, the registrations and signals that keep waiting
  bytes, reads and tasks from being forgotten, the absence of undefined behaviour and the termination of the loops. Properties of
  kind error state how the code fails where it does: inputs on which it faults, loses a request or reports
  the wrong outcome.

  Conventions. A result \<open>None\<close> is undefined behaviour or an abort (see \<open>Prelude\<close>). What the code does to the
  world outside is a list of effects in the order they happen. System calls, the helpers of \<open>bits\<close> (a submodule
  that is not in the repository), libfuse and the rings are parameters: records of functions or predicted
  results, with hypotheses for what the code relies on (\<open>system_ok\<close>, \<open>ring_ok\<close>, \<open>task_queue_ok\<close>). The
  order in which a hash table is visited is a parameter too. Logging is left out.

  Bounds and loops. Loops of the code with a constant bound keep it (256 partial writes, 10 and 256
  accepted connections, 4 interrupted waits). Loops without one are \<open>partial_function (option)\<close>, and
  that they return is proved: of the chunker for every input, of a pipeline under the stage contract, of the
  socket's reads for the TCP transport, of a wake-up for a queue that the tasks do not refill, of the pipe's
  write when it is interrupted finitely often. The runs of the file system are bounded by 2 ^ 62
  requests, below which its counters do not wrap. The wait group's counter is a 64-bit word. The runs of the
  queue benchmark end after a number of steps that is the same in every interleaving.

  Not modelled. The bodies the repository leaves to the reader are empty: the framed transport of the
  sockets, the queues, \<open>invokeCallback\<close>, \<open>waitLoop\<close> and \<open>runInEventWatcherLoop\<close> of the task's
  watcher, the workers of the thread pool, the tutorial; where modelled code calls one it is a parameter.
  Threads are modelled where the code meets them: in the tasks submitted to a loop, and in the
  interleavings of the wait group, of the watcher with its submitters and of the two benchmarks. Setters that
  store a callback, abstract interfaces, tests and timing are left out.
\<close>

section \<open>The transport of a socket and its watcher\<close>

definition log_tasks :: "rpc_effect list \<Rightarrow> (int \<times> wflag) wtask list" where
  \<comment> \<open>the tasks that the transport's calls of its watcher become, each callback named by what it is for\<close>
  "log_tasks es = concat (map (\<lambda>e. case e of
       RWatch fd f \<Rightarrow> [DoWatch fd f (fd, f)] | RUnwatch fd f \<Rightarrow> [DoUnwatch fd f] | _ \<Rightarrow> []) es)"

lemma dom_log_tasks: "dom (fold task_flat (log_tasks es) m) = fold reg_step es (dom m)"
proof (induction es arbitrary: m)
  case (Cons e es)
  then show ?case by (cases e) (simp_all add: log_tasks_def del: fun_upd_apply)
qed (simp add: log_tasks_def)

text \<open>C19: A socket's transport and its watcher agree: once the loop has performed the watches and unwatches that
  the transport asked for since it was made, the watcher holds a callback for exactly the armed connections,
  the listening socket and the connection in progress, and the kernel reports exactly their events, beside
  those of the watcher's pipe.\<close>

theorem transport_and_watcher_agree:
  assumes "system_ok E op" "re_alloc E = (\<lambda>_. True)" "rpc_new E address w = Inr t0" "rpc_reach E t0 t"
    and "task_queue_ok env items" "new_task_watcher epoll pipe q None = Inr tw"
    and "items q = map Some (log_tasks (rt_log t))" "list_all (task_ok pipe) (log_tasks (rt_log t))"
  shows "\<exists>ds tw1. onWakeup env (fst pipe) (tw, v) = Some (ds, tw1, te_read env (fst pipe) v)
    \<and> dom (tw_abs tw1) = {(fd, f). \<exists>c. map_of (rt_conns t) fd = Some c \<and> armed f c} \<union> own_regs t
    \<and> interest (tw_ctls tw1) = kernel_view (fst pipe) (tw_abs tw1)"
proof -
  note n = new_task_watcher_ok [OF assms(6)]
  have inv: "rt_inv op (op w) t" by (rule rpc_reach_inv [OF assms(4,1,2) rpc_new_inv [OF assms(3)]])
  have ts: "live (items (tw_queue tw)) = log_tasks (rt_log t)" by (simp add: n(4) assms(7))
  then have ok: "list_all (task_ok (ends tw)) (live (items (tw_queue tw)))" using assms(8) by (simp only: n(3))
  obtain ds tw1 where d: "onWakeup env (fst pipe) (tw, v) = Some (ds, tw1, te_read env (fst pipe) v)" "tw_inv tw1"
      "tw_abs tw1 = fold task_flat (log_tasks (rt_log t)) Map.empty" "ends tw1 = pipe"
    using drain_own_tasks [OF assms(5) refl ok n(1), of "te_read env (fst pipe) v"]
    unfolding ts n(2) n(3) onWakeup_def by auto
  have "dom (tw_abs tw1) = registered (rt_log t)"
    by (simp add: d(3) dom_log_tasks registered_def)
  also have "\<dots> = {(fd, f). \<exists>c. map_of (rt_conns t) fd = Some c \<and> armed f c} \<union> own_regs t"
    using inv by (simp add: rt_inv_def rt_core_def conn_regs_def)
  finally have "dom (tw_abs tw1) = {(fd, f). \<exists>c. map_of (rt_conns t) fd = Some c \<and> armed f c} \<union> own_regs t" .
  moreover have "interest (tw_ctls tw1) = kernel_view (fst pipe) (tw_abs tw1)"
    using d(2,4) by (auto simp: tw_inv_def)
  ultimately show ?thesis using d(1) by blast
qed

definition agree_env :: "(int \<times> wflag, (int \<times> wflag) wtask option list, unit) task_env" where
  "agree_env = \<lparr>te_submit = (\<lambda>t (tw, w). (tw\<lparr>tw_queue := tw_queue tw @ [Some t]\<rparr>, w)),
     te_pop = (\<lambda>q. case q of [] \<Rightarrow> (None, []) | t # ts \<Rightarrow> (Some t, ts)),
     te_user = (\<lambda>c st. (False, st)), te_write = (\<lambda>fd w. ((1, 0), w)), te_read = (\<lambda>fd w. w)\<rparr>"

lemma agree_env_ok: "task_queue_ok agree_env (\<lambda>q. q)"
  by (simp add: task_queue_ok_def agree_env_def split: list.split)

theorem transport_and_watcher_agree_witness:
  "\<exists>t0 tw ds tw1. rpc_new demo_env ''h'' [] = Inr t0
    \<and> new_task_watcher 50 (51, 52) (map Some (log_tasks (rt_log (rpc_connect demo_env t0)))) None = Inr tw
    \<and> onWakeup agree_env 51 (tw, ()) = Some (ds, tw1, ()) \<and> dom (tw_abs tw1) = {(1, WRONLY)}"
proof -
  obtain t0 where t0: "rpc_new demo_env ''h'' [] = Inr t0" "rt_client_fd t0 = -1" "\<not> rt_connected t0" "rt_world t0 = []"
      "rt_log t0 = []" "rt_conns t0 = []" "rt_listen_fd t0 = -1"
    by (simp add: rpc_new_def demo_env_def)
  let ?t = "rpc_connect demo_env t0"
  have r: "rpc_reach demo_env t0 ?t"
    by (rule rpc_reach_step [OF rpc_reach_refl, where x = OpConnect]) (simp_all add: t0)
  have c: "rt_client_fd ?t = 1" "rt_log ?t = [RWatch 1 WRONLY]" "rt_conns ?t = []" "rt_listen_fd ?t = -1" "\<not> rt_connected ?t"
    using t0 by (simp_all add: rpc_connect_def sys_def Let_def demo_env_def errno_defs fresh_fd_def watchConnect_def emit_def)
  obtain tw :: "(int \<times> wflag, (int \<times> wflag) wtask option list) task_watcher" where
    tw: "new_task_watcher 50 (51, 52) (map Some (log_tasks (rt_log ?t))) None = Inr tw"
    by (simp add: new_task_watcher_def)
  have "re_alloc demo_env = (\<lambda>_. True)" by (simp add: demo_env_def)
  moreover have "list_all (task_ok (51, 52)) (log_tasks (rt_log ?t))" by (simp add: c log_tasks_def)
  ultimately obtain ds tw1 where d: "onWakeup agree_env 51 (tw, ()) = Some (ds, tw1, ())"
      "dom (tw_abs tw1) = {(fd, f). \<exists>c. map_of (rt_conns ?t) fd = Some c \<and> armed f c} \<union> own_regs ?t"
    using transport_and_watcher_agree [OF demo_env_ok _ t0(1) r agree_env_ok tw refl, of "()"] by auto
  have "own_regs ?t = {(1, WRONLY)}" using c by (auto simp: own_defs)
  with d t0(1) tw c(3) show ?thesis by auto
qed

end
